(* ===== verification/Prelude.thy ===== *)
theory Prelude
  imports Main "HOL-Library.Monad_Syntax"
begin

text \<open>
  Shared vocabulary of the development. A Go slice access out of range panics, so an index
  is read with \<open>goindex\<close> and written with \<open>gostore\<close>, which return \<open>None\<close> where the
  program panics. A \<open>for range\<close> loop over a list whose body may panic is \<open>for_each\<close>.
  The named collections gather the definitions of the handlers and the facts about
  them that the component proofs use.
\<close>

named_theorems handler_defs "definitions of the operations a server runs under its lock"
named_theorems frame_simps "fields an operation leaves unchanged"

subsection \<open>Slices\<close>

definition goindex :: "'a list \<Rightarrow> int \<Rightarrow> 'a option" where
  "goindex xs i = (if 0 \<le> i \<and> i < int (length xs) then Some (xs ! nat i) else None)"

definition gostore :: "'a list \<Rightarrow> int \<Rightarrow> 'a \<Rightarrow> 'a list option" where
  "gostore xs i v = (if 0 \<le> i \<and> i < int (length xs) then Some (xs[nat i := v]) else None)"

lemma goindex_Some_iff:
  "goindex xs i = Some x \<longleftrightarrow> 0 \<le> i \<and> i < int (length xs) \<and> x = xs ! nat i"
  by (auto simp: goindex_def)

lemma goindex_None_iff: "goindex xs i = None \<longleftrightarrow> i < 0 \<or> int (length xs) \<le> i"
  by (auto simp: goindex_def)

lemma goindex_in_range [simp]:
  "0 \<le> i \<Longrightarrow> i < int (length xs) \<Longrightarrow> goindex xs i = Some (xs ! nat i)"
  by (simp add: goindex_def)

lemma gostore_Some_iff:
  "gostore xs i v = Some ys \<longleftrightarrow> 0 \<le> i \<and> i < int (length xs) \<and> ys = xs[nat i := v]"
  by (auto simp: gostore_def)

lemma gostore_in_range [simp]:
  "0 \<le> i \<Longrightarrow> i < int (length xs) \<Longrightarrow> gostore xs i v = Some (xs[nat i := v])"
  by (simp add: gostore_def)

lemma gostore_length: "gostore xs i v = Some ys \<Longrightarrow> length ys = length xs"
  by (simp add: gostore_Some_iff)

lemma goindex_last: "xs \<noteq> [] \<Longrightarrow> goindex xs (int (length xs) - 1) = Some (last xs)"
  by (simp add: goindex_def last_conv_nth nat_diff_distrib')

subsection \<open>Loops over a slice\<close>

fun for_each :: "'i list \<Rightarrow> ('i \<Rightarrow> 's \<Rightarrow> 's option) \<Rightarrow> 's \<Rightarrow> 's option" where
  "for_each [] f s = Some s"
| "for_each (i # is) f s = Option.bind (f i s) (for_each is f)"

lemma for_each_append:
  "for_each (is @ js) f s = Option.bind (for_each is f s) (for_each js f)"
  by (induction "is" arbitrary: s) (auto split: bind_splits)

lemma for_each_invariant:
  assumes "for_each is f s = Some t" "P s"
    and "\<And>i u v. i \<in> set is \<Longrightarrow> P u \<Longrightarrow> f i u = Some v \<Longrightarrow> P v"
  shows "P t"
  using assms
proof (induction "is" arbitrary: s)
  case Nil
  then show ?case by simp
next
  case (Cons i "is")
  from Cons.prems(1) obtain u where u: "f i s = Some u" "for_each is f u = Some t"
    by (auto split: bind_splits)
  have "P u" using Cons.prems(2,3) u(1) by auto
  then show ?case using Cons.IH [OF u(2)] Cons.prems(3) by auto
qed

lemma for_each_total:
  assumes "P s" and "\<And>i u. i \<in> set is \<Longrightarrow> P u \<Longrightarrow> \<exists>v. f i u = Some v \<and> P v"
  shows "\<exists>t. for_each is f s = Some t \<and> P t"
  using assms
proof (induction "is" arbitrary: s)
  case Nil
  then show ?case by simp
next
  case (Cons i "is")
  from Cons.prems obtain u where "f i s = Some u" "P u" by fastforce
  then show ?case using Cons.IH [of u] Cons.prems(2) by auto
qed

subsection \<open>Majorities\<close>

text \<open>
  The interface every quorum argument uses: two quorums of one system meet. The
  providers are the vote count of \<open>startElection\<close> and the replica count of
  \<open>updateCommitIndex\<close>.
\<close>

locale quorum_system =
  fixes quorum :: "'a set \<Rightarrow> bool"
  assumes quorum_meet: "quorum A \<Longrightarrow> quorum B \<Longrightarrow> A \<inter> B \<noteq> {}"
begin

lemma quorum_nonempty: "quorum A \<Longrightarrow> A \<noteq> {}"
  using quorum_meet [of A A] by auto

lemma quorum_agree:
  assumes "quorum A" "quorum B"
    and "\<And>v. v \<in> A \<Longrightarrow> R v a" and "\<And>v. v \<in> B \<Longrightarrow> R v b"
    and "\<And>v x y. R v x \<Longrightarrow> R v y \<Longrightarrow> x = y"
  shows "a = b"
  using quorum_meet [OF assms(1,2)] assms(3-5) by blast

end

definition majority :: "nat \<Rightarrow> nat set \<Rightarrow> bool" where
  "majority n A \<longleftrightarrow> A \<subseteq> {..<n} \<and> n div 2 < card A"

lemma majority_meet:
  assumes "majority n A" "majority n B"
  shows "A \<inter> B \<noteq> {}"
proof
  assume disj: "A \<inter> B = {}"
  have fin: "finite A" "finite B"
    using assms by (auto simp: majority_def intro: finite_subset)
  have "card A + card B = card (A \<union> B)"
    using disj fin by (simp add: card_Un_disjoint)
  also have "\<dots> \<le> card {..<n}"
    using assms by (intro card_mono) (auto simp: majority_def)
  finally show False using assms by (auto simp: majority_def)
qed

interpretation maj: quorum_system "majority n" for n
  by unfold_locales (rule majority_meet)

subsection \<open>Decimal numerals\<close>

text \<open>\<open>strconv.Itoa\<close> and the verb \<open>%d\<close>.\<close>

fun digits :: "nat \<Rightarrow> string" where
  "digits n = (if n < 10 then [char_of (48 + n)] else digits (n div 10) @ [char_of (48 + n mod 10)])"

declare digits.simps [simp del]

definition Itoa :: "int \<Rightarrow> string" where
  "Itoa i = (if i < 0 then CHR ''-'' # digits (nat (- i)) else digits (nat i))"

definition undigits :: "string \<Rightarrow> nat" where
  "undigits cs = foldl (\<lambda>a c. 10 * a + (of_char c - 48)) 0 cs"

lemma undigits_digits: "undigits (digits n) = n"
proof (induction n rule: digits.induct)
  case (1 n)
  show ?case
  proof (cases "n < 10")
    case True
    then show ?thesis by (subst digits.simps) (simp add: undigits_def)
  next
    case False
    with 1 have "undigits (digits (n div 10)) = n div 10" by simp
    moreover have "(of_char (char_of (48 + n mod 10) :: char) :: nat) = 48 + n mod 10"
    proof -
      have "n mod 10 < 10" by simp
      then have "(48 + n mod 10) mod 256 = 48 + n mod 10" by (intro mod_less) linarith
      then show ?thesis by simp
    qed
    ultimately show ?thesis using False by (subst digits.simps) (simp add: undigits_def)
  qed
qed

lemma digits_inject [simp]: "digits m = digits n \<longleftrightarrow> m = n"
  using undigits_digits by metis

lemma digits_chars: "c \<in> set (digits n) \<Longrightarrow> 48 \<le> (of_char c :: nat) \<and> (of_char c :: nat) \<le> 57"
proof (induction n rule: digits.induct)
  case (1 n)
  have *: "(of_char (char_of (48 + k) :: char) :: nat) = 48 + k" if "k < 10" for k :: nat
  proof -
    have "(48 + k) mod 256 = 48 + k" using that by (intro mod_less) linarith
    then show ?thesis by simp
  qed
  show ?case
  proof (cases "n < 10")
    case True
    then show ?thesis using "1.prems" * [of n] by (subst (asm) digits.simps) simp
  next
    case False
    have "n mod 10 < 10" by simp
    then show ?thesis
      using False "1.prems" "1.IH" * [of "n mod 10"] by (subst (asm) digits.simps) (auto simp del: of_char_of)
  qed
qed

lemma digits_nonempty [simp]: "digits n \<noteq> []"
  by (subst digits.simps) simp

lemma Itoa_inject: "0 \<le> i \<Longrightarrow> 0 \<le> j \<Longrightarrow> Itoa i = Itoa j \<longleftrightarrow> i = j"
  by (auto simp: Itoa_def)

lemma Itoa_digit: "0 \<le> i \<Longrightarrow> c \<in> set (Itoa i) \<Longrightarrow> 48 \<le> (of_char c :: nat) \<and> (of_char c :: nat) \<le> 57"
  using digits_chars by (simp add: Itoa_def)

lemma Itoa_dash: "0 \<le> i \<Longrightarrow> CHR ''-'' \<notin> set (Itoa i)"
  using Itoa_digit [of i "CHR ''-''"] by auto

lemma append_sep_inject:
  "x \<notin> set as \<Longrightarrow> x \<notin> set cs \<Longrightarrow> as @ x # bs = cs @ x # ds \<longleftrightarrow> as = cs \<and> bs = ds"
  by (induction as arbitrary: cs) (auto simp: Cons_eq_append_conv append_eq_Cons_conv, case_tac cs, auto)

subsection \<open>Waiting with a doubling sleep\<close>

text \<open>The milliseconds that \<open>k\<close> rounds sleep when the sleep starts at \<open>to\<close> and doubles until it is a second or more.\<close>

fun backoff :: "nat \<Rightarrow> nat \<Rightarrow> nat" where
  "backoff 0 to = 0"
| "backoff (Suc k) to = to + backoff k (if to < 1000 then 2 * to else to)"

lemma backoff_wait: "backoff 30 10 = 30710"
  by code_simp

end
