(* ===== verification/Persister.thy ===== *)
theory Persister
  imports Prelude
begin

text \<open>
  The storage a server survives a crash with: \<open>tester1/persister.go\<close>, and the encoded
  byte slices it holds. Every byte slice the program persists is written by a labgob
  encoder and read back by a labgob decoder (\<open>labgob/labgob.go\<close>), so a slice is modelled
  as the sequence of values its encoder wrote: \<open>Encode\<close> appends one value, \<open>Decode\<close>
  reads the next one and fails at the end of the slice or when the value has another
  type than the variable it is read into.
\<close>

subsection \<open>Gob streams\<close>

record 'c LogEntry =
  eTerm :: int
  Command :: "'c option"

datatype 'c gob =
    GInt int
  | GLog "'c LogEntry list"
  | GAnys "'c option list"

type_synonym 'c bytes = "'c gob list"

definition Encode :: "'c gob \<Rightarrow> 'c bytes \<Rightarrow> 'c bytes" where
  "Encode v w = w @ [v]"

fun DecodeInt :: "'c bytes \<Rightarrow> int option \<times> 'c bytes" where
  "DecodeInt [] = (None, [])"
| "DecodeInt (GInt i # r) = (Some i, r)"
| "DecodeInt (_ # r) = (None, r)"

fun DecodeLog :: "'c bytes \<Rightarrow> 'c LogEntry list option \<times> 'c bytes" where
  "DecodeLog [] = (None, [])"
| "DecodeLog (GLog l # r) = (Some l, r)"
| "DecodeLog (_ # r) = (None, r)"

fun DecodeAnys :: "'c bytes \<Rightarrow> 'c option list option \<times> 'c bytes" where
  "DecodeAnys [] = (None, [])"
| "DecodeAnys (GAnys l # r) = (Some l, r)"
| "DecodeAnys (_ # r) = (None, r)"

lemma Encode_not_empty [simp]: "Encode v w \<noteq> []"
  by (simp add: Encode_def)

subsection \<open>The persister\<close>

record 'b persister =
  raftstate :: "'b list"
  snapshot :: "'b list"

definition MakePersister :: "'b persister" where
  "MakePersister = \<lparr>raftstate = [], snapshot = []\<rparr>"

definition clone :: "'b list \<Rightarrow> 'b list" where
  "clone orig = take (length orig) orig"

definition ReadRaftState :: "'b persister \<Rightarrow> 'b list" where
  "ReadRaftState ps = clone (raftstate ps)"

definition RaftStateSize :: "'b persister \<Rightarrow> nat" where
  "RaftStateSize ps = length (raftstate ps)"

definition Save :: "'b list \<Rightarrow> 'b list \<Rightarrow> 'b persister \<Rightarrow> 'b persister" where
  "Save rs sn ps = ps\<lparr>raftstate := clone rs, snapshot := clone sn\<rparr>"

definition ReadSnapshot :: "'b persister \<Rightarrow> 'b list" where
  "ReadSnapshot ps = clone (snapshot ps)"

definition SnapshotSize :: "'b persister \<Rightarrow> nat" where
  "SnapshotSize ps = length (snapshot ps)"

definition Checkpoint :: "'b persister \<Rightarrow> 'b persister" where
  "Checkpoint ps =
     MakePersister\<lparr>raftstate := clone (raftstate ps), snapshot := clone (snapshot ps)\<rparr>"

lemma clone_id [simp]: "clone xs = xs"
  by (simp add: clone_def)

text \<open>
  What a client of stable storage relies on: a saved pair is read back, a checkpoint is
  indistinguishable from the original, and a new store is empty.
\<close>

locale stable_store =
  fixes fresh :: 's
    and save :: "'b list \<Rightarrow> 'b list \<Rightarrow> 's \<Rightarrow> 's"
    and state_of :: "'s \<Rightarrow> 'b list"
    and snap_of :: "'s \<Rightarrow> 'b list"
    and checkpoint :: "'s \<Rightarrow> 's"
  assumes state_fresh: "state_of fresh = []"
    and snap_fresh: "snap_of fresh = []"
    and state_save: "state_of (save r s p) = r"
    and snap_save: "snap_of (save r s p) = s"
    and state_checkpoint: "state_of (checkpoint p) = state_of p"
    and snap_checkpoint: "snap_of (checkpoint p) = snap_of p"
begin

lemmas store_simps =
  state_fresh snap_fresh state_save snap_save state_checkpoint snap_checkpoint

text \<open>Saving the state alone, as \<open>persist\<close> does, keeps the snapshot.\<close>

lemma save_state_keeps_snap: "snap_of (save r (snap_of p) p) = snap_of p"
  by (simp add: snap_save)

text \<open>The last save decides what a checkpoint taken after it holds.\<close>

lemma checkpoint_after_saves:
  "state_of (checkpoint (save r s (save r' s' p))) = r"
  "snap_of (checkpoint (save r s (save r' s' p))) = s"
  by (simp_all add: store_simps)

end

interpretation ps: stable_store MakePersister Save ReadRaftState ReadSnapshot Checkpoint
  by unfold_locales
    (simp_all add: MakePersister_def ReadRaftState_def ReadSnapshot_def Save_def Checkpoint_def)

declare ps.store_simps [simp]

end
