(* ===== verification/RaftNode.thy ===== *)
theory RaftNode
  imports Persister
begin

text \<open>
  One Raft server: \<open>raft1/raft.go\<close>. The record holds the fields of the Go struct; each
  definition is one method, or one of the pieces a method runs in a single critical section
  of \<open>rf.mu\<close>. A method that indexes a slice returns an \<open>option\<close>, \<open>None\<close> standing for
  the run-time panic of an index out of range. \<open>time.Now()\<close> and \<open>rand\<close> are arguments.
  A vote request, a heartbeat and the RPC replies are split where the code releases the
  lock: \<open>startElection\<close> (until the RPCs are sent) and \<open>handleVoteReply\<close> (the body
  of its goroutine after the call); \<open>heartbeatBegin\<close>, \<open>heartbeatSend\<close>,
  \<open>handleAppendReply\<close> and \<open>handleInstallReply\<close> for \<open>sendHeartbeats\<close>.
  Go's 64-bit \<open>int\<close> is \<open>int\<close>: terms and indices count elections and log
  entries and never come near the bound.
\<close>

subsection \<open>State\<close>

datatype role = Follower | Candidate | Leader

record 'c raft =
  peers :: nat
  persister :: "'c gob persister"
  me :: int
  dead :: int
  currentTerm :: int
  votedFor :: int
  log :: "'c LogEntry list"
  commitIndex :: int
  lastApplied :: int
  nextIndex :: "int list"
  matchIndex :: "int list"
  state :: role
  lastContact :: int
  snapshotIndex :: int
  snapshotTerm :: int

record 'c ApplyMsg =
  CommandValid :: bool
  amCommand :: "'c option"
  CommandIndex :: int
  SnapshotValid :: bool
  amSnapshot :: "'c bytes"
  SnapshotTerm :: int
  SnapshotIndex :: int

abbreviation (input) lenlog :: "'c raft \<Rightarrow> int" where
  "lenlog rf \<equiv> int (length (log rf))"

definition lastLogIndex :: "'c raft \<Rightarrow> int" where
  "lastLogIndex rf = snapshotIndex rf + lenlog rf - 1"

definition GetState :: "'c raft \<Rightarrow> int \<times> bool" where
  "GetState rf = (currentTerm rf, state rf = Leader)"

subsection \<open>Persistence\<close>

definition encodeState :: "'c raft \<Rightarrow> 'c bytes" where
  "encodeState rf =
     Encode (GInt (snapshotTerm rf)) (Encode (GInt (snapshotIndex rf))
      (Encode (GLog (log rf)) (Encode (GInt (votedFor rf)) (Encode (GInt (currentTerm rf)) []))))"

definition persist :: "'c raft \<Rightarrow> 'c raft" where
  "persist rf =
     rf\<lparr>persister := Save (encodeState rf) (ReadSnapshot (persister rf)) (persister rf)\<rparr>"

definition persistWithSnapshot :: "'c bytes \<Rightarrow> 'c raft \<Rightarrow> 'c raft" where
  "persistWithSnapshot snap rf =
     rf\<lparr>persister := Save (encodeState rf) snap (persister rf)\<rparr>"

text \<open>
  The three hard-state fields are decoded under one short-circuit disjunction: the first
  failure skips the later decodes, and the snapshot fields are then read from wherever the
  decoder stands.
\<close>

definition decodeHardState ::
  "'c bytes \<Rightarrow> (int \<times> int \<times> 'c LogEntry list) option \<times> 'c bytes" where
  "decodeHardState d0 =
     (case DecodeInt d0 of
        (None, d1) \<Rightarrow> (None, d1)
      | (Some ct, d1) \<Rightarrow>
          (case DecodeInt d1 of
             (None, d2) \<Rightarrow> (None, d2)
           | (Some vf, d2) \<Rightarrow>
               (case DecodeLog d2 of
                  (None, d3) \<Rightarrow> (None, d3)
                | (Some lg, d3) \<Rightarrow> (Some (ct, vf, lg), d3))))"

definition readPersist :: "'c bytes \<Rightarrow> 'c raft \<Rightarrow> 'c raft" where
  "readPersist data rf =
     (if data = [] then rf
      else case decodeHardState data of (hs, d3) \<Rightarrow>
        let rf1 = (case hs of
                     None \<Rightarrow> rf
                   | Some (ct, vf, lg) \<Rightarrow> rf\<lparr>currentTerm := ct, votedFor := vf, log := lg\<rparr>)
        in case DecodeInt d3 of
             (None, _) \<Rightarrow> rf1
           | (Some si, d4) \<Rightarrow>
               (case DecodeInt d4 of
                  (None, _) \<Rightarrow> rf1
                | (Some st, _) \<Rightarrow>
                    rf1\<lparr>snapshotIndex := si, snapshotTerm := st,
                        lastApplied := si, commitIndex := si\<rparr>))"

definition PersistBytes :: "'c raft \<Rightarrow> nat" where
  "PersistBytes rf = RaftStateSize (persister rf)"

text \<open>The block every handler and reply runs when it sees a higher term.\<close>

definition stepDown :: "int \<Rightarrow> 'c raft \<Rightarrow> 'c raft" where
  "stepDown term rf = persist (rf\<lparr>currentTerm := term, votedFor := -1, state := Follower\<rparr>)"

subsection \<open>Snapshots\<close>

definition snapshotPeer :: "nat \<Rightarrow> 'c raft \<Rightarrow> 'c raft option" where
  "snapshotPeer i rf =
     do {
       rf1 \<leftarrow> (if int i \<noteq> me rf then
                do {
                  ni \<leftarrow> goindex (nextIndex rf) (int i);
                  if ni < snapshotIndex rf + 1
                  then do {
                    nx \<leftarrow> gostore (nextIndex rf) (int i) (snapshotIndex rf + 1);
                    Some (rf\<lparr>nextIndex := nx\<rparr>)
                  }
                  else Some rf
                }
              else Some rf);
       mi \<leftarrow> goindex (matchIndex rf1) (int i);
       if mi < snapshotIndex rf1
       then do {
         mx \<leftarrow> gostore (matchIndex rf1) (int i) (snapshotIndex rf1);
         Some (rf1\<lparr>matchIndex := mx\<rparr>)
       }
       else Some rf1
     }"

definition Snapshot :: "int \<Rightarrow> 'c bytes \<Rightarrow> 'c raft \<Rightarrow> 'c raft option" where
  "Snapshot index snap rf =
     (if index \<le> snapshotIndex rf then Some rf
      else
        let logIdx = index - snapshotIndex rf in
        if logIdx < 0 \<or> lenlog rf \<le> logIdx then Some rf
        else do {
          e \<leftarrow> goindex (log rf) logIdx;
          let newLog = \<lparr>eTerm = eTerm e, Command = None\<rparr> # drop (nat (logIdx + 1)) (log rf);
          let rf1 = rf\<lparr>snapshotTerm := eTerm e, snapshotIndex := index, log := newLog\<rparr>;
          let rf2 = (if commitIndex rf1 < snapshotIndex rf1
                     then rf1\<lparr>commitIndex := snapshotIndex rf1\<rparr> else rf1);
          let rf3 = (if lastApplied rf2 < snapshotIndex rf2
                     then rf2\<lparr>lastApplied := snapshotIndex rf2\<rparr> else rf2);
          rf4 \<leftarrow> (if state rf3 = Leader
                  then for_each [0..<peers rf3] snapshotPeer rf3
                  else Some rf3);
          Some (persistWithSnapshot snap rf4)
        })"

record 'c InstallSnapshotArgs =
  isTerm :: int
  isLeaderId :: int
  LastIncludedIndex :: int
  LastIncludedTerm :: int
  isData :: "'c bytes"

record InstallSnapshotReply =
  isrTerm :: int

text \<open>The message is what the handler sends on \<open>applyCh\<close> after it releases the lock.\<close>

definition InstallSnapshot ::
  "int \<Rightarrow> 'c InstallSnapshotArgs \<Rightarrow> 'c raft
    \<Rightarrow> 'c raft \<times> InstallSnapshotReply \<times> 'c ApplyMsg option" where
  "InstallSnapshot now args rf =
     (let reply = \<lparr>isrTerm = currentTerm rf\<rparr> in
      if isTerm args < currentTerm rf then (rf, reply, None)
      else
        let rf1 = (if currentTerm rf < isTerm args then stepDown (isTerm args) rf else rf);
            rf2 = rf1\<lparr>lastContact := now, state := Follower\<rparr>
        in
        if LastIncludedIndex args \<le> snapshotIndex rf2 then (rf2, reply, None)
        else
          let oldSnapshotIndex = snapshotIndex rf2;
              rf3 = rf2\<lparr>snapshotIndex := LastIncludedIndex args,
                        snapshotTerm := LastIncludedTerm args\<rparr>;
              rf4 = (if commitIndex rf3 < LastIncludedIndex args
                     then rf3\<lparr>commitIndex := LastIncludedIndex args\<rparr> else rf3);
              rf5 = (if lastApplied rf4 < LastIncludedIndex args
                     then rf4\<lparr>lastApplied := LastIncludedIndex args\<rparr> else rf4);
              logStartIdx = LastIncludedIndex args + 1 - oldSnapshotIndex;
              newLog = \<lparr>eTerm = LastIncludedTerm args, Command = None\<rparr> #
                       (if 0 \<le> logStartIdx \<and> logStartIdx < lenlog rf5
                        then drop (nat logStartIdx) (log rf5) else []);
              rf6 = persistWithSnapshot (isData args) (rf5\<lparr>log := newLog\<rparr>);
              msg = \<lparr>CommandValid = False, amCommand = None, CommandIndex = 0,
                     SnapshotValid = True, amSnapshot = isData args,
                     SnapshotTerm = LastIncludedTerm args,
                     SnapshotIndex = LastIncludedIndex args\<rparr>
          in (rf6, reply, Some msg))"

subsection \<open>Votes\<close>

record RequestVoteArgs =
  rvTerm :: int
  CandidateId :: int
  LastLogIndex :: int
  LastLogTerm :: int

record RequestVoteReply =
  rvrTerm :: int
  VoteGranted :: bool

definition upToDate :: "RequestVoteArgs \<Rightarrow> int \<Rightarrow> int \<Rightarrow> bool" where
  "upToDate args lastIndex lastTerm \<longleftrightarrow>
     lastTerm < LastLogTerm args \<or>
     (LastLogTerm args = lastTerm \<and> lastIndex \<le> LastLogIndex args)"

definition RequestVote ::
  "int \<Rightarrow> RequestVoteArgs \<Rightarrow> 'c raft \<Rightarrow> ('c raft \<times> RequestVoteReply) option" where
  "RequestVote now args rf =
     (let reply = \<lparr>rvrTerm = currentTerm rf, VoteGranted = False\<rparr> in
      if rvTerm args < currentTerm rf then Some (rf, reply)
      else
        let rf1 = (if currentTerm rf < rvTerm args then stepDown (rvTerm args) rf else rf) in
        do {
          lastE \<leftarrow> goindex (log rf1) (lenlog rf1 - 1);
          if (votedFor rf1 = -1 \<or> votedFor rf1 = CandidateId args) \<and>
             upToDate args (lastLogIndex rf1) (eTerm lastE)
          then Some (persist (rf1\<lparr>votedFor := CandidateId args, state := Follower,
                                  lastContact := now\<rparr>),
                     reply\<lparr>VoteGranted := True\<rparr>)
          else Some (rf1, reply)
        })"

subsection \<open>Log replication\<close>

record 'c AppendEntriesArgs =
  aeTerm :: int
  aeLeaderId :: int
  PrevLogIndex :: int
  PrevLogTerm :: int
  Entries :: "'c LogEntry list"
  LeaderCommit :: int

record AppendEntriesReply =
  aerTerm :: int
  Success :: bool
  XTerm :: int
  XIndex :: int
  XLen :: int

text \<open>
  The backward scan for the first entry of the conflicting term: \<open>conflictStart lg x i\<close>
  looks at positions \<open>i - 1, \<dots>, 0\<close>, and is \<open>None\<close> when the scan leaves the log without
  finding another term.
\<close>

fun conflictStart :: "'c LogEntry list \<Rightarrow> int \<Rightarrow> nat \<Rightarrow> nat option" where
  "conflictStart lg x 0 = None"
| "conflictStart lg x (Suc i) =
     (if eTerm (lg ! i) \<noteq> x then Some (Suc i) else conflictStart lg x i)"

text \<open>The loop over \<open>args.Entries\<close>; \<open>idx\<close> is the position of the first entry left.\<close>

fun appendLoop :: "'c LogEntry list \<Rightarrow> nat \<Rightarrow> 'c LogEntry list \<Rightarrow> 'c LogEntry list" where
  "appendLoop lg idx [] = lg"
| "appendLoop lg idx (entry # es) =
     appendLoop
       (if length lg \<le> idx then lg @ [entry]
        else if eTerm (lg ! idx) \<noteq> eTerm entry then take idx lg @ [entry]
        else lg)
       (Suc idx) es"

definition AppendEntries ::
  "int \<Rightarrow> 'c AppendEntriesArgs \<Rightarrow> 'c raft \<Rightarrow> ('c raft \<times> AppendEntriesReply) option" where
  "AppendEntries now args rf =
     (let reply = \<lparr>aerTerm = currentTerm rf, Success = False, XTerm = 0, XIndex = 0, XLen = 0\<rparr> in
      if aeTerm args < currentTerm rf then Some (rf, reply)
      else
        let rf1 = (if currentTerm rf < aeTerm args then stepDown (aeTerm args) rf else rf);
            rf2 = rf1\<lparr>lastContact := now, state := Follower\<rparr>;
            logIndex = PrevLogIndex args - snapshotIndex rf2;
            tooFar = reply\<lparr>XTerm := -1, XIndex := -1, XLen := snapshotIndex rf2 + lenlog rf2\<rparr>
        in
        if PrevLogIndex args < snapshotIndex rf2 then Some (rf2, tooFar)
        else if lenlog rf2 \<le> logIndex then Some (rf2, tooFar)
        else do {
          e \<leftarrow> goindex (log rf2) logIndex;
          if 0 \<le> logIndex \<and> eTerm e \<noteq> PrevLogTerm args
          then
            Some (rf2, reply\<lparr>XTerm := eTerm e,
                             XIndex := (case conflictStart (log rf2) (eTerm e) (nat logIndex) of
                                          None \<Rightarrow> PrevLogIndex args
                                        | Some k \<Rightarrow> snapshotIndex rf2 + int k),
                             XLen := snapshotIndex rf2 + lenlog rf2\<rparr>)
          else
            let rf3 = rf2\<lparr>log := appendLoop (log rf2) (nat (logIndex + 1)) (Entries args)\<rparr>;
                rf4 = (if Entries args \<noteq> [] then persist rf3 else rf3);
                lastNewIndex = PrevLogIndex args + int (length (Entries args));
                rf5 = (if commitIndex rf4 < LeaderCommit args
                       then rf4\<lparr>commitIndex := (if lastNewIndex < LeaderCommit args
                                                 then lastNewIndex else LeaderCommit args)\<rparr>
                       else rf4)
            in Some (rf5, reply\<lparr>Success := True\<rparr>)
        })"

definition Start :: "'c option \<Rightarrow> 'c raft \<Rightarrow> 'c raft \<times> int \<times> int \<times> bool" where
  "Start command rf =
     (if state rf \<noteq> Leader then (rf, -1, currentTerm rf, False)
      else
        let index = snapshotIndex rf + lenlog rf;
            entry = \<lparr>eTerm = currentTerm rf, Command = command\<rparr>;
            rf1 = persist (rf\<lparr>log := log rf @ [entry]\<rparr>)
        in (rf1, index, currentTerm rf1, True))"

definition Kill :: "'c raft \<Rightarrow> 'c raft" where
  "Kill rf = rf\<lparr>dead := 1\<rparr>"

definition killed :: "'c raft \<Rightarrow> bool" where
  "killed rf \<longleftrightarrow> dead rf = 1"

subsection \<open>Elections\<close>

text \<open>One round of the ticker's loop: \<open>rnd\<close> is the value of \<open>rand.Int63()\<close>, times in ms.\<close>

definition tickerCheck :: "int \<Rightarrow> nat \<Rightarrow> 'c raft \<Rightarrow> bool" where
  "tickerCheck now rnd rf \<longleftrightarrow>
     (let timeout = 300 + int (rnd mod 200); elapsed = now - lastContact rf
      in state rf \<noteq> Leader \<and> timeout < elapsed)"

definition startElection :: "int \<Rightarrow> 'c raft \<Rightarrow> ('c raft \<times> RequestVoteArgs) option" where
  "startElection now rf =
     (let rf1 = persist (rf\<lparr>state := Candidate, currentTerm := currentTerm rf + 1,
                            votedFor := me rf\<rparr>);
          rf2 = rf1\<lparr>lastContact := now\<rparr>
      in do {
        lastE \<leftarrow> goindex (log rf2) (lenlog rf2 - 1);
        Some (rf2, \<lparr>rvTerm = currentTerm rf2, CandidateId = me rf2,
                    LastLogIndex = lastLogIndex rf2, LastLogTerm = eTerm lastE\<rparr>)
      })"

definition becomeLeader :: "'c raft \<Rightarrow> 'c raft option" where
  "becomeLeader rf =
     (let next = replicate (peers rf) (snapshotIndex rf + lenlog rf);
          mtch = replicate (peers rf) (snapshotIndex rf)
      in do {
        mtch' \<leftarrow> gostore mtch (me rf) (lastLogIndex rf);
        Some (rf\<lparr>state := Leader, nextIndex := next, matchIndex := mtch'\<rparr>)
      })"

text \<open>
  The goroutine of one vote request after its call returned \<open>ok\<close>; \<open>votes\<close> and
  \<open>electionWon\<close> are the counters that the goroutines of one election share.
\<close>

definition handleVoteReply ::
  "RequestVoteArgs \<Rightarrow> RequestVoteReply \<Rightarrow> 'c raft \<Rightarrow> int \<times> bool
    \<Rightarrow> ('c raft \<times> int \<times> bool) option" where
  "handleVoteReply args reply rf cnt =
     (case cnt of (votes, electionWon) \<Rightarrow>
      if state rf = Candidate \<and> currentTerm rf = rvTerm args then
        if currentTerm rf < rvrTerm reply
        then Some (stepDown (rvrTerm reply) rf, votes, electionWon)
        else if VoteGranted reply then
          (if int (peers rf div 2) < votes + 1 \<and> \<not> electionWon
           then do { rf' \<leftarrow> becomeLeader rf; Some (rf', votes + 1, True) }
           else Some (rf, votes + 1, electionWon))
        else Some (rf, votes, electionWon)
      else Some (rf, votes, electionWon))"

subsection \<open>Heartbeats\<close>

text \<open>What \<open>sendHeartbeats\<close> reads in its first critical section.\<close>

record 'c hbInfo =
  hbTerm :: int
  hbCommitIndex :: int
  hbSnapshotIndex :: int
  hbSnapshot :: "'c bytes"

definition heartbeatBegin :: "'c raft \<Rightarrow> ('c hbInfo \<times> nat list) option" where
  "heartbeatBegin rf =
     (if state rf \<noteq> Leader then None
      else Some (\<lparr>hbTerm = currentTerm rf, hbCommitIndex = commitIndex rf,
                  hbSnapshotIndex = snapshotIndex rf,
                  hbSnapshot = ReadSnapshot (persister rf)\<rparr>,
                 filter (\<lambda>i. int i \<noteq> me rf) [0..<peers rf]))"

datatype 'c hbAction =
    HbReturn
  | HbInstall "'c InstallSnapshotArgs"
  | HbAppend "'c AppendEntriesArgs"

definition heartbeatSend :: "'c hbInfo \<Rightarrow> nat \<Rightarrow> 'c raft \<Rightarrow> 'c hbAction option" where
  "heartbeatSend hb srv rf =
     (if state rf \<noteq> Leader \<or> currentTerm rf \<noteq> hbTerm hb then Some HbReturn
      else do {
        nxt \<leftarrow> goindex (nextIndex rf) (int srv);
        if nxt \<le> hbSnapshotIndex hb \<and> 0 < length (hbSnapshot hb)
        then Some (HbInstall \<lparr>isTerm = hbTerm hb, isLeaderId = me rf,
                              LastIncludedIndex = hbSnapshotIndex hb,
                              LastIncludedTerm = snapshotTerm rf,
                              isData = hbSnapshot hb\<rparr>)
        else
          let prevLogIndex = nxt - 1;
              logIdx = prevLogIndex - snapshotIndex rf;
              prevLogTerm = (if 0 \<le> logIdx \<and> logIdx < lenlog rf
                             then eTerm (log rf ! nat logIdx) else 0);
              startIdx = nxt - snapshotIndex rf;
              entries = (if 0 \<le> startIdx \<and> startIdx < lenlog rf
                         then drop (nat startIdx) (log rf) else [])
          in Some (HbAppend \<lparr>aeTerm = hbTerm hb, aeLeaderId = me rf,
                             PrevLogIndex = prevLogIndex, PrevLogTerm = prevLogTerm,
                             Entries = entries, LeaderCommit = hbCommitIndex hb\<rparr>)
      })"

definition handleInstallReply ::
  "nat \<Rightarrow> 'c InstallSnapshotArgs \<Rightarrow> InstallSnapshotReply \<Rightarrow> 'c raft \<Rightarrow> 'c raft option" where
  "handleInstallReply srv args reply rf =
     (if state rf = Leader \<and> currentTerm rf = isTerm args then
        if currentTerm rf < isrTerm reply then Some (stepDown (isrTerm reply) rf)
        else do {
          mx \<leftarrow> gostore (matchIndex rf) (int srv) (LastIncludedIndex args);
          nx \<leftarrow> gostore (nextIndex rf) (int srv) (LastIncludedIndex args + 1);
          Some (rf\<lparr>matchIndex := mx, nextIndex := nx\<rparr>)
        }
      else Some rf)"

definition handleAppendReply ::
  "nat \<Rightarrow> 'c AppendEntriesArgs \<Rightarrow> AppendEntriesReply \<Rightarrow> 'c raft \<Rightarrow> 'c raft option" where
  "handleAppendReply srv args reply rf =
     (if state rf = Leader \<and> currentTerm rf = aeTerm args then
        if Success reply then
          let newMatch = PrevLogIndex args + int (length (Entries args)) in
          do {
            mi \<leftarrow> goindex (matchIndex rf) (int srv);
            if mi < newMatch
            then do {
              mx \<leftarrow> gostore (matchIndex rf) (int srv) newMatch;
              nx \<leftarrow> gostore (nextIndex rf) (int srv) (newMatch + 1);
              Some (rf\<lparr>matchIndex := mx, nextIndex := nx\<rparr>)
            }
            else Some rf
          }
        else if currentTerm rf < aerTerm reply then Some (stepDown (aerTerm reply) rf)
        else
          let n0 = (if XTerm reply = -1 then XLen reply else XIndex reply);
              n1 = (if n0 < 1 then 1 else n0)
          in do {
            nx \<leftarrow> gostore (nextIndex rf) (int srv) n1;
            Some (rf\<lparr>nextIndex := nx\<rparr>)
          }
      else Some rf)"

subsection \<open>Applying and committing\<close>

function applyLoop :: "'c raft \<Rightarrow> 'c ApplyMsg list \<Rightarrow> 'c raft \<times> 'c ApplyMsg list" where
  "applyLoop rf msgs =
     (if lastApplied rf < commitIndex rf then
        let rf1 = rf\<lparr>lastApplied := lastApplied rf + 1\<rparr>;
            logIdx = lastApplied rf1 - snapshotIndex rf1;
            msgs1 = (if 0 \<le> logIdx \<and> logIdx < lenlog rf1
                     then msgs @ [\<lparr>CommandValid = True, amCommand = Command (log rf1 ! nat logIdx),
                                   CommandIndex = lastApplied rf1, SnapshotValid = False,
                                   amSnapshot = [], SnapshotTerm = 0, SnapshotIndex = 0\<rparr>]
                     else msgs)
        in applyLoop rf1 msgs1
      else (rf, msgs))"
  by pat_completeness auto
termination
  by (relation "measure (\<lambda>(rf, msgs). nat (commitIndex rf - lastApplied rf))") auto

declare applyLoop.simps [simp del]

definition applyCommitted :: "'c raft \<Rightarrow> 'c raft \<times> 'c ApplyMsg list" where
  "applyCommitted rf = applyLoop rf []"

fun countMatch :: "'c raft \<Rightarrow> int \<Rightarrow> nat list \<Rightarrow> nat \<Rightarrow> nat option" where
  "countMatch rf n [] count = Some count"
| "countMatch rf n (i # is) count =
     (if int i \<noteq> me rf then
        do {
          mi \<leftarrow> goindex (matchIndex rf) (int i);
          countMatch rf n is (if n \<le> mi then count + 1 else count)
        }
      else countMatch rf n is count)"

function commitLoop :: "int \<Rightarrow> 'c raft \<Rightarrow> 'c raft option" where
  "commitLoop n rf =
     (if commitIndex rf < n then
        let logIdx = n - snapshotIndex rf in
        if logIdx < 0 \<or> lenlog rf \<le> logIdx then commitLoop (n - 1) rf
        else if eTerm (log rf ! nat logIdx) \<noteq> currentTerm rf then commitLoop (n - 1) rf
        else do {
          count \<leftarrow> countMatch rf n [0..<peers rf] 1;
          if peers rf div 2 < count then Some (rf\<lparr>commitIndex := n\<rparr>)
          else commitLoop (n - 1) rf
        }
      else Some rf)"
  by pat_completeness auto
termination
  by (relation "measure (\<lambda>(n, rf). nat (n - commitIndex rf))") auto

declare commitLoop.simps [simp del]

definition updateCommitIndex :: "'c raft \<Rightarrow> 'c raft option" where
  "updateCommitIndex rf =
     (if state rf \<noteq> Leader then Some rf else commitLoop (lastLogIndex rf) rf)"

subsection \<open>Construction\<close>

definition newRaft :: "nat \<Rightarrow> int \<Rightarrow> 'c gob persister \<Rightarrow> int \<Rightarrow> 'c raft" where
  "newRaft npeers i ps now =
     \<lparr>peers = npeers, persister = ps, me = i, dead = 0, currentTerm = 0, votedFor = -1,
      log = [\<lparr>eTerm = 0, Command = None\<rparr>], commitIndex = 0, lastApplied = 0,
      nextIndex = [], matchIndex = [], state = Follower, lastContact = now,
      snapshotIndex = 0, snapshotTerm = 0\<rparr>"

definition Make :: "nat \<Rightarrow> int \<Rightarrow> 'c gob persister \<Rightarrow> int \<Rightarrow> 'c raft" where
  "Make npeers i ps now = readPersist (ReadRaftState ps) (newRaft npeers i ps now)"

end
