(* ===== verification/RaftLocal.thy ===== *)
theory RaftLocal
  imports RaftNode
begin

text \<open>
  What one Raft server keeps true by itself: its well-formedness and that no handler panics
  on a well-formed server, that its hard state survives a crash at any point, that its term
  never decreases and its vote never changes within a term.
\<close>

declare RequestVote_def [handler_defs] AppendEntries_def [handler_defs]
  InstallSnapshot_def [handler_defs] Start_def [handler_defs] startElection_def [handler_defs]
  handleVoteReply_def [handler_defs] handleAppendReply_def [handler_defs]
  handleInstallReply_def [handler_defs] becomeLeader_def [handler_defs]

subsection \<open>Frames\<close>

lemma persist_frame [simp]:
  "peers (persist rf) = peers rf" "me (persist rf) = me rf" "dead (persist rf) = dead rf"
  "currentTerm (persist rf) = currentTerm rf" "votedFor (persist rf) = votedFor rf"
  "log (persist rf) = log rf" "commitIndex (persist rf) = commitIndex rf"
  "lastApplied (persist rf) = lastApplied rf" "nextIndex (persist rf) = nextIndex rf"
  "matchIndex (persist rf) = matchIndex rf" "state (persist rf) = state rf"
  "lastContact (persist rf) = lastContact rf" "snapshotIndex (persist rf) = snapshotIndex rf"
  "snapshotTerm (persist rf) = snapshotTerm rf"
  "lastLogIndex (persist rf) = lastLogIndex rf" "encodeState (persist rf) = encodeState rf"
  by (simp_all add: persist_def lastLogIndex_def encodeState_def)

lemma persistWithSnapshot_frame [simp]:
  "peers (persistWithSnapshot sn rf) = peers rf" "me (persistWithSnapshot sn rf) = me rf"
  "currentTerm (persistWithSnapshot sn rf) = currentTerm rf"
  "votedFor (persistWithSnapshot sn rf) = votedFor rf"
  "log (persistWithSnapshot sn rf) = log rf"
  "commitIndex (persistWithSnapshot sn rf) = commitIndex rf"
  "lastApplied (persistWithSnapshot sn rf) = lastApplied rf"
  "nextIndex (persistWithSnapshot sn rf) = nextIndex rf"
  "matchIndex (persistWithSnapshot sn rf) = matchIndex rf"
  "state (persistWithSnapshot sn rf) = state rf"
  "snapshotIndex (persistWithSnapshot sn rf) = snapshotIndex rf"
  "snapshotTerm (persistWithSnapshot sn rf) = snapshotTerm rf"
  "encodeState (persistWithSnapshot sn rf) = encodeState rf"
  by (simp_all add: persistWithSnapshot_def encodeState_def)

lemma raftstate_persist [simp]:
  "ReadRaftState (persister (persist rf)) = encodeState rf"
  "ReadSnapshot (persister (persist rf)) = ReadSnapshot (persister rf)"
  by (simp_all add: persist_def)

lemma raftstate_persistWithSnapshot [simp]:
  "ReadRaftState (persister (persistWithSnapshot sn rf)) = encodeState rf"
  "ReadSnapshot (persister (persistWithSnapshot sn rf)) = sn"
  by (simp_all add: persistWithSnapshot_def)

lemma stepDown_frame [simp]:
  "peers (stepDown t rf) = peers rf" "me (stepDown t rf) = me rf"
  "currentTerm (stepDown t rf) = t" "votedFor (stepDown t rf) = -1"
  "log (stepDown t rf) = log rf" "commitIndex (stepDown t rf) = commitIndex rf"
  "lastApplied (stepDown t rf) = lastApplied rf" "nextIndex (stepDown t rf) = nextIndex rf"
  "matchIndex (stepDown t rf) = matchIndex rf" "state (stepDown t rf) = Follower"
  "snapshotIndex (stepDown t rf) = snapshotIndex rf"
  "snapshotTerm (stepDown t rf) = snapshotTerm rf"
  "lastLogIndex (stepDown t rf) = lastLogIndex rf"
  "ReadRaftState (persister (stepDown t rf)) = encodeState (stepDown t rf)"
  "ReadSnapshot (persister (stepDown t rf)) = ReadSnapshot (persister rf)"
  by (simp_all add: stepDown_def lastLogIndex_def)

lemma lastLogIndex_simps [simp]:
  "lastLogIndex (rf\<lparr>state := x\<rparr>) = lastLogIndex rf"
  "lastLogIndex (rf\<lparr>votedFor := v\<rparr>) = lastLogIndex rf"
  "lastLogIndex (rf\<lparr>currentTerm := t\<rparr>) = lastLogIndex rf"
  "lastLogIndex (rf\<lparr>lastContact := c\<rparr>) = lastLogIndex rf"
  by (simp_all add: lastLogIndex_def)

subsection \<open>One server's steps\<close>

text \<open>
  Everything that changes a server: the RPC handlers, the replies to its own RPCs, the
  service's calls, the periodic work, and a restart from the persister. The last rule of a
  crash is the crash inside a handler that has stored a new term and not yet its vote.
\<close>

inductive node_step :: "'c raft \<Rightarrow> 'c raft \<Rightarrow> bool" where
  vote_request: "RequestVote now args rf = Some (rf', reply) \<Longrightarrow> node_step rf rf'"
| append_request: "AppendEntries now aargs rf = Some (rf', areply) \<Longrightarrow> node_step rf rf'"
| install_request: "InstallSnapshot now iargs rf = (rf', ireply, msg) \<Longrightarrow> node_step rf rf'"
| client_start: "Start cmd rf = (rf', idx, trm, ok) \<Longrightarrow> node_step rf rf'"
| service_snapshot: "Snapshot index snap rf = Some rf' \<Longrightarrow> node_step rf rf'"
| election: "startElection now rf = Some (rf', args) \<Longrightarrow> node_step rf rf'"
| vote_reply: "handleVoteReply args reply rf cnt = Some (rf', cnt') \<Longrightarrow> node_step rf rf'"
| append_reply: "handleAppendReply srv aargs areply rf = Some rf' \<Longrightarrow> node_step rf rf'"
| install_reply: "handleInstallReply srv iargs ireply rf = Some rf' \<Longrightarrow> node_step rf rf'"
| commit: "updateCommitIndex rf = Some rf' \<Longrightarrow> node_step rf rf'"
| apply_msgs: "applyCommitted rf = (rf', msgs) \<Longrightarrow> node_step rf rf'"
| restart: "node_step rf (Make (peers rf) (me rf) (Checkpoint (persister rf)) now)"
| crash_in_handler: "currentTerm rf < t \<Longrightarrow>
    node_step rf (Make (peers rf) (me rf) (Checkpoint (persister (stepDown t rf))) now)"

subsection \<open>Loops\<close>

lemma applyLoop_frame:
  "applyLoop rf msgs = (rf', msgs') \<Longrightarrow>
     rf' = rf\<lparr>lastApplied := max (lastApplied rf) (commitIndex rf)\<rparr>"
proof (induction rf msgs rule: applyLoop.induct)
  case (1 rf msgs)
  show ?case
  proof (cases "lastApplied rf < commitIndex rf")
    case True
    note ih = "1.IH" [OF True refl refl refl]
    from "1.prems" True have
      "rf' = (rf\<lparr>lastApplied := lastApplied rf + 1\<rparr>)
               \<lparr>lastApplied := max (lastApplied rf + 1) (commitIndex rf)\<rparr>"
      using ih by (simp add: applyLoop.simps [of rf msgs] Let_def)
    then show ?thesis using True by (simp add: max_def)
  next
    case False
    then show ?thesis using "1.prems" by (simp add: applyLoop.simps [of rf msgs] max_def)
  qed
qed

lemma commitLoop_frame:
  "commitLoop n rf = Some rf' \<Longrightarrow>
     \<exists>c. rf' = rf\<lparr>commitIndex := c\<rparr> \<and> commitIndex rf \<le> c \<and> c \<le> max n (commitIndex rf)"
proof (induction n rf rule: commitLoop.induct)
  case (1 n rf)
  show ?case
  proof (cases "commitIndex rf < n")
    case False
    then show ?thesis using "1.prems"
      by (intro exI [of _ "commitIndex rf"]) (simp add: commitLoop.simps [of n rf])
  next
    case True
    let ?i = "n - snapshotIndex rf"
    consider (skip) "?i < 0 \<or> int (length (log rf)) \<le> ?i"
      | (stale) "\<not> (?i < 0 \<or> int (length (log rf)) \<le> ?i)"
               "eTerm (log rf ! nat ?i) \<noteq> currentTerm rf"
      | (count) "\<not> (?i < 0 \<or> int (length (log rf)) \<le> ?i)"
               "\<not> eTerm (log rf ! nat ?i) \<noteq> currentTerm rf" by blast
    then show ?thesis
    proof cases
      case skip
      then have "commitLoop (n - 1) rf = Some rf'"
        using "1.prems" True by (simp add: commitLoop.simps [of n rf])
      from "1.IH"(1) [OF True refl skip this] show ?thesis by force
    next
      case stale
      then have "commitLoop (n - 1) rf = Some rf'"
        using "1.prems" True by (simp add: commitLoop.simps [of n rf])
      from "1.IH"(2) [OF True refl stale this] show ?thesis by force
    next
      case count
      then obtain k where k: "countMatch rf n [0..<peers rf] 1 = Some k"
        using "1.prems" True by (auto simp: commitLoop.simps [of n rf] split: bind_splits)
      show ?thesis
      proof (cases "peers rf div 2 < k")
        case yes: True
        then have "rf' = rf\<lparr>commitIndex := n\<rparr>"
          using "1.prems" True count k by (simp add: commitLoop.simps [of n rf])
        then show ?thesis using True by (intro exI [of _ n]) simp
      next
        case no: False
        then have "commitLoop (n - 1) rf = Some rf'"
          using "1.prems" True count k by (simp add: commitLoop.simps [of n rf])
        from "1.IH"(3) [OF True refl count k no this] show ?thesis by force
      qed
    qed
  qed
qed

lemma snapshotPeer_frame:
  "snapshotPeer i rf = Some rf' \<Longrightarrow>
     rf' = rf\<lparr>nextIndex := nextIndex rf', matchIndex := matchIndex rf'\<rparr> \<and>
     length (nextIndex rf') = length (nextIndex rf) \<and>
     length (matchIndex rf') = length (matchIndex rf)"
  by (cases rf)
     (auto simp: snapshotPeer_def goindex_Some_iff gostore_Some_iff split: if_splits bind_splits)

subsection \<open>Well-formed servers\<close>

definition raft_wf :: "'c raft \<Rightarrow> bool" where
  "raft_wf rf \<longleftrightarrow>
     log rf \<noteq> [] \<and> eTerm (hd (log rf)) = snapshotTerm rf \<and>
     0 \<le> snapshotIndex rf \<and> snapshotIndex rf \<le> commitIndex rf \<and>
     snapshotIndex rf \<le> lastApplied rf \<and> 0 \<le> currentTerm rf \<and>
     0 \<le> me rf \<and> me rf < int (peers rf) \<and>
     (state rf = Leader \<longrightarrow>
        length (nextIndex rf) = peers rf \<and> length (matchIndex rf) = peers rf)"

lemma raft_wf_persist [simp]: "raft_wf (persist rf) = raft_wf rf"
  by (simp add: raft_wf_def)

lemma raft_wf_persistWithSnapshot [simp]: "raft_wf (persistWithSnapshot sn rf) = raft_wf rf"
  by (simp add: raft_wf_def)

lemma raft_wf_stepDown: "raft_wf rf \<Longrightarrow> currentTerm rf \<le> t \<Longrightarrow> raft_wf (stepDown t rf)"
  by (simp add: raft_wf_def)

lemma appendLoop_keeps:
  "lg \<noteq> [] \<Longrightarrow> 0 < idx \<Longrightarrow> appendLoop lg idx es \<noteq> [] \<and> hd (appendLoop lg idx es) = hd lg"
proof (induction lg idx es rule: appendLoop.induct)
  case (2 lg idx entry es)
  let ?lg = "if length lg \<le> idx then lg @ [entry]
             else if eTerm (lg ! idx) \<noteq> eTerm entry then take idx lg @ [entry] else lg"
  have "?lg \<noteq> [] \<and> hd ?lg = hd lg"
    using "2.prems" by (auto simp: hd_append hd_take)
  with "2.IH" "2.prems" show ?case by simp
qed simp

lemma RequestVote_wf:
  assumes "RequestVote now args rf = Some (rf', reply)" "raft_wf rf"
  shows "raft_wf rf'"
  using assms
  by (auto simp: RequestVote_def Let_def raft_wf_def split: if_splits bind_splits)

lemma AppendEntries_wf:
  assumes "AppendEntries now args rf = Some (rf', reply)" "raft_wf rf"
  shows "raft_wf rf'"
  using assms
  by (auto simp: AppendEntries_def Let_def raft_wf_def appendLoop_keeps
      split: if_splits bind_splits)

lemma InstallSnapshot_wf:
  assumes "InstallSnapshot now args rf = (rf', reply, msg)" "raft_wf rf"
  shows "raft_wf rf'"
  using assms
  by (auto simp: InstallSnapshot_def Let_def raft_wf_def split: if_splits)

lemma Start_wf: "Start cmd rf = (rf', r) \<Longrightarrow> raft_wf rf \<Longrightarrow> raft_wf rf'"
  by (auto simp: Start_def Let_def raft_wf_def split: if_splits)

lemma startElection_wf: "startElection now rf = Some (rf', args) \<Longrightarrow> raft_wf rf \<Longrightarrow> raft_wf rf'"
  by (auto simp: startElection_def Let_def raft_wf_def split: bind_splits)

lemma becomeLeader_wf: "becomeLeader rf = Some rf' \<Longrightarrow> raft_wf rf \<Longrightarrow> raft_wf rf'"
  by (auto simp: becomeLeader_def Let_def raft_wf_def gostore_Some_iff split: bind_splits)

lemma handleVoteReply_wf:
  assumes "handleVoteReply args reply rf cnt = Some (rf', cnt')" "raft_wf rf"
  shows "raft_wf rf'"
  using assms
  by (auto simp: handleVoteReply_def raft_wf_stepDown
      dest: becomeLeader_wf split: if_splits bind_splits prod.splits)

lemma handleAppendReply_wf:
  assumes "handleAppendReply srv args reply rf = Some rf'" "raft_wf rf"
  shows "raft_wf rf'"
  using assms
  by (auto simp: handleAppendReply_def Let_def raft_wf_def gostore_Some_iff
      split: if_splits bind_splits)

lemma handleInstallReply_wf:
  assumes "handleInstallReply srv args reply rf = Some rf'" "raft_wf rf"
  shows "raft_wf rf'"
  using assms
  by (auto simp: handleInstallReply_def raft_wf_def gostore_Some_iff
      split: if_splits bind_splits)

lemma snapshotPeers_frame:
  assumes "for_each is snapshotPeer rf = Some rf'"
  shows "rf' = rf\<lparr>nextIndex := nextIndex rf', matchIndex := matchIndex rf'\<rparr> \<and>
     length (nextIndex rf') = length (nextIndex rf) \<and>
     length (matchIndex rf') = length (matchIndex rf)"
proof -
  let ?P = "\<lambda>u. u = rf\<lparr>nextIndex := nextIndex u, matchIndex := matchIndex u\<rparr> \<and>
     length (nextIndex u) = length (nextIndex rf) \<and>
     length (matchIndex u) = length (matchIndex rf)"
  show ?thesis
  proof (rule for_each_invariant [OF assms, where P = ?P])
    show "?P rf" by simp
    fix i u v
    assume u: "?P u" and "snapshotPeer i u = Some v"
    then have v: "v = u\<lparr>nextIndex := nextIndex v, matchIndex := matchIndex v\<rparr>"
      "length (nextIndex v) = length (nextIndex u)" "length (matchIndex v) = length (matchIndex u)"
      using snapshotPeer_frame by blast+
    obtain a b where a: "u = rf\<lparr>nextIndex := a, matchIndex := b\<rparr>" using u by blast
    obtain c d where c: "v = u\<lparr>nextIndex := c, matchIndex := d\<rparr>" using v by blast
    show "?P v" using u v(2,3) by (simp add: a c)
  qed
qed

text \<open>What \<open>Snapshot\<close> does to a server when it takes the snapshot, and to the fields it leaves.\<close>

lemma Snapshot_cases:
  assumes "Snapshot index snap rf = Some rf'"
  obtains (ignored) "rf' = rf" "index \<le> snapshotIndex rf \<or> lastLogIndex rf < index"
  | (taken) nx mx where "snapshotIndex rf < index" "index \<le> lastLogIndex rf"
      "rf' = persistWithSnapshot snap (rf\<lparr>snapshotTerm := eTerm (log rf ! nat (index - snapshotIndex rf)),
          snapshotIndex := index,
          log := \<lparr>eTerm = eTerm (log rf ! nat (index - snapshotIndex rf)), Command = None\<rparr>
                   # drop (nat (index - snapshotIndex rf + 1)) (log rf),
          commitIndex := max (commitIndex rf) index,
          lastApplied := max (lastApplied rf) index,
          nextIndex := nx, matchIndex := mx\<rparr>)"
      "length nx = length (nextIndex rf)" "length mx = length (matchIndex rf)"
      "state rf \<noteq> Leader \<longrightarrow> nx = nextIndex rf \<and> mx = matchIndex rf"
proof (cases "index \<le> snapshotIndex rf \<or> lastLogIndex rf < index")
  case True
  then have "rf' = rf" using assms
    by (auto simp: Snapshot_def Let_def lastLogIndex_def split: if_splits bind_splits)
  then show ?thesis using True ignored by blast
next
  case False
  let ?t = "eTerm (log rf ! nat (index - snapshotIndex rf))"
  let ?rf = "rf\<lparr>snapshotTerm := ?t, snapshotIndex := index,
          log := \<lparr>eTerm = ?t, Command = None\<rparr>
                   # drop (nat (index - snapshotIndex rf + 1)) (log rf),
          commitIndex := max (commitIndex rf) index,
          lastApplied := max (lastApplied rf) index\<rparr>"
  have idx: "goindex (log rf) (index - snapshotIndex rf)
      = Some (log rf ! nat (index - snapshotIndex rf))"
    using False by (simp add: goindex_def lastLogIndex_def)
  have mx: "(if c < i then r\<lparr>commitIndex := i\<rparr> else r) = r\<lparr>commitIndex := max c i\<rparr>"
    if "commitIndex r = c" for c i :: int and r :: "'a raft"
    using that by (cases r) (simp add: max_def)
  have la: "(if c < i then r\<lparr>lastApplied := i\<rparr> else r) = r\<lparr>lastApplied := max c i\<rparr>"
    if "lastApplied r = c" for c i :: int and r :: "'a raft"
    using that by (cases r) (simp add: max_def)
  have eq: "Snapshot index snap rf =
    Option.bind (if state rf = Leader then for_each [0..<peers rf] snapshotPeer ?rf else Some ?rf)
      (\<lambda>r. Some (persistWithSnapshot snap r))"
    using False idx by (simp add: Snapshot_def Let_def lastLogIndex_def mx la)
  show ?thesis
  proof (cases "state rf = Leader")
    case leader: True
    then obtain r where r: "for_each [0..<peers rf] snapshotPeer ?rf = Some r"
      "rf' = persistWithSnapshot snap r"
      using assms eq by (auto split: bind_splits)
    note fr = snapshotPeers_frame [OF r(1)]
    have "rf' = persistWithSnapshot snap
        (?rf\<lparr>nextIndex := nextIndex r, matchIndex := matchIndex r\<rparr>)"
      by (rule trans [OF r(2)]) (rule arg_cong [OF conjunct1 [OF fr]])
    then show ?thesis using taken [where nx = "nextIndex r" and mx = "matchIndex r"] False leader fr by simp
  next
    case other: False
    then have "rf' = persistWithSnapshot snap (?rf\<lparr>nextIndex := nextIndex rf, matchIndex := matchIndex rf\<rparr>)"
      using assms eq by simp
    then show ?thesis using taken [where nx = "nextIndex rf" and mx = "matchIndex rf"] False by auto
  qed
qed

lemma Snapshot_wf:
  assumes "Snapshot index snap rf = Some rf'" "raft_wf rf"
  shows "raft_wf rf'"
  using assms by (cases rule: Snapshot_cases) (auto simp: raft_wf_def)

lemma updateCommitIndex_wf: "updateCommitIndex rf = Some rf' \<Longrightarrow> raft_wf rf \<Longrightarrow> raft_wf rf'"
  by (auto simp: updateCommitIndex_def raft_wf_def dest!: commitLoop_frame split: if_splits)

lemma applyCommitted_wf: "applyCommitted rf = (rf', msgs) \<Longrightarrow> raft_wf rf \<Longrightarrow> raft_wf rf'"
  by (auto simp: applyCommitted_def raft_wf_def dest!: applyLoop_frame)

subsection \<open>Hard state and crashes\<close>

definition hardState ::
  "'c raft \<Rightarrow> int \<times> int \<times> 'c LogEntry list \<times> int \<times> int" where
  "hardState rf = (currentTerm rf, votedFor rf, log rf, snapshotIndex rf, snapshotTerm rf)"

definition durable :: "'c raft \<Rightarrow> bool" where
  "durable rf \<longleftrightarrow>
     ReadRaftState (persister rf) = encodeState rf \<or>
     (ReadRaftState (persister rf) = [] \<and>
      hardState rf = (0, -1, [\<lparr>eTerm = 0, Command = None\<rparr>], 0, 0))"

lemma encodeState_eq:
  "encodeState rf = [GInt (currentTerm rf), GInt (votedFor rf), GLog (log rf),
     GInt (snapshotIndex rf), GInt (snapshotTerm rf)]"
  by (simp add: encodeState_def Encode_def)

lemma encodeState_hardState: "hardState rf = hardState rf' \<Longrightarrow> encodeState rf = encodeState rf'"
  by (simp add: hardState_def encodeState_eq)

lemma durableI: "ReadRaftState (persister rf) = encodeState rf \<Longrightarrow> durable rf"
  by (simp add: durable_def)

lemma durable_cong:
  "hardState rf' = hardState rf \<Longrightarrow> persister rf' = persister rf \<Longrightarrow> durable rf \<Longrightarrow> durable rf'"
  using encodeState_hardState [of rf rf'] by (auto simp: durable_def)

lemma Make_hardState:
  "durable rf \<Longrightarrow> hardState (Make n i (Checkpoint (persister rf)) now) = hardState rf"
  by (auto simp: durable_def Make_def readPersist_def newRaft_def encodeState_eq
      decodeHardState_def hardState_def)

lemma Make_frame [simp]:
  "peers (Make n i p now) = n" "me (Make n i p now) = i" "state (Make n i p now) = Follower"
  "persister (Make n i p now) = p" "dead (Make n i p now) = 0"
  by (auto simp: Make_def readPersist_def newRaft_def Let_def split: prod.splits option.splits)

lemma Make_soft:
  "durable rf \<Longrightarrow> commitIndex (Make n i (Checkpoint (persister rf)) now) = snapshotIndex rf"
  "durable rf \<Longrightarrow> lastApplied (Make n i (Checkpoint (persister rf)) now) = snapshotIndex rf"
  by (auto simp: durable_def Make_def readPersist_def newRaft_def encodeState_eq
      decodeHardState_def hardState_def)

lemma Make_durable: "durable rf \<Longrightarrow> durable (Make n i (Checkpoint (persister rf)) now)"
  using Make_hardState [of rf n i now] encodeState_hardState [OF Make_hardState, of rf n i now]
  by (auto simp: durable_def)

lemma Make_wf:
  assumes "durable rf" "raft_wf rf"
  shows "raft_wf (Make (peers rf) (me rf) (Checkpoint (persister rf)) now)"
  using Make_hardState [OF assms(1), of "peers rf" "me rf" now] assms Make_soft [OF assms(1)]
  by (auto simp: raft_wf_def hardState_def)

lemma stepDown_durable [simp]: "durable (stepDown t rf)"
  by (rule durableI) simp

lemma persist_durable [simp]: "durable (persist rf)"
  by (rule durableI) simp

lemma persistWithSnapshot_durable [simp]: "durable (persistWithSnapshot sn rf)"
  by (rule durableI) simp

lemma durable_soft_update [simp]:
  "durable (rf\<lparr>state := r\<rparr>) = durable rf"
  "durable (rf\<lparr>lastContact := t\<rparr>) = durable rf"
  "durable (rf\<lparr>commitIndex := k\<rparr>) = durable rf"
  "durable (rf\<lparr>lastApplied := k\<rparr>) = durable rf"
  "durable (rf\<lparr>nextIndex := nx\<rparr>) = durable rf"
  "durable (rf\<lparr>matchIndex := mx\<rparr>) = durable rf"
  by (simp_all add: durable_def encodeState_eq hardState_def)

lemma durable_same_log [simp]: "log rf = lg \<Longrightarrow> durable (rf\<lparr>log := lg\<rparr>) = durable rf"
  by (simp add: durable_def encodeState_eq hardState_def)

lemma RequestVote_durable:
  "RequestVote now args rf = Some (rf', reply) \<Longrightarrow> durable rf \<Longrightarrow> durable rf'"
  by (auto simp: RequestVote_def Let_def split: if_splits bind_splits)

lemma AppendEntries_durable:
  "AppendEntries now args rf = Some (rf', reply) \<Longrightarrow> durable rf \<Longrightarrow> durable rf'"
  by (auto simp: AppendEntries_def Let_def split: if_splits bind_splits)

lemma InstallSnapshot_durable:
  "InstallSnapshot now args rf = (rf', reply, msg) \<Longrightarrow> durable rf \<Longrightarrow> durable rf'"
  by (auto simp: InstallSnapshot_def Let_def split: if_splits)

lemma Start_durable: "Start cmd rf = (rf', r) \<Longrightarrow> durable rf \<Longrightarrow> durable rf'"
  by (auto simp: Start_def Let_def split: if_splits)

lemma Snapshot_durable: "Snapshot index snap rf = Some rf' \<Longrightarrow> durable rf \<Longrightarrow> durable rf'"
  by (erule Snapshot_cases) auto

lemma startElection_durable: "startElection now rf = Some (rf', args) \<Longrightarrow> durable rf'"
  by (auto simp: startElection_def Let_def split: bind_splits)

lemma handleVoteReply_durable:
  "handleVoteReply args reply rf cnt = Some (rf', cnt') \<Longrightarrow> durable rf \<Longrightarrow> durable rf'"
  by (auto simp: handleVoteReply_def becomeLeader_def Let_def
      split: if_splits bind_splits prod.splits)

lemma handleAppendReply_durable:
  "handleAppendReply srv args reply rf = Some rf' \<Longrightarrow> durable rf \<Longrightarrow> durable rf'"
  by (auto simp: handleAppendReply_def Let_def split: if_splits bind_splits)

lemma handleInstallReply_durable:
  "handleInstallReply srv args reply rf = Some rf' \<Longrightarrow> durable rf \<Longrightarrow> durable rf'"
  by (auto simp: handleInstallReply_def split: if_splits bind_splits)

lemma updateCommitIndex_durable: "updateCommitIndex rf = Some rf' \<Longrightarrow> durable rf \<Longrightarrow> durable rf'"
  by (auto simp: updateCommitIndex_def dest!: commitLoop_frame split: if_splits)

lemma applyCommitted_durable: "applyCommitted rf = (rf', msgs) \<Longrightarrow> durable rf \<Longrightarrow> durable rf'"
  by (auto simp: applyCommitted_def dest!: applyLoop_frame)

text \<open>
  A well-formed durable server stays one under every step, a crash at any point of a handler
  included.
\<close>

definition node_ok :: "'c raft \<Rightarrow> bool" where
  "node_ok rf \<longleftrightarrow> raft_wf rf \<and> durable rf"

lemma node_ok_init: "0 \<le> i \<Longrightarrow> i < int n \<Longrightarrow> node_ok (Make n i MakePersister now)"
  by (simp add: node_ok_def raft_wf_def durable_def hardState_def Make_def readPersist_def
      newRaft_def)

lemma node_ok_restart:
  "node_ok rf \<Longrightarrow> node_ok (Make (peers rf) (me rf) (Checkpoint (persister rf)) now)"
  by (simp add: node_ok_def Make_wf Make_durable)

lemma node_step_ok: "node_step rf rf' \<Longrightarrow> node_ok rf \<Longrightarrow> node_ok rf'"
proof (induction rule: node_step.induct)
  case (crash_in_handler rf t now)
  then have "node_ok (stepDown t rf)" by (simp add: node_ok_def raft_wf_stepDown)
  from node_ok_restart [OF this] show ?case by simp
qed (auto simp: node_ok_restart, auto simp: node_ok_def
    dest: RequestVote_wf RequestVote_durable AppendEntries_wf AppendEntries_durable
      InstallSnapshot_wf InstallSnapshot_durable Start_wf Start_durable Snapshot_wf
      Snapshot_durable startElection_wf startElection_durable handleVoteReply_wf
      handleVoteReply_durable handleAppendReply_wf handleAppendReply_durable
      handleInstallReply_wf handleInstallReply_durable updateCommitIndex_wf
      updateCommitIndex_durable applyCommitted_wf applyCommitted_durable)

subsection \<open>Terms, votes and leadership\<close>

text \<open>
  How a step may change the fields an election depends on: the term never decreases, a vote
  cast in the current term is kept, and a server that leads after the step led before it,
  in the same term.
\<close>

definition evolves :: "'c raft \<Rightarrow> 'c raft \<Rightarrow> bool" where
  "evolves rf rf' \<longleftrightarrow>
     me rf' = me rf \<and> peers rf' = peers rf \<and> currentTerm rf \<le> currentTerm rf' \<and>
     (currentTerm rf' = currentTerm rf \<longrightarrow> votedFor rf \<noteq> -1 \<longrightarrow> votedFor rf' = votedFor rf)"

definition leads_on :: "'c raft \<Rightarrow> 'c raft \<Rightarrow> bool" where
  "leads_on rf rf' \<longleftrightarrow>
     (state rf' = Leader \<longrightarrow> state rf = Leader \<and> currentTerm rf' = currentTerm rf)"

lemma RequestVote_evolves:
  assumes "RequestVote now args rf = Some (rf', reply)"
  shows "evolves rf rf' \<and> leads_on rf rf'"
  using assms
  by (auto simp: RequestVote_def Let_def evolves_def leads_on_def split: if_splits bind_splits)

lemma AppendEntries_evolves:
  assumes "AppendEntries now args rf = Some (rf', reply)"
  shows "evolves rf rf' \<and> leads_on rf rf'"
  using assms
  by (auto simp: AppendEntries_def Let_def evolves_def leads_on_def split: if_splits bind_splits)

lemma InstallSnapshot_evolves:
  assumes "InstallSnapshot now args rf = (rf', reply, msg)"
  shows "evolves rf rf' \<and> leads_on rf rf'"
  using assms
  by (auto simp: InstallSnapshot_def Let_def evolves_def leads_on_def split: if_splits)

lemma Start_evolves:
  "Start cmd rf = (rf', r) \<Longrightarrow> evolves rf rf' \<and> leads_on rf rf'"
  by (auto simp: Start_def Let_def evolves_def leads_on_def split: if_splits)

lemma Snapshot_evolves:
  "Snapshot index snap rf = Some rf' \<Longrightarrow> evolves rf rf' \<and> leads_on rf rf'"
  by (erule Snapshot_cases) (auto simp: evolves_def leads_on_def)

lemma startElection_evolves:
  assumes "startElection now rf = Some (rf', args)"
  shows "evolves rf rf' \<and> leads_on rf rf'"
    and "currentTerm rf' = currentTerm rf + 1" "votedFor rf' = me rf" "state rf' = Candidate"
    and "rvTerm args = currentTerm rf + 1" "CandidateId args = me rf"
  using assms
  by (auto simp: startElection_def Let_def evolves_def leads_on_def split: bind_splits)

lemma handleVoteReply_evolves:
  assumes "handleVoteReply args reply rf (v, w) = Some (rf', v', w')"
  shows "evolves rf rf'"
    and "leads_on rf rf' \<or> (state rf = Candidate \<and> state rf' = Leader \<and> VoteGranted reply \<and>
      rvrTerm reply \<le> currentTerm rf \<and>
      currentTerm rf = rvTerm args \<and> currentTerm rf' = currentTerm rf \<and> v' = v + 1 \<and>
      int (peers rf div 2) < v')"
    and "v' = v \<or> (v' = v + 1 \<and> VoteGranted reply)"
  using assms
  by (auto simp: handleVoteReply_def becomeLeader_def Let_def evolves_def leads_on_def
      split: if_splits bind_splits)

lemma handleAppendReply_evolves:
  "handleAppendReply srv args reply rf = Some rf' \<Longrightarrow> evolves rf rf' \<and> leads_on rf rf'"
  by (auto simp: handleAppendReply_def Let_def evolves_def leads_on_def
      split: if_splits bind_splits)

lemma handleInstallReply_evolves:
  "handleInstallReply srv args reply rf = Some rf' \<Longrightarrow> evolves rf rf' \<and> leads_on rf rf'"
  by (auto simp: handleInstallReply_def evolves_def leads_on_def split: if_splits bind_splits)

lemma updateCommitIndex_evolves:
  "updateCommitIndex rf = Some rf' \<Longrightarrow> evolves rf rf' \<and> leads_on rf rf'"
  by (auto simp: updateCommitIndex_def evolves_def leads_on_def dest!: commitLoop_frame
      split: if_splits)

lemma applyCommitted_evolves:
  "applyCommitted rf = (rf', msgs) \<Longrightarrow> evolves rf rf' \<and> leads_on rf rf'"
  by (auto simp: applyCommitted_def evolves_def leads_on_def dest!: applyLoop_frame)

lemma restart_evolves:
  assumes "durable rf"
  shows "evolves rf (Make (peers rf) (me rf) (Checkpoint (persister rf)) now) \<and>
     leads_on rf (Make (peers rf) (me rf) (Checkpoint (persister rf)) now)"
  using Make_hardState [OF assms, of "peers rf" "me rf" now]
  by (auto simp: evolves_def leads_on_def hardState_def)

lemma crash_in_handler_evolves:
  assumes "currentTerm rf < t"
  shows "evolves rf (Make (peers rf) (me rf) (Checkpoint (persister (stepDown t rf))) now) \<and>
     leads_on rf (Make (peers rf) (me rf) (Checkpoint (persister (stepDown t rf))) now)"
  using Make_hardState [OF stepDown_durable, of "peers rf" "me rf" t rf now] assms
  by (auto simp: evolves_def leads_on_def hardState_def)

lemmas handler_evolves =
  RequestVote_evolves AppendEntries_evolves InstallSnapshot_evolves Start_evolves
  Snapshot_evolves startElection_evolves(1) handleAppendReply_evolves handleInstallReply_evolves
  updateCommitIndex_evolves applyCommitted_evolves

lemma node_step_evolves: "node_step rf rf' \<Longrightarrow> node_ok rf \<Longrightarrow> evolves rf rf'"
proof (induction rule: node_step.induct)
  case (vote_reply args reply rf cnt rf' cnt')
  then show ?case
    by (cases cnt; cases cnt') (simp add: handleVoteReply_evolves(1))
qed (auto simp: node_ok_def restart_evolves crash_in_handler_evolves dest: handler_evolves)

subsection \<open>No handler panics\<close>

lemma RequestVote_total: "raft_wf rf \<Longrightarrow> \<exists>r. RequestVote now args rf = Some r"
  by (auto simp: RequestVote_def Let_def raft_wf_def goindex_last)

lemma AppendEntries_total: "\<exists>r. AppendEntries now args rf = Some r"
  by (auto simp: AppendEntries_def Let_def goindex_def)

lemma startElection_total: "raft_wf rf \<Longrightarrow> \<exists>r. startElection now rf = Some r"
  by (auto simp: startElection_def Let_def raft_wf_def goindex_last)

lemma becomeLeader_total: "raft_wf rf \<Longrightarrow> \<exists>r. becomeLeader rf = Some r"
  by (auto simp: becomeLeader_def Let_def raft_wf_def)

lemma handleVoteReply_total: "raft_wf rf \<Longrightarrow> \<exists>r. handleVoteReply args reply rf cnt = Some r"
  by (cases cnt) (auto simp: handleVoteReply_def dest!: becomeLeader_total)

lemma heartbeatSend_total:
  "raft_wf rf \<Longrightarrow> srv < peers rf \<Longrightarrow> \<exists>a. heartbeatSend hb srv rf = Some a"
  by (auto simp: heartbeatSend_def Let_def raft_wf_def)

lemma handleAppendReply_total:
  "raft_wf rf \<Longrightarrow> srv < peers rf \<Longrightarrow> \<exists>r. handleAppendReply srv args reply rf = Some r"
  by (auto simp: handleAppendReply_def Let_def raft_wf_def)

lemma handleInstallReply_total:
  "raft_wf rf \<Longrightarrow> srv < peers rf \<Longrightarrow> \<exists>r. handleInstallReply srv args reply rf = Some r"
  by (auto simp: handleInstallReply_def raft_wf_def)

lemma snapshotPeer_total:
  assumes "i < length (nextIndex rf)" "i < length (matchIndex rf)"
  shows "\<exists>r. snapshotPeer i rf = Some r"
  using assms by (auto simp: snapshotPeer_def)

lemma snapshotPeers_total:
  assumes "n \<le> length (nextIndex u)" "n \<le> length (matchIndex u)"
  shows "\<exists>v. for_each [0..<n] snapshotPeer u = Some v"
proof -
  have "\<exists>v. for_each [0..<n] snapshotPeer u = Some v \<and>
      (n \<le> length (nextIndex v) \<and> n \<le> length (matchIndex v))"
  proof (rule for_each_total)
    fix i and w :: "'a raft"
    assume "i \<in> set [0..<n]" "n \<le> length (nextIndex w) \<and> n \<le> length (matchIndex w)"
    then show "\<exists>v. snapshotPeer i w = Some v \<and>
        (n \<le> length (nextIndex v) \<and> n \<le> length (matchIndex v))"
      using snapshotPeer_total [of i w] snapshotPeer_frame [of i w] by fastforce
  qed (use assms in simp)
  then show ?thesis by blast
qed

lemma Snapshot_total:
  assumes "raft_wf rf"
  shows "\<exists>r. Snapshot index snap rf = Some r"
  using assms
  by (auto simp: Snapshot_def Let_def raft_wf_def goindex_def bind_eq_Some_conv
      intro!: snapshotPeers_total)

lemma countMatch_total:
  "length (matchIndex rf) = peers rf \<Longrightarrow> set is \<subseteq> {..<peers rf} \<Longrightarrow>
     \<exists>k. countMatch rf n is c = Some k"
  by (induction "is" arbitrary: c) auto

lemma commitLoop_total:
  "length (matchIndex rf) = peers rf \<Longrightarrow> \<exists>r. commitLoop n rf = Some r"
proof (induction n rf rule: commitLoop.induct)
  case (1 n rf)
  obtain k where k: "countMatch rf n [0..<peers rf] 1 = Some k"
    using countMatch_total [OF "1.prems", of "[0..<peers rf]"] by (auto simp: subset_iff)
  show ?case
    using "1.IH"(1) [OF _ refl _ "1.prems"] "1.IH"(2) [OF _ refl _ _ "1.prems"]
      "1.IH"(3) [OF _ refl _ _ k _ "1.prems"]
    by (auto simp: commitLoop.simps [of n rf] Let_def k [simplified])
qed

lemma updateCommitIndex_total: "raft_wf rf \<Longrightarrow> \<exists>r. updateCommitIndex rf = Some r"
  by (simp add: updateCommitIndex_def raft_wf_def commitLoop_total)

end
