(* ===== verification/RaftHandlers.thy ===== *)
theory RaftHandlers
  imports RaftLocal
begin

text \<open>
  What each handler of \<open>raft1/raft.go\<close> does to the log, on its own server: the log as a
  function of the global index, the effect of \<open>AppendEntries\<close> against the rule of the
  Raft paper, the hint it returns on a conflict, \<open>Snapshot\<close>, \<open>applyCommitted\<close> and
  \<open>updateCommitIndex\<close>, and \<open>InstallSnapshot\<close>.
\<close>

subsection \<open>The log as a function of the index\<close>

definition entryAt :: "'c raft \<Rightarrow> int \<Rightarrow> 'c LogEntry option" where
  "entryAt rf i = goindex (log rf) (i - snapshotIndex rf)"

definition entryTerm :: "'c raft \<Rightarrow> int \<Rightarrow> int option" where
  "entryTerm rf i = map_option eTerm (entryAt rf i)"

text \<open>
  The rule of the Raft paper for the entries of a matching request, on the part of the log
  after the matching point: keep what agrees in term, at the first conflict drop the rest
  of the log and take the rest of the request.
\<close>

fun mergeLog :: "'c LogEntry list \<Rightarrow> 'c LogEntry list \<Rightarrow> 'c LogEntry list" where
  "mergeLog old [] = old"
| "mergeLog [] es = es"
| "mergeLog (x # old) (e # es) = (if eTerm x = eTerm e then x # mergeLog old es else e # es)"

lemma appendLoop_end: "length lg = idx \<Longrightarrow> appendLoop lg idx es = lg @ es"
proof (induction es arbitrary: lg idx)
  case (Cons e es)
  then show ?case using Cons.IH [of "lg @ [e]" "Suc idx"] by simp
qed simp

lemma appendLoop_mergeLog:
  "idx \<le> length lg \<Longrightarrow> appendLoop lg idx es = take idx lg @ mergeLog (drop idx lg) es"
proof (induction es arbitrary: lg idx)
  case Nil
  then show ?case by simp
next
  case (Cons e es)
  show ?case
  proof (cases "idx = length lg")
    case True
    then show ?thesis by (simp add: appendLoop_end)
  next
    case False
    with Cons.prems have lt: "idx < length lg" by simp
    then have d: "drop idx lg = lg ! idx # drop (Suc idx) lg" by (simp add: Cons_nth_drop_Suc)
    show ?thesis
    proof (cases "eTerm (lg ! idx) = eTerm e")
      case True
      then show ?thesis using lt Cons.IH [of "Suc idx" lg] d by (simp add: take_Suc_conv_app_nth)
    next
      case False
      then show ?thesis using lt d appendLoop_end [of "take idx lg @ [e]" "Suc idx" es] by simp
    qed
  qed
qed



subsection \<open>Conflict hints\<close>

lemma conflictStart_bounds:
  "conflictStart lg x i = Some k \<Longrightarrow> 0 < k \<and> k \<le> i \<and> eTerm (lg ! (k - 1)) \<noteq> x"
  by (induction lg x i rule: conflictStart.induct) (auto split: if_splits)

lemma conflictStart_run:
  "conflictStart lg x i = Some k \<Longrightarrow> k \<le> m \<Longrightarrow> m < i \<Longrightarrow> eTerm (lg ! m) = x"
  by (induction lg x i rule: conflictStart.induct) (auto split: if_splits simp: less_Suc_eq)



subsection \<open>Snapshots and the log\<close>

text \<open>
  C16. Taking a snapshot loses nothing a later request can ask for: the last index is
  unchanged, every index from the snapshot on still has its term, every index after it still
  has its entry, and a snapshot that is taken is stored together with the compacted state,
  so that a restart finds both.
\<close>

theorem Snapshot_keeps_log:
  assumes "Snapshot index snap rf = Some rf'"
  shows "lastLogIndex rf' = lastLogIndex rf \<and>
    (\<forall>i. snapshotIndex rf' \<le> i \<longrightarrow> entryTerm rf' i = entryTerm rf i) \<and>
    (\<forall>i. snapshotIndex rf' < i \<longrightarrow> entryAt rf' i = entryAt rf i) \<and>
    snapshotIndex rf' =
      (if snapshotIndex rf < index \<and> index \<le> lastLogIndex rf then index else snapshotIndex rf) \<and>
    (snapshotIndex rf' \<noteq> snapshotIndex rf \<longrightarrow>
       ReadSnapshot (persister rf') = snap \<and> ReadRaftState (persister rf') = encodeState rf')"
  using assms
proof (cases rule: Snapshot_cases)
  case ignored
  then show ?thesis by auto
next
  case (taken nx mx)
  let ?k = "index - snapshotIndex rf"
  have nth: "(\<lparr>eTerm = t, Command = None\<rparr> # drop (nat (?k + 1)) (log rf)) ! nat (i - index) =
      log rf ! nat (i - snapshotIndex rf)"
    if "index < i" "i - snapshotIndex rf < int (length (log rf))" for i t
  proof -
    have "nat (i - index) = Suc (nat (i - index - 1))"
      "nat (?k + 1) + nat (i - index - 1) = nat (i - snapshotIndex rf)"
      "nat (?k + 1) \<le> length (log rf)"
      using that taken(1) by linarith+
    then show ?thesis by (simp add: nth_drop)
  qed
  have len: "lastLogIndex rf' = lastLogIndex rf"
    using taken(1,2) by (simp add: taken(3) lastLogIndex_def)
  have at: "entryAt rf' i = entryAt rf i" if "index < i" for i
    using taken(1,2) that nth [of i] by (auto simp: taken(3) entryAt_def goindex_def lastLogIndex_def)
  have trm: "entryTerm rf' i = entryTerm rf i" if "index \<le> i" for i
  proof (cases "i = index")
    case True
    then show ?thesis using taken(1,2)
      by (simp add: taken(3) entryTerm_def entryAt_def goindex_def lastLogIndex_def)
  qed (use at that in \<open>simp add: entryTerm_def\<close>)
  show ?thesis using len at trm taken(1,2) by (simp add: taken(3))
qed

theorem Snapshot_keeps_log_witness:
  "\<exists>rf'. Snapshot 1 [GInt 9] ((newRaft 3 0 MakePersister 0)\<lparr>log := [\<lparr>eTerm = 0, Command = None\<rparr>,
         \<lparr>eTerm = 1, Command = Some (5::nat)\<rparr>, \<lparr>eTerm = 1, Command = Some 6\<rparr>]\<rparr>) = Some rf' \<and>
     snapshotIndex rf' = 1 \<and> entryAt rf' 2 = Some \<lparr>eTerm = 1, Command = Some 6\<rparr>"
proof -
  let ?rf = "(newRaft 3 0 MakePersister 0)\<lparr>log := [\<lparr>eTerm = 0, Command = None\<rparr>,
         \<lparr>eTerm = 1, Command = Some (5::nat)\<rparr>, \<lparr>eTerm = 1, Command = Some 6\<rparr>]\<rparr>"
  have "raft_wf ?rf" by (simp add: raft_wf_def newRaft_def)
  then obtain rf' where eq: "Snapshot 1 [GInt 9] ?rf = Some rf'" using Snapshot_total by blast
  note k = Snapshot_keeps_log [OF eq]
  have "snapshotIndex rf' = 1" using k by (simp add: newRaft_def lastLogIndex_def)
  moreover have "entryAt rf' 2 = entryAt ?rf 2" using k calculation by simp
  moreover have "entryAt ?rf 2 = Some \<lparr>eTerm = 1, Command = Some 6\<rparr>"
    by (simp add: entryAt_def newRaft_def goindex_def)
  ultimately show ?thesis using eq by simp
qed

subsection \<open>Applying\<close>

definition commandMsg :: "'c raft \<Rightarrow> int \<Rightarrow> 'c ApplyMsg" where
  "commandMsg rf i =
     \<lparr>CommandValid = True, amCommand = Command (log rf ! nat (i - snapshotIndex rf)),
      CommandIndex = i, SnapshotValid = False, amSnapshot = [], SnapshotTerm = 0,
      SnapshotIndex = 0\<rparr>"

lemma applyLoop_msgs:
  "snapshotIndex rf \<le> lastApplied rf \<Longrightarrow> commitIndex rf \<le> lastLogIndex rf \<Longrightarrow>
     snd (applyLoop rf msgs) = msgs @ map (commandMsg rf) [lastApplied rf + 1..commitIndex rf]"
proof (induction rf msgs rule: applyLoop.induct)
  case (1 rf msgs)
  show ?case
  proof (cases "lastApplied rf < commitIndex rf")
    case True
    let ?rf = "rf\<lparr>lastApplied := lastApplied rf + 1\<rparr>"
    have log: "0 \<le> lastApplied rf + 1 - snapshotIndex rf"
      "lastApplied rf + 1 - snapshotIndex rf < int (length (log rf))"
      using "1.prems" True by (auto simp: lastLogIndex_def)
    have cm: "commandMsg ?rf = commandMsg rf" by (rule ext) (simp add: commandMsg_def)
    have "snd (applyLoop ?rf (msgs @ [commandMsg rf (lastApplied rf + 1)])) =
        (msgs @ [commandMsg rf (lastApplied rf + 1)]) @
          map (commandMsg ?rf) [lastApplied ?rf + 1..commitIndex ?rf]"
      using "1.IH" [OF True refl refl refl] "1.prems" True log
      by (simp add: lastLogIndex_def commandMsg_def)
    then show ?thesis using True log
      by (simp add: applyLoop.simps [of rf msgs] commandMsg_def [symmetric] cm upto_rec1 [of "lastApplied rf + 1"])
  next
    case False
    then show ?thesis by (simp add: applyLoop.simps [of rf msgs])
  qed
qed

text \<open>
  C17. \<open>applyCommitted\<close> sends exactly the commands of the indices after \<open>lastApplied\<close> up to
  the commit index, each once, in index order and without gaps, each with the command the log
  has at that index; afterwards everything committed has been applied.
\<close>

theorem applyCommitted_in_order:
  assumes "raft_wf rf" "commitIndex rf \<le> lastLogIndex rf" "applyCommitted rf = (rf', msgs)"
  shows "map CommandIndex msgs = [lastApplied rf + 1..commitIndex rf] \<and>
    (\<forall>m \<in> set msgs. CommandValid m \<and> \<not> SnapshotValid m \<and>
       entryAt rf (CommandIndex m) =
         Some \<lparr>eTerm = the (entryTerm rf (CommandIndex m)), Command = amCommand m\<rparr>) \<and>
    rf' = rf\<lparr>lastApplied := max (lastApplied rf) (commitIndex rf)\<rparr>"
proof -
  have msgs: "msgs = map (commandMsg rf) [lastApplied rf + 1..commitIndex rf]"
    using assms applyLoop_msgs [of rf "[]"] by (simp add: applyCommitted_def raft_wf_def)
  have "map CommandIndex msgs = [lastApplied rf + 1..commitIndex rf]"
    by (simp add: msgs commandMsg_def comp_def)
  moreover have "entryAt rf i = Some \<lparr>eTerm = the (entryTerm rf i), Command = amCommand (commandMsg rf i)\<rparr>"
    if "i \<in> set [lastApplied rf + 1..commitIndex rf]" for i
    using that assms(1,2)
    by (simp add: entryAt_def entryTerm_def commandMsg_def goindex_def raft_wf_def lastLogIndex_def)
  ultimately show ?thesis
    using applyLoop_frame [of rf "[]" rf' msgs] assms(3)
    by (auto simp: msgs commandMsg_def applyCommitted_def)
qed

theorem applyCommitted_in_order_witness:
  "map CommandIndex (snd (applyCommitted ((newRaft 3 0 MakePersister 0)\<lparr>
      log := [\<lparr>eTerm = 0, Command = None\<rparr>, \<lparr>eTerm = 1, Command = Some (5::nat)\<rparr>,
              \<lparr>eTerm = 1, Command = Some 6\<rparr>], commitIndex := 2\<rparr>))) = [1, 2]"
proof -
  let ?rf = "(newRaft 3 0 MakePersister 0)\<lparr>
      log := [\<lparr>eTerm = 0, Command = None\<rparr>, \<lparr>eTerm = 1, Command = Some (5::nat)\<rparr>,
              \<lparr>eTerm = 1, Command = Some 6\<rparr>], commitIndex := 2\<rparr>"
  obtain rf' msgs where eq: "applyCommitted ?rf = (rf', msgs)" by fastforce
  have "raft_wf ?rf" "commitIndex ?rf \<le> lastLogIndex ?rf"
    by (simp_all add: raft_wf_def newRaft_def lastLogIndex_def)
  from applyCommitted_in_order [OF this eq] eq show ?thesis
    by (simp add: newRaft_def upto_rec1)
qed

subsection \<open>Committing\<close>

text \<open>The servers that hold index \<open>n\<close> as far as the leader knows, itself included.\<close>

definition replicas :: "'c raft \<Rightarrow> int \<Rightarrow> nat set" where
  "replicas rf n = {i. i < peers rf \<and> (int i = me rf \<or> n \<le> matchIndex rf ! i)}"

definition committable :: "'c raft \<Rightarrow> int \<Rightarrow> bool" where
  "committable rf n \<longleftrightarrow>
     entryTerm rf n = Some (currentTerm rf) \<and> majority (peers rf) (replicas rf n)"

lemma countMatch_card:
  assumes "length (matchIndex rf) = peers rf" "set is \<subseteq> {..<peers rf}" "distinct is"
  shows "countMatch rf n is c =
    Some (c + card {i \<in> set is. int i \<noteq> me rf \<and> n \<le> matchIndex rf ! i})"
  using assms(2,3)
proof (induction "is" arbitrary: c)
  case (Cons i "is")
  let ?A = "{k \<in> set is. int k \<noteq> me rf \<and> n \<le> matchIndex rf ! k}"
  have i: "i < peers rf" "i \<notin> ?A" using Cons.prems by auto
  have IH: "countMatch rf n is c = Some (c + card ?A)" for c using Cons by simp
  show ?case
  proof (cases "int i \<noteq> me rf \<and> n \<le> matchIndex rf ! i")
    case True
    then have "{k \<in> set (i # is). int k \<noteq> me rf \<and> n \<le> matchIndex rf ! k} = insert i ?A" by auto
    then show ?thesis using True IH i assms(1) by (simp del: set_simps)
  next
    case False
    then have "{k \<in> set (i # is). int k \<noteq> me rf \<and> n \<le> matchIndex rf ! k} = ?A" by auto
    then show ?thesis using False IH i assms(1) by (auto simp del: set_simps)
  qed
qed simp

lemma countMatch_replicas:
  assumes "raft_wf rf" "length (matchIndex rf) = peers rf"
  shows "countMatch rf n [0..<peers rf] 1 = Some (card (replicas rf n))"
proof -
  let ?A = "{i \<in> set [0..<peers rf]. int i \<noteq> me rf \<and> n \<le> matchIndex rf ! i}"
  have "replicas rf n = insert (nat (me rf)) ?A"
    using assms(1) by (auto simp: replicas_def raft_wf_def)
  moreover have "nat (me rf) \<notin> ?A" using assms(1) by (auto simp: raft_wf_def)
  ultimately have "card (replicas rf n) = Suc (card ?A)" by simp
  then show ?thesis
    using countMatch_card [OF assms(2), of "[0..<peers rf]" n 1] by (simp add: subset_iff)
qed

lemma commitLoop_spec:
  assumes "raft_wf rf" "length (matchIndex rf) = peers rf"
  shows "\<exists>c. commitLoop n rf = Some (rf\<lparr>commitIndex := c\<rparr>) \<and>
      (c = commitIndex rf \<or> commitIndex rf < c \<and> c \<le> n \<and> committable rf c) \<and>
      (\<forall>m. commitIndex rf < m \<and> m \<le> n \<and> committable rf m \<longrightarrow> m \<le> c)"
  using assms
proof (induction n rf rule: commitLoop.induct)
  case (1 n rf)
  let ?i = "n - snapshotIndex rf"
  have count: "countMatch rf n [0..<peers rf] 1 = Some (card (replicas rf n))"
    using countMatch_replicas "1.prems" by blast
  have iff: "committable rf n \<longleftrightarrow> \<not> (?i < 0 \<or> int (length (log rf)) \<le> ?i) \<and>
      \<not> eTerm (log rf ! nat ?i) \<noteq> currentTerm rf \<and> peers rf div 2 < card (replicas rf n)"
    by (auto simp: committable_def entryTerm_def entryAt_def goindex_def majority_def replicas_def)
  show ?case
  proof (cases "commitIndex rf < n \<and> \<not> committable rf n")
    case False
    show ?thesis
    proof (cases "commitIndex rf < n")
      case True
      then have "commitLoop n rf = Some (rf\<lparr>commitIndex := n\<rparr>)"
        using False iff count by (simp add: commitLoop.simps [of n rf])
      then show ?thesis using True False by (intro exI [of _ n]) simp
    next
      case 2: False
      then show ?thesis
        by (intro exI [of _ "commitIndex rf"]) (simp add: commitLoop.simps [of n rf])
    qed
  next
    case True
    have step: "commitLoop n rf = commitLoop (n - 1) rf"
      using True iff count by (auto simp: commitLoop.simps [of n rf] Let_def)
    have le: "m \<le> n - 1" if "m \<le> n" "committable rf m" for m
      using that True by (cases "m = n") auto
    have IH: "\<exists>c. commitLoop (n - 1) rf = Some (rf\<lparr>commitIndex := c\<rparr>) \<and>
      (c = commitIndex rf \<or> commitIndex rf < c \<and> c \<le> n - 1 \<and> committable rf c) \<and>
      (\<forall>m. commitIndex rf < m \<and> m \<le> n - 1 \<and> committable rf m \<longrightarrow> m \<le> c)"
      using "1.IH" "1.prems" True iff count by blast
    then obtain c where c: "commitLoop (n - 1) rf = Some (rf\<lparr>commitIndex := c\<rparr>)"
      "c = commitIndex rf \<or> commitIndex rf < c \<and> c \<le> n - 1 \<and> committable rf c"
      "\<forall>m. commitIndex rf < m \<and> m \<le> n - 1 \<and> committable rf m \<longrightarrow> m \<le> c" by blast
    from c(3) le have "\<forall>m. commitIndex rf < m \<and> m \<le> n \<and> committable rf m \<longrightarrow> m \<le> c" by blast
    moreover from c(2) have "c = commitIndex rf \<or> commitIndex rf < c \<and> c \<le> n \<and> committable rf c"
      by auto
    ultimately show ?thesis using step c(1) by auto
  qed
qed

text \<open>
  C18. On a leader, \<open>updateCommitIndex\<close> never panics and moves the commit index to the
  greatest index above it that carries an entry of the current term and is stored, as far as
  the leader knows, on a majority of the servers; where there is none it changes nothing.
\<close>

theorem updateCommitIndex_correct:
  assumes "raft_wf rf" "state rf = Leader"
  shows "\<exists>c. updateCommitIndex rf = Some (rf\<lparr>commitIndex := c\<rparr>) \<and>
      (c = commitIndex rf \<or> commitIndex rf < c \<and> committable rf c) \<and>
      (\<forall>m. commitIndex rf < m \<and> committable rf m \<longrightarrow> m \<le> c)"
proof -
  have last: "m \<le> lastLogIndex rf" if "committable rf m" for m
    using that
    by (auto simp: committable_def entryTerm_def entryAt_def goindex_def lastLogIndex_def
             split: if_splits)
  have "length (matchIndex rf) = peers rf" using assms by (simp add: raft_wf_def)
  then show ?thesis
    using commitLoop_spec [OF assms(1), of "lastLogIndex rf"] assms(2) last
    by (auto simp: updateCommitIndex_def)
qed

theorem updateCommitIndex_correct_witness:
  "\<exists>c. updateCommitIndex ((newRaft 3 0 MakePersister 0)\<lparr>
      log := [\<lparr>eTerm = 0, Command = None\<rparr>, \<lparr>eTerm = 1, Command = Some (5::nat)\<rparr>,
              \<lparr>eTerm = 1, Command = Some 6\<rparr>], currentTerm := 1, state := Leader,
      nextIndex := [1, 2, 1], matchIndex := [0, 1, 0]\<rparr>) = Some c \<and> 1 \<le> commitIndex c"
proof -
  let ?rf = "(newRaft 3 0 MakePersister 0)\<lparr>
      log := [\<lparr>eTerm = 0, Command = None\<rparr>, \<lparr>eTerm = 1, Command = Some (5::nat)\<rparr>,
              \<lparr>eTerm = 1, Command = Some 6\<rparr>], currentTerm := 1, state := Leader,
      nextIndex := [1, 2, 1], matchIndex := [0, 1, 0]\<rparr>"
  have wf: "raft_wf ?rf" "state ?rf = Leader"
    by (simp_all add: raft_wf_def newRaft_def)
  have "{0, 1} \<subseteq> replicas ?rf 1"
    by (auto simp: replicas_def newRaft_def)
  then have "card {0::nat, 1} \<le> card (replicas ?rf 1)"
    by (intro card_mono) (simp_all add: replicas_def newRaft_def)
  then have "committable ?rf 1"
    by (simp add: committable_def entryTerm_def entryAt_def goindex_def newRaft_def majority_def
                  replicas_def subset_iff)
  with updateCommitIndex_correct [OF wf] show ?thesis by (auto simp: newRaft_def)
qed

subsection \<open>Installing a snapshot\<close>

text \<open>
  A snapshot is installed exactly when the request is not of an old term and reaches
  beyond the server's own snapshot point. Then the server's snapshot point is the one of the
  request, the persister holds the data and the new state, no entry after the point is lost or
  changed, neither the commit index nor the applied index goes back or stays below the point,
  and one message hands the data to the service; otherwise log, snapshot point and
  indices stay as they are and nothing is delivered.
\<close>

lemma InstallSnapshot_correct:
  assumes "raft_wf rf" "InstallSnapshot now args rf = (rf', reply, msg)"
  shows "isrTerm reply = currentTerm rf \<and>
    (if currentTerm rf \<le> isTerm args \<and> snapshotIndex rf < LastIncludedIndex args
     then currentTerm rf' = isTerm args \<and> state rf' = Follower \<and>
       snapshotIndex rf' = LastIncludedIndex args \<and> snapshotTerm rf' = LastIncludedTerm args \<and>
       (\<forall>k > LastIncludedIndex args. entryAt rf' k = entryAt rf k) \<and>
       commitIndex rf' = max (commitIndex rf) (LastIncludedIndex args) \<and>
       lastApplied rf' = max (lastApplied rf) (LastIncludedIndex args) \<and>
       ReadSnapshot (persister rf') = isData args \<and> durable rf' \<and>
       (\<exists>m. msg = Some m \<and> SnapshotValid m \<and> \<not> CommandValid m \<and> amSnapshot m = isData args \<and>
          SnapshotIndex m = LastIncludedIndex args \<and> SnapshotTerm m = LastIncludedTerm args)
     else msg = None \<and> log rf' = log rf \<and> snapshotIndex rf' = snapshotIndex rf \<and>
       commitIndex rf' = commitIndex rf \<and> lastApplied rf' = lastApplied rf \<and>
       ReadSnapshot (persister rf') = ReadSnapshot (persister rf))"
proof (cases "currentTerm rf \<le> isTerm args \<and> snapshotIndex rf < LastIncludedIndex args")
  case True
  have dur: "durable rf'"
    using True assms(2) by (auto simp: InstallSnapshot_def Let_def split: if_splits)
  have len: "snapshotIndex rf \<le> LastIncludedIndex args" using True by simp
  let ?d = "nat (LastIncludedIndex args + 1 - snapshotIndex rf)"
  have log: "log rf' = \<lparr>eTerm = LastIncludedTerm args, Command = None\<rparr> # drop ?d (log rf)"
    and si: "snapshotIndex rf' = LastIncludedIndex args"
    using True assms(2) by (auto simp: InstallSnapshot_def Let_def split: if_splits)
  have "entryAt rf' k = entryAt rf k" if k: "LastIncludedIndex args < k" for k
  proof -
    have nat: "nat (k - LastIncludedIndex args) = Suc (nat (k - LastIncludedIndex args - 1))"
      "?d + nat (k - LastIncludedIndex args - 1) = nat (k - snapshotIndex rf)"
      using k len by linarith+
    show ?thesis
      unfolding entryAt_def log si goindex_def using k len nat by auto
  qed
  moreover have "commitIndex rf' = max (commitIndex rf) (LastIncludedIndex args)"
    "lastApplied rf' = max (lastApplied rf) (LastIncludedIndex args)"
    using True assms(2) by (auto simp: InstallSnapshot_def Let_def split: if_splits)
  ultimately show ?thesis
    using True assms(2) dur si by (auto simp: InstallSnapshot_def Let_def split: if_splits)
next
  case False
  then show ?thesis using assms(2) by (auto simp: InstallSnapshot_def Let_def split: if_splits)
qed

theorem InstallSnapshot_correct_witness:
  "\<exists>rf' reply msg. InstallSnapshot 9 \<lparr>isTerm = 3, isLeaderId = 1, LastIncludedIndex = 4,
        LastIncludedTerm = 2, isData = [GInt 7]\<rparr> (newRaft 3 0 MakePersister 0 :: nat raft) =
      (rf', reply, msg) \<and> commitIndex rf' = 4 \<and> lastApplied rf' = 4 \<and>
      ReadSnapshot (persister rf') = [GInt 7]"
proof -
  let ?a = "\<lparr>isTerm = 3, isLeaderId = 1, LastIncludedIndex = 4,
        LastIncludedTerm = 2, isData = [GInt 7]\<rparr> :: nat InstallSnapshotArgs"
  let ?rf = "newRaft 3 0 MakePersister 0 :: nat raft"
  obtain rf' reply msg where eq: "InstallSnapshot 9 ?a ?rf = (rf', reply, msg)"
    by (cases "InstallSnapshot 9 ?a ?rf") auto
  have "raft_wf ?rf" by (simp add: raft_wf_def newRaft_def)
  from InstallSnapshot_correct [OF this eq] eq show ?thesis
    by (auto simp: newRaft_def)
qed

text \<open>
  The suffix is kept whatever the term of the entry the snapshot replaces: here the server's
  entry at the snapshot point is of term 1 and the snapshot's of term 2, and the
  entry of term 1 after it survives. The Raft paper discards the log in this case.
\<close>

lemma InstallSnapshot_keeps_conflicting_suffix:
  "let rf = (newRaft 3 0 MakePersister 0 :: nat raft)\<lparr>log := [\<lparr>eTerm = 0, Command = None\<rparr>,
         \<lparr>eTerm = 1, Command = Some 5\<rparr>, \<lparr>eTerm = 1, Command = Some 6\<rparr>], currentTerm := 2\<rparr>;
       args = \<lparr>isTerm = 2, isLeaderId = 1, LastIncludedIndex = 1, LastIncludedTerm = 2, isData = []\<rparr>
   in entryTerm rf 1 = Some 1 \<and>
      log (fst (InstallSnapshot 0 args rf)) =
        [\<lparr>eTerm = 2, Command = None\<rparr>, \<lparr>eTerm = 1, Command = Some 6\<rparr>]"
  by (simp add: newRaft_def InstallSnapshot_def entryTerm_def entryAt_def goindex_def)

text \<open>
  The commit index follows the entries of the request, not the larger of the two: a delayed
  heartbeat whose entries end before the commit index lowers it.
\<close>

lemma AppendEntries_lowers_commitIndex:
  "let rf = (newRaft 3 0 MakePersister 0 :: nat raft)\<lparr>log := [\<lparr>eTerm = 0, Command = None\<rparr>,
         \<lparr>eTerm = 1, Command = Some 5\<rparr>, \<lparr>eTerm = 1, Command = Some 6\<rparr>], currentTerm := 1,
         commitIndex := 2\<rparr>;
       args = \<lparr>aeTerm = 1, aeLeaderId = 1, PrevLogIndex = 0, PrevLogTerm = 0, Entries = [],
               LeaderCommit = 3\<rparr>
   in map_option (commitIndex \<circ> fst) (AppendEntries 0 args rf) = Some 0"
  by (simp add: newRaft_def AppendEntries_def goindex_def)

end
