(* ===== verification/RaftCluster.thy ===== *)
theory RaftCluster
  imports RaftLocal
begin

text \<open>
  A group of Raft servers and the RPCs between them, as a step relation. A call is one
  goroutine of \<open>startElection\<close> or \<open>sendHeartbeats\<close>: it is in the pool from the moment it
  is started until it ends, first as a request on its way, then as a reply on its way. The
  network of \<open>labrpc\<close> runs the handler of a call at most once and returns at most one
  reply, but may delay, reorder and lose either: any call of the pool may be taken next,
  and any call may be lost. Servers crash at any moment and restart from their persister;
  a goroutine of an earlier life of its server never sees its reply (\<open>epoch\<close>).
  The step of \<open>ticker\<close> is split where it releases the lock: \<open>pending\<close> records that it
  decided to start an election.

  The last three fields are history variables, read by no step: the votes that were
  ever granted, the voters each election counted, and the servers that ever became leader.
\<close>

subsection \<open>The step relation\<close>

datatype 'c call =
    VoteReq (caller: nat) (life: nat) (callee: nat) RequestVoteArgs
  | VoteRep (caller: nat) (life: nat) (callee: nat) RequestVoteArgs RequestVoteReply
  | HbTask (caller: nat) (life: nat) (callee: nat) "'c hbInfo"
  | AppReq (caller: nat) (life: nat) (callee: nat) "'c AppendEntriesArgs"
  | AppRep (caller: nat) (life: nat) (callee: nat) "'c AppendEntriesArgs" AppendEntriesReply
  | InsReq (caller: nat) (life: nat) (callee: nat) "'c InstallSnapshotArgs"
  | InsRep (caller: nat) (life: nat) (callee: nat) "'c InstallSnapshotArgs" InstallSnapshotReply

record 'c cluster =
  nodes :: "nat \<Rightarrow> 'c raft"
  epoch :: "nat \<Rightarrow> nat"
  pending :: "nat \<Rightarrow> bool"
  calls :: "'c call list"
  counters :: "nat \<times> int \<Rightarrow> int \<times> bool"
  granted :: "(int \<times> nat \<times> nat) set"
  tally :: "nat \<times> int \<Rightarrow> nat set"
  leaders :: "(int \<times> nat) set"

definition init_cluster :: "nat \<Rightarrow> (nat \<Rightarrow> int) \<Rightarrow> 'c cluster" where
  "init_cluster n t0 =
     \<lparr>nodes = (\<lambda>i. Make n (int i) MakePersister (t0 i)), epoch = (\<lambda>_. 0), pending = (\<lambda>_. False),
      calls = [], counters = (\<lambda>_. (0, False)), granted = {}, tally = (\<lambda>_. {}), leaders = {}\<rparr>"

definition voteCalls :: "nat \<Rightarrow> nat \<Rightarrow> nat \<Rightarrow> RequestVoteArgs \<Rightarrow> 'c call list" where
  "voteCalls n i e args = map (\<lambda>j. VoteReq i e j args) (filter (\<lambda>j. j \<noteq> i) [0..<n])"

fun hbCalls :: "nat \<Rightarrow> nat \<Rightarrow> nat \<Rightarrow> 'c hbAction \<Rightarrow> 'c call list" where
  "hbCalls i e j HbReturn = []"
| "hbCalls i e j (HbInstall a) = [InsReq i e j a]"
| "hbCalls i e j (HbAppend a) = [AppReq i e j a]"

text \<open>The flag \<open>snaps\<close> says whether the service takes snapshots (\<open>newRfsrv\<close>'s \<open>snapshot\<close>).\<close>

inductive cstep :: "nat \<Rightarrow> bool \<Rightarrow> 'c cluster \<Rightarrow> 'c cluster \<Rightarrow> bool" for n snaps where
  tick: "i < n \<Longrightarrow> \<not> killed (nodes s i) \<Longrightarrow> tickerCheck now rnd (nodes s i) \<Longrightarrow>
    cstep n snaps s (s\<lparr>pending := (pending s)(i := True)\<rparr>)"
| elect: "i < n \<Longrightarrow> pending s i \<Longrightarrow> startElection now (nodes s i) = Some (rf', args) \<Longrightarrow>
    cstep n snaps s (s\<lparr>nodes := (nodes s)(i := rf'), pending := (pending s)(i := False),
      calls := voteCalls n i (epoch s i) args @ calls s,
      counters := (counters s)((i, rvTerm args) := (1, False)),
      granted := insert (rvTerm args, i, i) (granted s),
      tally := (tally s)((i, rvTerm args) := {i})\<rparr>)"
| recv_vote: "VoteReq i e j args \<in> set (calls s) \<Longrightarrow>
    RequestVote now args (nodes s j) = Some (rf', reply) \<Longrightarrow>
    cstep n snaps s (s\<lparr>nodes := (nodes s)(j := rf'),
      calls := VoteRep i e j args reply # remove1 (VoteReq i e j args) (calls s),
      granted := (if VoteGranted reply then insert (rvTerm args, j, i) (granted s)
                  else granted s)\<rparr>)"
| vote_reply: "VoteRep i e j args reply \<in> set (calls s) \<Longrightarrow> e = epoch s i \<Longrightarrow>
    handleVoteReply args reply (nodes s i) (counters s (i, rvTerm args)) = Some (rf', v', w') \<Longrightarrow>
    cstep n snaps s (s\<lparr>nodes := (nodes s)(i := rf'),
      calls := remove1 (VoteRep i e j args reply) (calls s),
      counters := (counters s)((i, rvTerm args) := (v', w')),
      tally := (if v' = fst (counters s (i, rvTerm args)) then tally s
                else (tally s)((i, rvTerm args) := insert j (tally s (i, rvTerm args)))),
      leaders := (if state rf' = Leader then insert (currentTerm rf', i) (leaders s)
                  else leaders s)\<rparr>)"
| lose: "c \<in> set (calls s) \<Longrightarrow> cstep n snaps s (s\<lparr>calls := remove1 c (calls s)\<rparr>)"
| hb_begin: "i < n \<Longrightarrow> \<not> killed (nodes s i) \<Longrightarrow> heartbeatBegin (nodes s i) = Some (hb, srvs) \<Longrightarrow>
    cstep n snaps s (s\<lparr>calls := map (\<lambda>j. HbTask i (epoch s i) j hb) srvs @ calls s\<rparr>)"
| hb_send: "HbTask i e j hb \<in> set (calls s) \<Longrightarrow> e = epoch s i \<Longrightarrow>
    heartbeatSend hb j (nodes s i) = Some act \<Longrightarrow>
    cstep n snaps s (s\<lparr>calls := hbCalls i e j act @ remove1 (HbTask i e j hb) (calls s)\<rparr>)"
| recv_append: "AppReq i e j aargs \<in> set (calls s) \<Longrightarrow>
    AppendEntries now aargs (nodes s j) = Some (rf', areply) \<Longrightarrow>
    cstep n snaps s (s\<lparr>nodes := (nodes s)(j := rf'),
      calls := AppRep i e j aargs areply # remove1 (AppReq i e j aargs) (calls s)\<rparr>)"
| append_reply: "AppRep i e j aargs areply \<in> set (calls s) \<Longrightarrow> e = epoch s i \<Longrightarrow>
    handleAppendReply j aargs areply (nodes s i) = Some rf' \<Longrightarrow>
    cstep n snaps s (s\<lparr>nodes := (nodes s)(i := rf'),
      calls := remove1 (AppRep i e j aargs areply) (calls s)\<rparr>)"
| recv_install: "InsReq i e j iargs \<in> set (calls s) \<Longrightarrow>
    InstallSnapshot now iargs (nodes s j) = (rf', ireply, msg) \<Longrightarrow>
    cstep n snaps s (s\<lparr>nodes := (nodes s)(j := rf'),
      calls := InsRep i e j iargs ireply # remove1 (InsReq i e j iargs) (calls s)\<rparr>)"
| install_reply: "InsRep i e j iargs ireply \<in> set (calls s) \<Longrightarrow> e = epoch s i \<Longrightarrow>
    handleInstallReply j iargs ireply (nodes s i) = Some rf' \<Longrightarrow>
    cstep n snaps s (s\<lparr>nodes := (nodes s)(i := rf'),
      calls := remove1 (InsRep i e j iargs ireply) (calls s)\<rparr>)"
| start: "i < n \<Longrightarrow> Start cmd (nodes s i) = (rf', idx, trm, ok) \<Longrightarrow>
    cstep n snaps s (s\<lparr>nodes := (nodes s)(i := rf')\<rparr>)"
| snapshot: "snaps \<Longrightarrow> i < n \<Longrightarrow> Snapshot index snap (nodes s i) = Some rf' \<Longrightarrow>
    cstep n snaps s (s\<lparr>nodes := (nodes s)(i := rf')\<rparr>)"
| commit: "i < n \<Longrightarrow> updateCommitIndex (nodes s i) = Some rf' \<Longrightarrow>
    cstep n snaps s (s\<lparr>nodes := (nodes s)(i := rf')\<rparr>)"
| apply_msgs: "i < n \<Longrightarrow> applyCommitted (nodes s i) = (rf', msgs) \<Longrightarrow>
    cstep n snaps s (s\<lparr>nodes := (nodes s)(i := rf')\<rparr>)"
| restart: "i < n \<Longrightarrow>
    cstep n snaps s (s\<lparr>nodes := (nodes s)(i := Make n (int i) (Checkpoint (persister (nodes s i))) now),
      epoch := (epoch s)(i := Suc (epoch s i)), pending := (pending s)(i := False)\<rparr>)"
| crash_in_handler: "i < n \<Longrightarrow> currentTerm (nodes s i) < t \<Longrightarrow>
    cstep n snaps s (s\<lparr>nodes := (nodes s)
        (i := Make n (int i) (Checkpoint (persister (stepDown t (nodes s i)))) now),
      epoch := (epoch s)(i := Suc (epoch s i)), pending := (pending s)(i := False)\<rparr>)"

inductive reachable :: "nat \<Rightarrow> bool \<Rightarrow> 'c cluster \<Rightarrow> bool" for n snaps where
  reach_init: "reachable n snaps (init_cluster n t0)"
| reach_step: "reachable n snaps s \<Longrightarrow> cstep n snaps s s' \<Longrightarrow> reachable n snaps s'"

subsection \<open>Vote calls in the pool\<close>

text \<open>Which goroutine of which election a vote call is: candidate, term, voter.\<close>

fun voteKey :: "'c call \<Rightarrow> (nat \<times> int \<times> nat) option" where
  "voteKey (VoteReq i e j args) = Some (i, rvTerm args, j)"
| "voteKey (VoteRep i e j args reply) = Some (i, rvTerm args, j)"
| "voteKey _ = None"

fun voteKeys :: "'c call list \<Rightarrow> (nat \<times> int \<times> nat) list" where
  "voteKeys [] = []"
| "voteKeys (c # cs) = (case voteKey c of None \<Rightarrow> voteKeys cs | Some k \<Rightarrow> k # voteKeys cs)"

lemma voteKeys_append [simp]: "voteKeys (cs @ ds) = voteKeys cs @ voteKeys ds"
  by (induction cs) (auto split: option.splits)

lemma set_voteKeys: "k \<in> set (voteKeys cs) \<longleftrightarrow> (\<exists>c \<in> set cs. voteKey c = Some k)"
  by (induction cs) (auto split: option.splits)

lemma voteKeys_voteCalls:
  "voteKeys (voteCalls n i e args) = map (\<lambda>j. (i, rvTerm args, j)) (filter (\<lambda>j. j \<noteq> i) [0..<n])"
proof -
  have "voteKeys (map (\<lambda>j. VoteReq i e j args) js) = map (\<lambda>j. (i, rvTerm args, j)) js" for js
    by (induction js) auto
  then show ?thesis by (simp add: voteCalls_def)
qed

lemma voteKeys_remove1:
  "c \<in> set cs \<Longrightarrow> distinct (voteKeys cs) \<Longrightarrow>
     distinct (voteKeys (remove1 c cs)) \<and> set (voteKeys (remove1 c cs)) \<subseteq> set (voteKeys cs) \<and>
     (\<forall>k. voteKey c = Some k \<longrightarrow> k \<notin> set (voteKeys (remove1 c cs)))"
proof (induction cs)
  case (Cons d cs)
  show ?case
  proof (cases "c = d")
    case True
    then show ?thesis using Cons.prems by (auto split: option.splits)
  next
    case False
    with Cons.prems have "c \<in> set cs" "distinct (voteKeys cs)" by (auto split: option.splits)
    from Cons.IH [OF this] False Cons.prems \<open>c \<in> set cs\<close> show ?thesis
      by (auto simp: set_voteKeys split: option.splits)
  qed
qed simp

lemma voteKeys_none: "\<forall>c \<in> set cs. voteKey c = None \<Longrightarrow> voteKeys cs = []"
  by (induction cs) auto

lemma hbCalls_keys [simp]: "voteKeys (hbCalls i e j act) = []"
  by (cases act) auto

subsection \<open>The election invariant\<close>

definition nodes_inv :: "nat \<Rightarrow> 'c cluster \<Rightarrow> bool" where
  "nodes_inv n s \<longleftrightarrow>
     (\<forall>i<n. node_ok (nodes s i) \<and> me (nodes s i) = int i \<and> peers (nodes s i) = n)"

definition pool_inv :: "nat \<Rightarrow> 'c cluster \<Rightarrow> bool" where
  "pool_inv n s \<longleftrightarrow> (\<forall>c \<in> set (calls s). caller c < n \<and> callee c < n \<and> callee c \<noteq> caller c)"

text \<open>A granted vote is the voter's vote for as long as it stays in that term.\<close>

definition granted_inv :: "nat \<Rightarrow> 'c cluster \<Rightarrow> bool" where
  "granted_inv n s \<longleftrightarrow>
     (\<forall>T v c. (T, v, c) \<in> granted s \<longrightarrow> v < n \<and>
        (T < currentTerm (nodes s v) \<or>
         T = currentTerm (nodes s v) \<and> votedFor (nodes s v) = int c)) \<and>
     (\<forall>T v c c'. (T, v, c) \<in> granted s \<longrightarrow> (T, v, c') \<in> granted s \<longrightarrow> c = c')"

text \<open>An outstanding vote call: its voter is not counted yet, its reply tells the truth.\<close>

definition vote_ok :: "'c cluster \<Rightarrow> nat \<Rightarrow> nat \<Rightarrow> RequestVoteArgs \<Rightarrow> bool" where
  "vote_ok s i j args \<longleftrightarrow>
     CandidateId args = int i \<and> rvTerm args \<le> currentTerm (nodes s i) \<and>
     j \<notin> tally s (i, rvTerm args)"

fun call_ok :: "'c cluster \<Rightarrow> 'c call \<Rightarrow> bool" where
  "call_ok s (VoteReq i e j args) = vote_ok s i j args"
| "call_ok s (VoteRep i e j args reply) =
     (vote_ok s i j args \<and> (VoteGranted reply \<longrightarrow> (rvTerm args, j, i) \<in> granted s))"
| "call_ok s _ = True"

definition votes_inv :: "nat \<Rightarrow> 'c cluster \<Rightarrow> bool" where
  "votes_inv n s \<longleftrightarrow> distinct (voteKeys (calls s)) \<and> (\<forall>c \<in> set (calls s). call_ok s c)"

lemma call_ok_mono:
  assumes "call_ok s c" "granted s \<subseteq> granted t"
    and "\<And>i j args. voteKey c = Some (i, rvTerm args, j) \<Longrightarrow> vote_ok s i j args \<Longrightarrow> vote_ok t i j args"
  shows "call_ok t c"
  using assms by (cases c) auto

lemma call_ok_term: "call_ok s c \<Longrightarrow> voteKey c = Some (i, T, j) \<Longrightarrow> T \<le> currentTerm (nodes s i)"
  by (cases c) (auto simp: vote_ok_def)

text \<open>The counter of an election is the number of its distinct voters.\<close>

definition tally_inv :: "nat \<Rightarrow> 'c cluster \<Rightarrow> bool" where
  "tally_inv n s \<longleftrightarrow>
     (\<forall>i T. finite (tally s (i, T)) \<and> fst (counters s (i, T)) = int (card (tally s (i, T))) \<and>
        (\<forall>v \<in> tally s (i, T). (T, v, i) \<in> granted s))"

definition leaders_inv :: "nat \<Rightarrow> 'c cluster \<Rightarrow> bool" where
  "leaders_inv n s \<longleftrightarrow>
     (\<forall>T i. (T, i) \<in> leaders s \<longrightarrow>
        i < n \<and> T \<le> currentTerm (nodes s i) \<and> majority n (tally s (i, T))) \<and>
     (\<forall>i<n. state (nodes s i) = Leader \<longrightarrow> (currentTerm (nodes s i), i) \<in> leaders s)"

lemma leaders_inv_evolve:
  assumes inv: "leaders_inv n s" and ev: "evolves (nodes s i) rf'" "leads_on (nodes s i) rf'"
    and t: "nodes t = (nodes s)(i := rf')" "leaders t = leaders s" "tally t = tally s"
  shows "leaders_inv n t"
proof -
  have grow: "currentTerm (nodes s k) \<le> currentTerm (nodes t k)" for k
    using ev t by (simp add: evolves_def)
  have "T \<le> currentTerm (nodes t k)" if "(T, k) \<in> leaders s" for T k
    using inv that grow [of k] by (force simp: leaders_inv_def)
  moreover have "(currentTerm (nodes t k), k) \<in> leaders s" if "k < n" "state (nodes t k) = Leader" for k
    using inv that ev t by (auto simp: leaders_inv_def leads_on_def split: if_splits)
  ultimately show ?thesis using inv t by (auto simp: leaders_inv_def)
qed

definition cluster_inv :: "nat \<Rightarrow> 'c cluster \<Rightarrow> bool" where
  "cluster_inv n s \<longleftrightarrow>
     nodes_inv n s \<and> pool_inv n s \<and> granted_inv n s \<and> votes_inv n s \<and> tally_inv n s \<and>
     leaders_inv n s"

lemmas cluster_inv_defs = cluster_inv_def nodes_inv_def pool_inv_def granted_inv_def
  votes_inv_def vote_ok_def tally_inv_def leaders_inv_def

lemma cluster_inv_init: "cluster_inv n (init_cluster n t0)"
  by (simp add: cluster_inv_defs init_cluster_def node_ok_init)

text \<open>
  The frame of every step that is not an election or a vote: one server evolves without
  becoming leader, and the pool loses calls or gains calls that are not votes.
\<close>

lemma cluster_inv_frame:
  assumes inv: "cluster_inv n s" and i: "i < n"
    and ok: "node_ok rf'" "evolves (nodes s i) rf'" "leads_on (nodes s i) rf'"
    and pool: "distinct (voteKeys cs)" "\<forall>c \<in> set cs. caller c < n \<and> callee c < n \<and> callee c \<noteq> caller c"
      "\<forall>c \<in> set cs. voteKey c \<noteq> None \<longrightarrow> c \<in> set (calls s)"
  shows "cluster_inv n (s\<lparr>nodes := (nodes s)(i := rf'), calls := cs\<rparr>)"
proof -
  let ?s = "s\<lparr>nodes := (nodes s)(i := rf'), calls := cs\<rparr>"
  have grow: "currentTerm (nodes s k) \<le> currentTerm (nodes ?s k)" for k
    using ok by (simp add: evolves_def)
  have "nodes_inv n ?s" using inv ok i by (simp add: cluster_inv_defs evolves_def)
  moreover have "pool_inv n ?s" using pool(2) by (simp add: pool_inv_def)
  moreover have "granted_inv n ?s"
    using inv ok by (fastforce simp: cluster_inv_def granted_inv_def evolves_def)
  moreover have "votes_inv n ?s"
  proof -
    have "call_ok ?s c" if "c \<in> set cs" for c
    proof (cases "voteKey c = None")
      case True
      then show ?thesis by (cases c) auto
    next
      case False
      then have "call_ok s c" using inv pool(3) that by (auto simp: cluster_inv_def votes_inv_def)
      then show ?thesis
        by (rule call_ok_mono) (use grow order_trans in \<open>fastforce simp: vote_ok_def\<close>)+
    qed
    then show ?thesis using pool(1) by (simp add: votes_inv_def)
  qed
  moreover have "tally_inv n ?s" using inv by (simp add: cluster_inv_def tally_inv_def)
  moreover have "leaders_inv n ?s"
    using inv leaders_inv_evolve [OF _ ok(2,3)] by (simp add: cluster_inv_def)
  ultimately show ?thesis by (simp add: cluster_inv_def)
qed

lemma call_ok_soft [simp]:
  "call_ok (s\<lparr>pending := p\<rparr>) = call_ok s" "call_ok (s\<lparr>epoch := e\<rparr>) = call_ok s"
proof -
  show "call_ok (s\<lparr>pending := p\<rparr>) = call_ok s"
    by (rule ext, rename_tac c, case_tac c) (auto simp: vote_ok_def)
  show "call_ok (s\<lparr>epoch := e\<rparr>) = call_ok s"
    by (rule ext, rename_tac c, case_tac c) (auto simp: vote_ok_def)
qed

lemma cluster_inv_soft [simp]:
  "cluster_inv n (s\<lparr>pending := p\<rparr>) = cluster_inv n s"
  "cluster_inv n (s\<lparr>epoch := e\<rparr>) = cluster_inv n s"
  by (simp_all add: cluster_inv_defs)

lemma pool_member:
  assumes "cluster_inv n s" "c \<in> set (calls s)"
  shows "caller c < n" "callee c < n" "callee c \<noteq> caller c"
    "node_ok (nodes s (caller c))" "node_ok (nodes s (callee c))"
  using assms by (auto simp: cluster_inv_def pool_inv_def nodes_inv_def)


lemma RequestVote_granted:
  assumes "RequestVote now args rf = Some (rf', reply)" "VoteGranted reply"
  shows "currentTerm rf' = rvTerm args" "votedFor rf' = CandidateId args"
    "currentTerm rf \<le> rvTerm args"
    "currentTerm rf = rvTerm args \<Longrightarrow> votedFor rf = -1 \<or> votedFor rf = CandidateId args"
  using assms by (auto simp: RequestVote_def Let_def split: if_splits bind_splits)

lemma cluster_inv_elect:
  assumes inv: "cluster_inv n s" and i: "i < n"
    and el: "startElection now (nodes s i) = Some (rf', args)"
  shows "cluster_inv n (s\<lparr>nodes := (nodes s)(i := rf'), pending := p,
      calls := voteCalls n i e args @ calls s,
      counters := (counters s)((i, rvTerm args) := (1, False)),
      granted := insert (rvTerm args, i, i) (granted s),
      tally := (tally s)((i, rvTerm args) := {i})\<rparr>)" (is "cluster_inv n ?s")
proof -
  note ev = startElection_evolves [OF el]
  have node: "node_ok (nodes s i)" "me (nodes s i) = int i" "peers (nodes s i) = n"
    using inv i by (auto simp: cluster_inv_def nodes_inv_def)
  have ok: "node_ok rf'" using node_step_ok [OF node_step.election [OF el] node(1)] .
  have old: "T \<le> currentTerm (nodes s i)" if "(T, i, c) \<in> granted s" for T c
    using inv that by (fastforce simp: cluster_inv_def granted_inv_def)
  have oldcall: "T \<le> currentTerm (nodes s i)"
    if "c \<in> set (calls s)" "voteKey c = Some (i, T, j)" for c T j
    using inv that call_ok_term by (fastforce simp: cluster_inv_def votes_inv_def)
  have "nodes_inv n ?s" using inv ok ev i by (simp add: cluster_inv_defs evolves_def)
  moreover have "pool_inv n ?s"
    using inv i by (auto simp: cluster_inv_def pool_inv_def voteCalls_def)
  moreover have "granted_inv n ?s"
  proof -
    have "T < currentTerm rf' \<or> T = currentTerm rf' \<and> votedFor rf' = int c"
      if "(T, i, c) \<in> granted s" for T c using old [OF that] ev by simp
    moreover have "c = i" if "(rvTerm args, i, c) \<in> granted s" for c
      using old [OF that] ev by simp
    ultimately show ?thesis
      using inv i ev node by (auto simp: cluster_inv_def granted_inv_def)
  qed
  moreover have "votes_inv n ?s"
  proof -
    have "distinct (voteKeys (voteCalls n i e args @ calls s))"
      using inv oldcall ev
      by (auto simp: cluster_inv_def votes_inv_def voteKeys_voteCalls distinct_map inj_on_def
          set_voteKeys dest!: oldcall)
    moreover have "call_ok ?s c" if "c \<in> set (calls s)" for c
    proof (rule call_ok_mono [of s])
      show "call_ok s c" using inv that by (simp add: cluster_inv_def votes_inv_def)
    next
      fix a j b
      assume "voteKey c = Some (a, rvTerm b, j)" "vote_ok s a j b"
      then show "vote_ok ?s a j b" using oldcall [OF that] ev by (auto simp: vote_ok_def)
    qed auto
    moreover have "call_ok ?s c" if "c \<in> set (voteCalls n i e args)" for c
      using that ev node by (auto simp: vote_ok_def voteCalls_def)
    ultimately show ?thesis by (auto simp: votes_inv_def)
  qed
  moreover have "tally_inv n ?s" using inv by (auto simp: cluster_inv_def tally_inv_def)
  moreover have "leaders_inv n ?s"
  proof -
    have le: "k < n \<and> T \<le> currentTerm (nodes s k) \<and> majority n (tally s (k, T))"
      if "(T, k) \<in> leaders s" for T k
      using inv that by (simp add: cluster_inv_def leaders_inv_def)
    have "T \<le> currentTerm (nodes ?s k) \<and> majority n (tally ?s (k, T)) \<and> k < n"
      if "(T, k) \<in> leaders s" for T k
      using le [OF that] ev(2,5) by (cases "k = i") auto
    moreover have "(currentTerm (nodes ?s k), k) \<in> leaders s"
      if "k < n" "state (nodes ?s k) = Leader" for k
      using inv that ev(4) by (auto simp: cluster_inv_def leaders_inv_def split: if_splits)
    ultimately show ?thesis by (simp add: leaders_inv_def)
  qed
  ultimately show ?thesis by (simp add: cluster_inv_def)
qed

lemma remove1_pool:
  assumes "cluster_inv n s" "c \<in> set (calls s)"
  shows "distinct (voteKeys (remove1 c (calls s)))"
    "\<And>k. voteKey c = Some k \<Longrightarrow> k \<notin> set (voteKeys (remove1 c (calls s)))"
    "\<And>d. d \<in> set (remove1 c (calls s)) \<Longrightarrow> d \<in> set (calls s)"
proof -
  show "d \<in> set (calls s)" if "d \<in> set (remove1 c (calls s))" for d
    using that set_remove1_subset [of c "calls s"] by blast
qed (use assms voteKeys_remove1 [of c "calls s"] in
    \<open>auto simp: cluster_inv_def votes_inv_def\<close>)

lemma cluster_inv_recv_vote:
  assumes inv: "cluster_inv n s" and c: "VoteReq i e j args \<in> set (calls s)"
    and rv: "RequestVote now args (nodes s j) = Some (rf', reply)"
  shows "cluster_inv n (s\<lparr>nodes := (nodes s)(j := rf'),
      calls := VoteRep i e j args reply # remove1 (VoteReq i e j args) (calls s),
      granted := (if VoteGranted reply then insert (rvTerm args, j, i) (granted s)
                  else granted s)\<rparr>)" (is "cluster_inv n ?s")
proof -
  note mem = pool_member [OF inv c, simplified]
  note rm = remove1_pool [OF inv c]
  have ev: "evolves (nodes s j) rf'" "leads_on (nodes s j) rf'"
    using RequestVote_evolves [OF rv] by auto
  have ok: "node_ok rf'" by (rule node_step_ok [OF node_step.vote_request [OF rv] mem(5)])
  have cok: "vote_ok s i j args"
    using inv c by (fastforce simp: cluster_inv_def votes_inv_def)
  have grow: "currentTerm (nodes s k) \<le> currentTerm (nodes ?s k)" for k
    using ev by (simp add: evolves_def)
  have "nodes_inv n ?s" using inv ok ev by (simp add: cluster_inv_defs evolves_def)
  moreover have "pool_inv n ?s"
    using inv mem rm(3) by (auto simp: cluster_inv_def pool_inv_def)
  moreover have "granted_inv n ?s"
  proof -
    have old: "T < currentTerm rf' \<or> T = currentTerm rf' \<and> votedFor rf' = int c"
      if "(T, j, c) \<in> granted s" for T c
      using inv that ev by (fastforce simp: cluster_inv_def granted_inv_def evolves_def)
    have new: "c = i" if "VoteGranted reply" "(rvTerm args, j, c) \<in> granted s" for c
      using old [OF that(2)] RequestVote_granted [OF rv that(1)] cok by (auto simp: vote_ok_def)
    have "currentTerm rf' = rvTerm args \<and> votedFor rf' = int i" if "VoteGranted reply"
      using RequestVote_granted [OF rv that] cok by (auto simp: vote_ok_def)
    then show ?thesis using inv old new mem by (auto simp: cluster_inv_def granted_inv_def)
  qed
  moreover have "votes_inv n ?s"
  proof -
    have vo: "vote_ok s a k b \<Longrightarrow> vote_ok ?s a k b" for a k b
      using grow [of a] by (auto simp: vote_ok_def)
    have "call_ok ?s d" if "d \<in> set (remove1 (VoteReq i e j args) (calls s))" for d
      by (rule call_ok_mono [of s])
        (use inv rm(3) [OF that] vo in \<open>auto simp: cluster_inv_def votes_inv_def\<close>)
    moreover have "call_ok ?s (VoteRep i e j args reply)" using vo [OF cok] by simp
    ultimately show ?thesis using rm(1,2) by (simp add: votes_inv_def)
  qed
  moreover have "tally_inv n ?s" using inv by (auto simp: cluster_inv_def tally_inv_def)
  moreover have "leaders_inv n ?s"
    using inv leaders_inv_evolve [OF _ ev] by (simp add: cluster_inv_def)
  ultimately show ?thesis by (simp add: cluster_inv_def)
qed

lemma cluster_inv_vote_reply:
  assumes inv: "cluster_inv n s" and c: "VoteRep i e j args reply \<in> set (calls s)"
    and hr: "handleVoteReply args reply (nodes s i) (counters s (i, rvTerm args)) = Some (rf', v', w')"
  shows "cluster_inv n (s\<lparr>nodes := (nodes s)(i := rf'),
      calls := remove1 (VoteRep i e j args reply) (calls s),
      counters := (counters s)((i, rvTerm args) := (v', w')),
      tally := (if v' = fst (counters s (i, rvTerm args)) then tally s
                else (tally s)((i, rvTerm args) := insert j (tally s (i, rvTerm args)))),
      leaders := (if state rf' = Leader then insert (currentTerm rf', i) (leaders s)
                  else leaders s)\<rparr>)" (is "cluster_inv n ?s")
proof -
  note mem = pool_member [OF inv c, simplified]
  note rm = remove1_pool [OF inv c]
  let ?k = "(i, rvTerm args)"
  obtain v w where cnt: "counters s ?k = (v, w)" by fastforce
  note ev = handleVoteReply_evolves [OF hr [unfolded cnt]]
  have ok: "node_ok rf'" by (rule node_step_ok [OF node_step.vote_reply [OF hr] mem(4)])
  have cok: "vote_ok s i j args" "VoteGranted reply \<Longrightarrow> (rvTerm args, j, i) \<in> granted s"
    using inv c by (fastforce simp: cluster_inv_def votes_inv_def)+
  have grow: "currentTerm (nodes s k) \<le> currentTerm (nodes ?s k)" for k
    using ev by (simp add: evolves_def)
  have tal: "finite (tally s (a, T))" "fst (counters s (a, T)) = int (card (tally s (a, T)))"
    "x \<in> tally s (a, T) \<Longrightarrow> (T, x, a) \<in> granted s" for a T x
    using inv by (auto simp: cluster_inv_def tally_inv_def)
  have "nodes_inv n ?s" using inv ok ev by (simp add: cluster_inv_defs evolves_def)
  moreover have "pool_inv n ?s"
    using inv mem rm(3) by (auto simp: cluster_inv_def pool_inv_def)
  moreover have "granted_inv n ?s"
    using inv ev(1) by (fastforce simp: cluster_inv_def granted_inv_def evolves_def)
  moreover have "votes_inv n ?s"
  proof -
    have "call_ok ?s d" if d: "d \<in> set (remove1 (VoteRep i e j args reply) (calls s))" for d
    proof (rule call_ok_mono [of s])
      show "call_ok s d" using inv rm(3) [OF d] by (simp add: cluster_inv_def votes_inv_def)
    next
      fix a k b
      assume key: "voteKey d = Some (a, rvTerm b, k)" and "vote_ok s a k b"
      moreover have "(a, rvTerm b, k) \<noteq> (i, rvTerm args, j)"
        using rm(2) [of "(i, rvTerm args, j)"] key d by (force simp: set_voteKeys)
      ultimately show "vote_ok ?s a k b"
        using grow [of a] by (auto simp: vote_ok_def)
    qed simp
    then show ?thesis using rm(1) by (simp add: votes_inv_def)
  qed
  moreover have "tally_inv n ?s"
  proof -
    have "v' = int (card (if v' = v then tally s ?k else insert j (tally s ?k)))"
      using ev(3) tal(1,2) [of i "rvTerm args"] cok(1) cnt by (auto simp: vote_ok_def)
    then show ?thesis
      using tal cok(2) ev(3) cnt by (auto simp: tally_inv_def)
  qed
  moreover have "leaders_inv n ?s"
  proof -
    have maj: "majority n (insert j (tally s ?k))" if "int (n div 2) < v + 1" "VoteGranted reply"
    proof -
      have lt: "x < n" if "(T, x, a) \<in> granted s" for T x a
        using inv that by (simp add: cluster_inv_def granted_inv_def)
      have "insert j (tally s ?k) \<subseteq> {..<n}"
        using tal(3) [of _ i "rvTerm args"] cok(2) [OF that(2)] lt by blast
      then show ?thesis
        using that(1) tal(1,2) [of i "rvTerm args"] cok(1) cnt
        by (auto simp: majority_def vote_ok_def)
    qed
    have grown: "majority n (tally ?s (a, T))" if "majority n (tally s (a, T))" for a T
    proof (cases "(a, T) = ?k \<and> v' \<noteq> v")
      case True
      then have "VoteGranted reply" "int (n div 2) < v + 1"
        using ev(3) that tal(2) [of i "rvTerm args"] cnt by (auto simp: majority_def)
      then show ?thesis using maj True cnt by auto
    qed (use that cnt in auto)
    have lead: "(currentTerm rf', i) \<in> leaders s \<or> majority n (tally ?s (i, currentTerm rf'))"
      if "state rf' = Leader"
      using ev(2)
    proof
      assume "leads_on (nodes s i) rf'"
      then show ?thesis using that inv mem(1)
        by (auto simp: leads_on_def cluster_inv_def leaders_inv_def)
    next
      assume *: "state (nodes s i) = Candidate \<and> state rf' = Leader \<and> VoteGranted reply \<and>
        rvrTerm reply \<le> currentTerm (nodes s i) \<and> currentTerm (nodes s i) = rvTerm args \<and>
        currentTerm rf' = currentTerm (nodes s i) \<and> v' = v + 1 \<and>
        int (peers (nodes s i) div 2) < v'"
      moreover have "peers (nodes s i) = n" using inv mem(1) by (simp add: cluster_inv_def nodes_inv_def)
      ultimately show ?thesis using maj cnt by simp
    qed
    have old: "T \<le> currentTerm (nodes ?s k) \<and> majority n (tally ?s (k, T)) \<and> k < n"
      if "(T, k) \<in> leaders s" for T k
      using inv that grown grow [of k] by (force simp: cluster_inv_def leaders_inv_def)
    have "(currentTerm (nodes ?s k), k) \<in> leaders ?s" if "k < n" "state (nodes ?s k) = Leader" for k
      using inv that by (auto simp: cluster_inv_def leaders_inv_def)
    moreover have "k < n \<and> T \<le> currentTerm (nodes ?s k) \<and> majority n (tally ?s (k, T))"
      if new: "(T, k) \<in> leaders ?s" for T k
    proof (cases "(T, k) \<in> leaders s")
      case True
      then show ?thesis using old by blast
    next
      case False
      with new have k: "state rf' = Leader" "T = currentTerm rf'" "k = i" by (auto split: if_splits)
      with lead False have "majority n (tally ?s (i, currentTerm rf'))" by blast
      then show ?thesis using k mem(1) by simp
    qed
    ultimately show ?thesis unfolding leaders_inv_def by blast
  qed
  ultimately show ?thesis by (simp add: cluster_inv_def)
qed

text \<open>Every step keeps the invariant; all but the three voting steps go through the frame.\<close>

lemma cluster_inv_node:
  assumes "cluster_inv n s" "i < n" "node_step (nodes s i) rf'"
    "evolves (nodes s i) rf'" "leads_on (nodes s i) rf'"
  shows "cluster_inv n (s\<lparr>nodes := (nodes s)(i := rf')\<rparr>)"
proof -
  have "cluster_inv n (s\<lparr>nodes := (nodes s)(i := rf'), calls := calls s\<rparr>)"
    using assms
    by (intro cluster_inv_frame)
      (auto simp: cluster_inv_def votes_inv_def pool_inv_def nodes_inv_def intro: node_step_ok)
  then show ?thesis by simp
qed

lemma cluster_inv_call:
  assumes inv: "cluster_inv n s" and c: "c \<in> set (calls s)"
    and k: "k < n" "node_step (nodes s k) rf' \<or> rf' = nodes s k"
      "evolves (nodes s k) rf' \<and> leads_on (nodes s k) rf'"
    and new: "voteKeys ds = []" "\<And>d. d \<in> set ds \<Longrightarrow> caller d = caller c \<and> callee d = callee c"
  shows "cluster_inv n (s\<lparr>nodes := (nodes s)(k := rf'), calls := ds @ remove1 c (calls s)\<rparr>)"
proof (rule cluster_inv_frame [OF inv k(1)])
  show "node_ok rf'" using inv k by (auto simp: cluster_inv_def nodes_inv_def intro: node_step_ok)
  show "distinct (voteKeys (ds @ remove1 c (calls s)))"
    using new remove1_pool(1) [OF inv c] by simp
  show "\<forall>d \<in> set (ds @ remove1 c (calls s)). caller d < n \<and> callee d < n \<and> callee d \<noteq> caller d"
    using new(2) pool_member(1-3) [OF inv] c remove1_pool(3) [OF inv c] by auto
  show "\<forall>d \<in> set (ds @ remove1 c (calls s)). voteKey d \<noteq> None \<longrightarrow> d \<in> set (calls s)"
    using new(1) remove1_pool(3) [OF inv c] set_voteKeys [of _ ds] by fastforce
qed (use k(3) in auto)

lemma evolves_refl [simp]: "evolves rf rf" "leads_on rf rf"
  by (simp_all add: evolves_def leads_on_def)

lemma cluster_inv_step: "cstep n snaps s t \<Longrightarrow> cluster_inv n s \<Longrightarrow> cluster_inv n t"
proof (induction rule: cstep.induct)
  case (elect i s now rf' args)
  from cluster_inv_elect [OF elect(4,1,3)] show ?case .
next
  case (recv_vote i e j args s now rf' reply)
  from cluster_inv_recv_vote [OF recv_vote(3,1,2)] show ?case .
next
  case (vote_reply i e j args reply s rf' v' w')
  from cluster_inv_vote_reply [OF vote_reply(4,1,3)] show ?case .
next
  case (lose c s)
  from cluster_inv_call [OF lose(2,1), of "caller c" "nodes s (caller c)" "[]"]
    pool_member [OF lose(2,1)]
  show ?case by simp
next
  case (hb_begin i s hb srvs)
  have "cluster_inv n (s\<lparr>nodes := (nodes s)(i := nodes s i),
      calls := map (\<lambda>j. HbTask i (epoch s i) j hb) srvs @ calls s\<rparr>)"
    using hb_begin voteKeys_none [of "map (\<lambda>j. HbTask i (epoch s i) j hb) srvs"]
    by (intro cluster_inv_frame)
      (auto simp: cluster_inv_def votes_inv_def pool_inv_def nodes_inv_def heartbeatBegin_def
        split: if_splits)
  then show ?case by simp
next
  case (hb_send i e j hb s act)
  have "caller d = i \<and> callee d = j" if "d \<in> set (hbCalls i e j act)" for d
    using that by (cases act) auto
  with cluster_inv_call [OF hb_send(4,1), of i "nodes s i" "hbCalls i e j act"]
    pool_member [OF hb_send(4,1)]
  show ?case by simp
next
  case (recv_append i e j aargs s now rf' areply)
  from cluster_inv_call [OF recv_append(3,1), of j rf' "[AppRep i e j aargs areply]"]
    pool_member [OF recv_append(3,1)] AppendEntries_evolves [OF recv_append(2)]
    node_step.append_request [OF recv_append(2)]
  show ?case by simp
next
  case (append_reply i e j aargs areply s rf')
  from cluster_inv_call [OF append_reply(4,1), of i rf' "[]"]
    pool_member [OF append_reply(4,1)] handleAppendReply_evolves [OF append_reply(3)]
    node_step.append_reply [OF append_reply(3)]
  show ?case by simp
next
  case (recv_install i e j iargs s now rf' ireply msg)
  from cluster_inv_call [OF recv_install(3,1), of j rf' "[InsRep i e j iargs ireply]"]
    pool_member [OF recv_install(3,1)] InstallSnapshot_evolves [OF recv_install(2)]
    node_step.install_request [OF recv_install(2)]
  show ?case by simp
next
  case (install_reply i e j iargs ireply s rf')
  from cluster_inv_call [OF install_reply(4,1), of i rf' "[]"]
    pool_member [OF install_reply(4,1)] handleInstallReply_evolves [OF install_reply(3)]
    node_step.install_reply [OF install_reply(3)]
  show ?case by simp
next
  case (restart i s now)
  then have node: "durable (nodes s i)" "me (nodes s i) = int i" "peers (nodes s i) = n"
    by (auto simp: cluster_inv_def nodes_inv_def node_ok_def)
  from cluster_inv_node [OF restart(2,1) node_step.restart] restart_evolves [OF node(1)]
  show ?case by (simp add: node)
next
  case (crash_in_handler i s t now)
  then have node: "me (nodes s i) = int i" "peers (nodes s i) = n"
    by (auto simp: cluster_inv_def nodes_inv_def node_ok_def)
  from cluster_inv_node [OF crash_in_handler(3,1) node_step.crash_in_handler [OF crash_in_handler(2)]]
    crash_in_handler_evolves [OF crash_in_handler(2)]
  show ?case by (simp add: node)
next
  case (start i cmd s rf' idx trm ok)
  from cluster_inv_node [OF start(3,1) node_step.client_start [OF start(2)]]
    Start_evolves [OF start(2)] show ?case by simp
next
  case (snapshot i index snap s rf')
  from cluster_inv_node [OF snapshot(4,2) node_step.service_snapshot [OF snapshot(3)]]
    Snapshot_evolves [OF snapshot(3)] show ?case by simp
next
  case (commit i s rf')
  from cluster_inv_node [OF commit(3,1) node_step.commit [OF commit(2)]]
    updateCommitIndex_evolves [OF commit(2)] show ?case by simp
next
  case (apply_msgs i s rf' msgs)
  from cluster_inv_node [OF apply_msgs(3,1) node_step.apply_msgs [OF apply_msgs(2)]]
    applyCommitted_evolves [OF apply_msgs(2)] show ?case by simp
qed simp

lemma reachable_cluster_inv: "reachable n snaps s \<Longrightarrow> cluster_inv n s"
  by (induction rule: reachable.induct) (auto intro: cluster_inv_init cluster_inv_step)

text \<open>Two majorities of one term share a voter, and a voter grants one vote per term.\<close>

lemma leaders_unique:
  assumes inv: "cluster_inv n s" and i: "(T, i) \<in> leaders s" and j: "(T, j) \<in> leaders s"
  shows "i = j"
proof (rule maj.quorum_agree [where A = "tally s (i, T)" and B = "tally s (j, T)" and n = n
      and R = "\<lambda>v c. (T, v, c) \<in> granted s"])
  show "majority n (tally s (i, T))" "majority n (tally s (j, T))"
    using inv i j by (auto simp: cluster_inv_def leaders_inv_def)
  show "v \<in> tally s (i, T) \<Longrightarrow> (T, v, i) \<in> granted s" for v
    using inv by (simp add: cluster_inv_def tally_inv_def)
  show "v \<in> tally s (j, T) \<Longrightarrow> (T, v, j) \<in> granted s" for v
    using inv by (simp add: cluster_inv_def tally_inv_def)
  show "(T, v, x) \<in> granted s \<Longrightarrow> (T, v, y) \<in> granted s \<Longrightarrow> x = y" for v x y
    using inv by (auto simp: cluster_inv_def granted_inv_def)
qed

subsection \<open>Election safety\<close>

text \<open>A run in which server 0 of two becomes leader of term 1.\<close>

lemma run_leader:
  "\<exists>s :: nat cluster. reachable 2 False s \<and> GetState (nodes s 0) = (1, True)"
proof -
  let ?a = "\<lparr>rvTerm = 1, CandidateId = 0, LastLogIndex = 0, LastLogTerm = 0\<rparr>"
  let ?r = "\<lparr>rvrTerm = 0, VoteGranted = True\<rparr>"
  define s0 :: "nat cluster" where "s0 = init_cluster 2 (\<lambda>_. 0)"
  have r0: "reachable 2 False s0" unfolding s0_def by (rule reach_init)
  have n0: "nodes s0 k = newRaft 2 (int k) MakePersister 0" for k
    by (simp add: s0_def init_cluster_def Make_def readPersist_def)
  define s1 where "s1 = s0\<lparr>pending := (pending s0)(0 := True)\<rparr>"
  have "cstep 2 False s0 s1" unfolding s1_def
    by (rule cstep.tick [where now = 1000 and rnd = 0])
      (simp_all add: n0 newRaft_def killed_def tickerCheck_def)
  with r0 have r1: "reachable 2 False s1" by (rule reach_step)
  obtain rf2 where e2: "startElection 1000 (nodes s1 0) = Some (rf2, ?a)"
    "state rf2 = Candidate" "currentTerm rf2 = 1" "peers rf2 = 2" "me rf2 = 0"
    by (simp add: s1_def n0 newRaft_def startElection_def lastLogIndex_def)
  define s2 where "s2 = s1\<lparr>nodes := (nodes s1)(0 := rf2), pending := (pending s1)(0 := False),
      calls := voteCalls 2 0 (epoch s1 0) ?a @ calls s1,
      counters := (counters s1)((0, rvTerm ?a) := (1, False)),
      granted := insert (rvTerm ?a, 0, 0) (granted s1),
      tally := (tally s1)((0, rvTerm ?a) := {0})\<rparr>"
  have "cstep 2 False s1 s2" unfolding s2_def
    by (rule cstep.elect [OF _ _ e2(1)]) (simp_all add: s1_def)
  with r1 have r2: "reachable 2 False s2" by (rule reach_step)
  have c2: "calls s2 = [VoteReq 0 0 1 ?a]"
    by (simp add: s2_def s1_def s0_def init_cluster_def voteCalls_def upt_rec numeral_2_eq_2)
  obtain rf3 where e3: "RequestVote 1000 ?a (nodes s2 1) = Some (rf3, ?r)"
    by (simp add: s2_def s1_def n0 newRaft_def RequestVote_def Let_def upToDate_def lastLogIndex_def)
  define s3 where "s3 = s2\<lparr>nodes := (nodes s2)(1 := rf3),
      calls := VoteRep 0 0 1 ?a ?r # remove1 (VoteReq 0 0 1 ?a) (calls s2),
      granted := (if VoteGranted ?r then insert (rvTerm ?a, 1, 0) (granted s2) else granted s2)\<rparr>"
  have "cstep 2 False s2 s3" unfolding s3_def
    by (rule cstep.recv_vote [OF _ e3]) (simp add: c2)
  with r2 have r3: "reachable 2 False s3" by (rule reach_step)
  have n3: "nodes s3 0 = rf2" "epoch s3 0 = 0" "counters s3 (0, 1) = (1, False)"
    by (simp_all add: s3_def s2_def s1_def s0_def init_cluster_def)
  obtain rf4 where e4: "handleVoteReply ?a ?r (nodes s3 0) (counters s3 (0, rvTerm ?a)) = Some (rf4, 2, True)"
    "state rf4 = Leader" "currentTerm rf4 = 1"
    using e2 by (simp add: n3 handleVoteReply_def becomeLeader_def)
  have "\<exists>s4. cstep 2 False s3 s4 \<and> nodes s4 0 = rf4"
    by (rule exI, rule conjI, rule cstep.vote_reply [where i = 0 and e = 0 and j = 1, OF _ _ e4(1)])
      (simp_all add: n3, simp add: s3_def)
  then show ?thesis using r3 e4 reach_step by (fastforce simp: GetState_def)
qed

text \<open>
  C4. Election safety: in every reachable state of a group of servers, whatever the network
  loses, delays or reorders and whichever servers crash and restart, at most one server
  reports through \<open>GetState\<close> that it leads a given term.
\<close>

theorem election_safety:
  assumes "reachable n snaps s" "i < n" "j < n"
    and "GetState (nodes s i) = (T, True)" "GetState (nodes s j) = (T, True)"
  shows "i = j"
proof -
  have inv: "cluster_inv n s" using assms(1) by (rule reachable_cluster_inv)
  have "(T, i) \<in> leaders s" "(T, j) \<in> leaders s"
    using inv assms(2-5) by (auto simp: cluster_inv_def leaders_inv_def GetState_def)
  with inv show ?thesis by (rule leaders_unique)
qed

theorem election_safety_witness:
  "\<exists>s :: nat cluster. reachable 2 False s \<and> GetState (nodes s 0) = (1, True) \<and>
     GetState (nodes s 1) \<noteq> (1, True)"
proof -
  obtain s :: "nat cluster" where s: "reachable 2 False s" "GetState (nodes s 0) = (1, True)"
    using run_leader by blast
  have "GetState (nodes s 1) \<noteq> (1, True)"
    using election_safety [OF s(1), of 0 1 1] s(2) by auto
  with s show ?thesis by blast
qed

subsection \<open>Crash recovery, terms and votes, and the absence of panics\<close>

lemma reachable_node:
  assumes "reachable n snaps s" "i < n"
  shows "node_ok (nodes s i)" "me (nodes s i) = int i" "peers (nodes s i) = n"
  using reachable_cluster_inv [OF assms(1)] assms(2) by (auto simp: cluster_inv_def nodes_inv_def)

text \<open>
  C12. Crash recovery: at every moment of a run, a server that crashes and is made again from a
  copy of its persister has the term, the vote, the log and the snapshot point it had when it
  crashed; it starts as a follower that considers committed and applied what its snapshot
  covers, and the well-formedness of the server holds again.
\<close>

theorem crash_recovery:
  assumes "reachable n snaps s" "i < n"
    and "rf' = Make n (int i) (Checkpoint (persister (nodes s i))) now"
  shows "hardState rf' = hardState (nodes s i) \<and> state rf' = Follower \<and>
    commitIndex rf' = snapshotIndex (nodes s i) \<and> lastApplied rf' = snapshotIndex (nodes s i) \<and>
    ReadSnapshot (persister rf') = ReadSnapshot (persister (nodes s i)) \<and> raft_wf rf'"
proof -
  note node = reachable_node [OF assms(1,2)]
  from node have ok: "durable (nodes s i)" "raft_wf (nodes s i)" by (simp_all add: node_ok_def)
  from Make_hardState [OF ok(1), of n "int i" now] Make_soft [OF ok(1), of n "int i" now]
    Make_wf [OF ok, of now] node
  show ?thesis by (simp add: assms(3))
qed

theorem crash_recovery_witness:
  "\<exists>s :: nat cluster. reachable 2 False s \<and> GetState (nodes s 0) = (1, True) \<and>
     GetState (Make 2 0 (Checkpoint (persister (nodes s 0))) 5000) = (1, False)"
proof -
  obtain s :: "nat cluster" where s: "reachable 2 False s" "GetState (nodes s 0) = (1, True)"
    using run_leader by blast
  with crash_recovery [OF s(1), of 0 _ 5000] show ?thesis
    by (auto simp: GetState_def hardState_def)
qed

lemma cstep_evolves:
  assumes "cstep n snaps s t" "cluster_inv n s" "k < n"
  shows "evolves (nodes s k) (nodes t k)"
  using assms
proof (induction rule: cstep.induct)
  case (vote_reply i e j args reply s rf' v' w')
  then show ?case
    by (cases "counters s (i, rvTerm args)") (simp add: handleVoteReply_evolves(1))
next
  case (restart i s now)
  then have "durable (nodes s i)" "me (nodes s i) = int i" "peers (nodes s i) = n"
    by (auto simp: cluster_inv_def nodes_inv_def node_ok_def)
  then show ?case using restart_evolves [of "nodes s i"] by auto
next
  case (crash_in_handler i s t now)
  then have "me (nodes s i) = int i" "peers (nodes s i) = n"
    by (auto simp: cluster_inv_def nodes_inv_def)
  then show ?case using crash_in_handler_evolves [OF crash_in_handler(2)] by auto
qed (auto dest: handler_evolves)

text \<open>
  C13. Along every step of a run no server's term decreases, and within a term a server that
  has voted keeps its vote, crashes and restarts included.
\<close>

theorem terms_and_votes_stable:
  assumes "reachable n snaps s" "cstep n snaps s t" "i < n"
  shows "currentTerm (nodes s i) \<le> currentTerm (nodes t i) \<and>
    (currentTerm (nodes t i) = currentTerm (nodes s i) \<and> votedFor (nodes s i) \<noteq> -1 \<longrightarrow>
       votedFor (nodes t i) = votedFor (nodes s i))"
  using cstep_evolves [OF assms(2) reachable_cluster_inv [OF assms(1)] assms(3)]
  by (simp add: evolves_def)

theorem terms_and_votes_stable_witness:
  "\<exists>s t :: nat cluster. reachable 2 False s \<and> cstep 2 False s t \<and> epoch t 0 = Suc (epoch s 0) \<and>
     1 \<le> currentTerm (nodes t 0)"
proof -
  obtain s :: "nat cluster" where s: "reachable 2 False s" "GetState (nodes s 0) = (1, True)"
    using run_leader by blast
  let ?t = "s\<lparr>nodes := (nodes s)(0 := Make 2 (int 0) (Checkpoint (persister (nodes s 0))) 5000),
      epoch := (epoch s)(0 := Suc (epoch s 0)), pending := (pending s)(0 := False)\<rparr>"
  have step: "cstep 2 False s ?t" by (rule cstep.restart) simp
  have "1 \<le> currentTerm (nodes ?t 0)"
    using terms_and_votes_stable [OF s(1) step, of 0] s(2) by (simp add: GetState_def)
  with s(1) step show ?thesis by (intro exI [of _ s] exI [of _ ?t]) simp
qed

definition call_returns :: "'c cluster \<Rightarrow> 'c call \<Rightarrow> bool" where
  "call_returns s c = (case c of
     VoteReq i e j args \<Rightarrow> \<forall>now. RequestVote now args (nodes s j) \<noteq> None
   | VoteRep i e j args reply \<Rightarrow> \<forall>cnt. handleVoteReply args reply (nodes s i) cnt \<noteq> None
   | HbTask i e j hb \<Rightarrow> heartbeatSend hb j (nodes s i) \<noteq> None
   | AppReq i e j args \<Rightarrow> \<forall>now. AppendEntries now args (nodes s j) \<noteq> None
   | AppRep i e j args reply \<Rightarrow> handleAppendReply j args reply (nodes s i) \<noteq> None
   | InsReq i e j args \<Rightarrow> True
   | InsRep i e j args reply \<Rightarrow> handleInstallReply j args reply (nodes s i) \<noteq> None)"

lemma pool_call_returns:
  assumes inv: "cluster_inv n s" and c: "c \<in> set (calls s)"
  shows "call_returns s c"
proof -
  have wf: "raft_wf (nodes s k)" "peers (nodes s k) = n" if "k < n" for k
    using inv that by (simp_all add: cluster_inv_def nodes_inv_def node_ok_def)
  note mem = pool_member(1,2) [OF inv c]
  show ?thesis
  proof (cases c)
    case (VoteReq i e j args)
    then show ?thesis using mem RequestVote_total [OF wf(1)] by (fastforce simp: call_returns_def)
  next
    case (VoteRep i e j args reply)
    then show ?thesis using mem handleVoteReply_total [OF wf(1)] by (fastforce simp: call_returns_def)
  next
    case (HbTask i e j hb)
    then show ?thesis using mem heartbeatSend_total [OF wf(1), of i j hb] wf(2)
      by (simp add: call_returns_def)
  next
    case (AppReq i e j args)
    then show ?thesis using AppendEntries_total by (fastforce simp: call_returns_def)
  next
    case (AppRep i e j args reply)
    then show ?thesis using mem handleAppendReply_total [OF wf(1), of i j] wf(2)
      by (simp add: call_returns_def)
  next
    case (InsRep i e j args reply)
    then show ?thesis using mem handleInstallReply_total [OF wf(1), of i j] wf(2)
      by (simp add: call_returns_def)
  qed (simp add: call_returns_def)
qed

text \<open>
  C14. No server of a run ever panics on a slice index: in every reachable state every request
  and reply of the pool is handled, and the election, the commit loop, a snapshot at
  any index and the send of every heartbeat return.
\<close>

theorem no_panic:
  assumes "reachable n snaps s" "i < n"
  shows "(\<forall>c \<in> set (calls s). call_returns s c) \<and>
    (\<forall>now. startElection now (nodes s i) \<noteq> None) \<and> updateCommitIndex (nodes s i) \<noteq> None \<and>
    (\<forall>index snap. Snapshot index snap (nodes s i) \<noteq> None)"
proof -
  have wf: "raft_wf (nodes s i)" using reachable_node [OF assms] by (simp add: node_ok_def)
  show ?thesis
    using pool_call_returns [OF reachable_cluster_inv [OF assms(1)]]
      startElection_total [OF wf] updateCommitIndex_total [OF wf] Snapshot_total [OF wf]
    by simp
qed

theorem no_panic_witness:
  "\<exists>s :: nat cluster. reachable 2 False s \<and> GetState (nodes s 0) = (1, True) \<and>
     Snapshot 7 [] (nodes s 0) \<noteq> None"
proof -
  obtain s :: "nat cluster" where s: "reachable 2 False s" "GetState (nodes s 0) = (1, True)"
    using run_leader by blast
  with no_panic [OF s(1), of 0] show ?thesis by auto
qed

end
