(* ===== verification/RaftSchedule.thy ===== *)
theory RaftSchedule
  imports RaftHandlers RaftCluster
begin

text \<open>
  Concrete runs of a group of servers: a schedule is a list of actions, each of which picks one
  step of the relation, and running it is executable.
\<close>

datatype 'c action =
    Tick nat int nat | Elect nat int | Deliver nat int | Lose nat | Heartbeat nat
  | Command_at nat "'c option" | Commit nat | Apply nat | Restart nat int

fun deliver :: "'c cluster \<Rightarrow> int \<Rightarrow> 'c call \<Rightarrow> 'c cluster option" where
  "deliver s now (VoteReq i e j args) =
     (case RequestVote now args (nodes s j) of
        None \<Rightarrow> None
      | Some (rf', reply) \<Rightarrow> Some (s\<lparr>nodes := (nodes s)(j := rf'),
          calls := VoteRep i e j args reply # remove1 (VoteReq i e j args) (calls s),
          granted := (if VoteGranted reply then insert (rvTerm args, j, i) (granted s) else granted s)\<rparr>))"
| "deliver s now (VoteRep i e j args reply) =
     (if e = epoch s i then
        case handleVoteReply args reply (nodes s i) (counters s (i, rvTerm args)) of
          None \<Rightarrow> None
        | Some (rf', v', w') \<Rightarrow> Some (s\<lparr>nodes := (nodes s)(i := rf'),
            calls := remove1 (VoteRep i e j args reply) (calls s),
            counters := (counters s)((i, rvTerm args) := (v', w')),
            tally := (if v' = fst (counters s (i, rvTerm args)) then tally s
                      else (tally s)((i, rvTerm args) := insert j (tally s (i, rvTerm args)))),
            leaders := (if state rf' = Leader then insert (currentTerm rf', i) (leaders s) else leaders s)\<rparr>)
      else None)"
| "deliver s now (HbTask i e j hb) =
     (if e = epoch s i then
        case heartbeatSend hb j (nodes s i) of
          None \<Rightarrow> None
        | Some a \<Rightarrow> Some (s\<lparr>calls := hbCalls i e j a @ remove1 (HbTask i e j hb) (calls s)\<rparr>)
      else None)"
| "deliver s now (AppReq i e j args) =
     (case AppendEntries now args (nodes s j) of
        None \<Rightarrow> None
      | Some (rf', reply) \<Rightarrow> Some (s\<lparr>nodes := (nodes s)(j := rf'),
          calls := AppRep i e j args reply # remove1 (AppReq i e j args) (calls s)\<rparr>))"
| "deliver s now (AppRep i e j args reply) =
     (if e = epoch s i then
        case handleAppendReply j args reply (nodes s i) of
          None \<Rightarrow> None
        | Some rf' \<Rightarrow> Some (s\<lparr>nodes := (nodes s)(i := rf'),
            calls := remove1 (AppRep i e j args reply) (calls s)\<rparr>)
      else None)"
| "deliver s now (InsReq i e j args) =
     (case InstallSnapshot now args (nodes s j) of (rf', reply, msg) \<Rightarrow>
        Some (s\<lparr>nodes := (nodes s)(j := rf'),
          calls := InsRep i e j args reply # remove1 (InsReq i e j args) (calls s)\<rparr>))"
| "deliver s now (InsRep i e j args reply) =
     (if e = epoch s i then
        case handleInstallReply j args reply (nodes s i) of
          None \<Rightarrow> None
        | Some rf' \<Rightarrow> Some (s\<lparr>nodes := (nodes s)(i := rf'),
            calls := remove1 (InsRep i e j args reply) (calls s)\<rparr>)
      else None)"

fun perform :: "nat \<Rightarrow> 'c action \<Rightarrow> 'c cluster \<Rightarrow> 'c cluster option" where
  "perform n (Tick i now rnd) s =
     (if i < n \<and> \<not> killed (nodes s i) \<and> tickerCheck now rnd (nodes s i)
      then Some (s\<lparr>pending := (pending s)(i := True)\<rparr>) else None)"
| "perform n (Elect i now) s =
     (if i < n \<and> pending s i then
        case startElection now (nodes s i) of
          None \<Rightarrow> None
        | Some (rf', args) \<Rightarrow> Some (s\<lparr>nodes := (nodes s)(i := rf'), pending := (pending s)(i := False),
            calls := voteCalls n i (epoch s i) args @ calls s,
            counters := (counters s)((i, rvTerm args) := (1, False)),
            granted := insert (rvTerm args, i, i) (granted s),
            tally := (tally s)((i, rvTerm args) := {i})\<rparr>)
      else None)"
| "perform n (Deliver k now) s = (if k < length (calls s) then deliver s now (calls s ! k) else None)"
| "perform n (Lose k) s = (if k < length (calls s) then Some (s\<lparr>calls := remove1 (calls s ! k) (calls s)\<rparr>) else None)"
| "perform n (Heartbeat i) s =
     (if i < n \<and> \<not> killed (nodes s i) then
        case heartbeatBegin (nodes s i) of
          None \<Rightarrow> None
        | Some (hb, srvs) \<Rightarrow> Some (s\<lparr>calls := map (\<lambda>j. HbTask i (epoch s i) j hb) srvs @ calls s\<rparr>)
      else None)"
| "perform n (Command_at i cmd) s =
     (if i < n then case Start cmd (nodes s i) of (rf', _) \<Rightarrow> Some (s\<lparr>nodes := (nodes s)(i := rf')\<rparr>) else None)"
| "perform n (Commit i) s =
     (if i < n then
        case updateCommitIndex (nodes s i) of None \<Rightarrow> None | Some rf' \<Rightarrow> Some (s\<lparr>nodes := (nodes s)(i := rf')\<rparr>)
      else None)"
| "perform n (Apply i) s =
     (if i < n then case applyCommitted (nodes s i) of (rf', _) \<Rightarrow> Some (s\<lparr>nodes := (nodes s)(i := rf')\<rparr>) else None)"
| "perform n (Restart i now) s =
     (if i < n then Some (s\<lparr>nodes := (nodes s)(i := Make n (int i) (Checkpoint (persister (nodes s i))) now),
        epoch := (epoch s)(i := Suc (epoch s i)), pending := (pending s)(i := False)\<rparr>) else None)"

lemma deliver_cstep:
  assumes "deliver s now c = Some t" "c \<in> set (calls s)"
  shows "cstep n snaps s t"
proof (cases c)
  case (VoteReq i e j args)
  with assms show ?thesis by (auto intro: cstep.recv_vote split: option.splits prod.splits)
next
  case (VoteRep i e j args reply)
  then obtain rf' v' w' where e: "e = epoch s i"
    and hv: "handleVoteReply args reply (nodes s i) (counters s (i, rvTerm args)) = Some (rf', v', w')"
    using assms(1) by (auto split: if_splits option.splits)
  have mem: "VoteRep i e j args reply \<in> set (calls s)" using assms(2) VoteRep by simp
  have t: "t = s\<lparr>nodes := (nodes s)(i := rf'),
      calls := remove1 (VoteRep i e j args reply) (calls s),
      counters := (counters s)((i, rvTerm args) := (v', w')),
      tally := (if v' = fst (counters s (i, rvTerm args)) then tally s
                else (tally s)((i, rvTerm args) := insert j (tally s (i, rvTerm args)))),
      leaders := (if state rf' = Leader then insert (currentTerm rf', i) (leaders s) else leaders s)\<rparr>"
    using assms(1) e hv by (simp only: VoteRep deliver.simps option.case prod.case if_True refl option.inject simp_thms)
  show ?thesis unfolding t by (rule cstep.vote_reply [OF mem e hv])
next
  case (HbTask i e j hb)
  with assms show ?thesis by (auto intro!: cstep.hb_send split: if_splits option.splits)
next
  case (AppReq i e j args)
  with assms show ?thesis by (auto intro!: cstep.recv_append split: option.splits prod.splits)
next
  case (AppRep i e j args reply)
  with assms show ?thesis by (auto intro!: cstep.append_reply split: if_splits option.splits)
next
  case (InsReq i e j args)
  with assms show ?thesis by (auto intro!: cstep.recv_install split: prod.splits)
next
  case (InsRep i e j args reply)
  with assms show ?thesis by (auto intro!: cstep.install_reply split: if_splits option.splits)
qed

lemma perform_cstep: "perform n a s = Some t \<Longrightarrow> cstep n snaps s t"
proof (induction n a s rule: perform.induct)
  case (1 n i now rnd s)
  then show ?case by (auto intro: cstep.tick split: if_splits)
next
  case (2 n i now s)
  then show ?case by (auto intro!: cstep.elect split: if_splits option.splits)
next
  case (3 n k now s)
  then show ?case using deliver_cstep [of s now "calls s ! k" t] by (auto split: if_splits)
next
  case (4 n k s)
  then show ?case by (auto intro!: cstep.lose split: if_splits)
next
  case (5 n i s)
  then show ?case by (auto intro!: cstep.hb_begin split: if_splits option.splits)
next
  case (6 n i cmd s)
  then show ?case by (auto intro: cstep.start split: if_splits prod.splits)
next
  case (7 n i s)
  then show ?case by (auto intro: cstep.commit split: if_splits option.splits)
next
  case (8 n i s)
  then show ?case by (auto intro: cstep.apply_msgs split: if_splits prod.splits)
next
  case (9 n i now s)
  then show ?case by (auto intro: cstep.restart split: if_splits)
qed

lemma schedule_run: "for_each as (perform n) s = Some t \<Longrightarrow> (cstep n snaps)\<^sup>*\<^sup>* s t"
proof (induction as arbitrary: s)
  case (Cons a as)
  then obtain u where u: "perform n a s = Some u" "for_each as (perform n) u = Some t" by (auto split: bind_splits)
  from converse_rtranclp_into_rtranclp [of "cstep n snaps", OF perform_cstep [OF u(1)] Cons.IH [OF u(2)]] show ?case .
qed simp

lemma reachable_run: "(cstep n snaps)\<^sup>*\<^sup>* s t \<Longrightarrow> reachable n snaps s \<Longrightarrow> reachable n snaps t"
  by (induction rule: rtranclp_induct) (auto intro: reach_step)

lemma schedule_reachable: "for_each as (perform n) (init_cluster n t0) = Some t \<Longrightarrow> reachable n snaps t"
  using reachable_run [OF schedule_run reach_init] .

text \<open>
  The runs of two servers the examples use: server 0 is elected in term 1 and the service starts a command; the
  command is replicated and server 0 commits it; the next heartbeat tells server 1; server 1 is elected in
  term 2.
\<close>

definition schedule_command :: "nat action list" where
  "schedule_command = [Tick 0 1000 0, Elect 0 1000, Deliver 0 1000, Deliver 0 1000, Command_at 0 (Some 7),
     Heartbeat 0, Deliver 0 1001, Deliver 0 1001, Deliver 0 1001, Commit 0]"

definition schedule_followers :: "nat action list" where
  "schedule_followers = [Heartbeat 0, Deliver 0 1002, Deliver 0 1002]"

definition schedule_takeover :: "nat action list" where
  "schedule_takeover = [Tick 1 2000 0, Elect 1 2000, Deliver 0 2000, Deliver 0 2000]"

lemmas run_simps = init_cluster_def Make_def readPersist_def newRaft_def killed_def tickerCheck_def
  startElection_def Let_def lastLogIndex_def voteCalls_def upt_rec numeral_2_eq_2 RequestVote_def upToDate_def
  handleVoteReply_def becomeLeader_def Start_def heartbeatBegin_def heartbeatSend_def AppendEntries_def
  handleAppendReply_def updateCommitIndex_def commitLoop.simps applyCommitted_def applyLoop.simps
  schedule_command_def schedule_followers_def schedule_takeover_def entryTerm_def entryAt_def stepDown_def GetState_def

lemma run_command:
  "\<exists>s. for_each schedule_command (perform 2) (init_cluster 2 (\<lambda>_. 0)) = Some s \<and>
     entryTerm (nodes s 0) 1 = Some 1 \<and> entryTerm (nodes s 1) 1 = Some 1 \<and> currentTerm (nodes s 0) = 1 \<and>
     commitIndex (nodes s 0) = 1 \<and> entryAt (nodes s 0) 1 = Some \<lparr>eTerm = 1, Command = Some 7\<rparr> \<and>
     map CommandIndex (snd (applyCommitted (nodes s 0))) = [1] \<and>
     (\<exists>t. for_each schedule_followers (perform 2) s = Some t \<and>
        map CommandIndex (snd (applyCommitted (nodes t 1))) = [1]) \<and>
     (\<exists>t. for_each schedule_takeover (perform 2) s = Some t \<and> GetState (nodes t 1) = (2, True))"
  by (simp add: run_simps)

end
