(* ===== verification/RaftLog.thy ===== *)
theory RaftLog
  imports RaftSchedule
begin

text \<open>
  Log matching: how the logs of the servers relate in a run without snapshots. Every term has one
  leader, whose log only grows; the history \<open>ll\<close> remembers for each term the log of its leader.
  A log is \<open>good\<close> when each of its entries sits, with everything before it, in the log of
  the leader of its term.
\<close>

subsection \<open>Runs without snapshots\<close>

definition sentinel :: "'c LogEntry" where
  "sentinel = \<lparr>eTerm = 0, Command = None\<rparr>"

definition plain :: "'c raft \<Rightarrow> bool" where
  "plain rf \<longleftrightarrow>
     snapshotIndex rf = 0 \<and> log rf \<noteq> [] \<and> hd (log rf) = sentinel \<and> ReadSnapshot (persister rf) = [] \<and>
     (state rf = Leader \<longrightarrow> (\<forall>x \<in> set (nextIndex rf). 1 \<le> x))"

fun plain_call :: "'c call \<Rightarrow> bool" where
  "plain_call (InsReq i e j a) = False"
| "plain_call (InsRep i e j a r) = False"
| "plain_call (HbTask i e j hb) = (hbSnapshot hb = [])"
| "plain_call (AppReq i e j a) = (0 \<le> PrevLogIndex a)"
| "plain_call (AppRep i e j a r) = (0 \<le> PrevLogIndex a)"
| "plain_call _ = True"

definition plain_cluster :: "nat \<Rightarrow> 'c cluster \<Rightarrow> bool" where
  "plain_cluster n s \<longleftrightarrow> (\<forall>i<n. plain (nodes s i)) \<and> (\<forall>c \<in> set (calls s). plain_call c)"

lemma plain_RequestVote:
  "RequestVote now args rf = Some (rf', reply) \<Longrightarrow> plain rf \<Longrightarrow> plain rf' \<and> log rf' = log rf"
  by (auto simp: RequestVote_def Let_def plain_def split: if_splits bind_splits)

lemma plain_AppendEntries:
  "AppendEntries now args rf = Some (rf', reply) \<Longrightarrow> plain rf \<Longrightarrow> plain rf'"
  by (auto simp: AppendEntries_def Let_def plain_def appendLoop_keeps split: if_splits bind_splits)

lemma plain_Start: "Start cmd rf = (rf', r) \<Longrightarrow> plain rf \<Longrightarrow> plain rf'"
  by (auto simp: Start_def Let_def plain_def split: if_splits)

lemma plain_startElection:
  "startElection now rf = Some (rf', args) \<Longrightarrow> plain rf \<Longrightarrow> plain rf' \<and> log rf' = log rf"
  by (auto simp: startElection_def Let_def plain_def split: bind_splits)

lemma plain_handleVoteReply:
  assumes "handleVoteReply args reply rf cnt = Some (rf', cnt')" "plain rf"
  shows "plain rf' \<and> log rf' = log rf"
proof -
  have "1 \<le> int (length (log rf))" using assms(2) by (cases "log rf") (auto simp: plain_def)
  then show ?thesis using assms
    by (cases cnt) (auto simp: handleVoteReply_def becomeLeader_def Let_def plain_def split: if_splits bind_splits)
qed

lemma in_list_update: "x \<in> set (xs[i := v]) \<Longrightarrow> x = v \<or> x \<in> set xs"
  using set_update_subset_insert by fastforce

lemma plain_handleAppendReply:
  assumes "handleAppendReply srv args reply rf = Some rf'" "plain rf" "0 \<le> PrevLogIndex args"
  shows "plain rf' \<and> log rf' = log rf"
  using assms
  by (auto simp: handleAppendReply_def Let_def plain_def gostore_Some_iff goindex_Some_iff
      dest!: in_list_update split: if_splits bind_splits)

lemma plain_updateCommitIndex:
  "updateCommitIndex rf = Some rf' \<Longrightarrow> plain rf \<Longrightarrow> plain rf' \<and> log rf' = log rf"
  by (auto simp: updateCommitIndex_def plain_def dest!: commitLoop_frame split: if_splits)

lemma plain_applyCommitted:
  "applyCommitted rf = (rf', msgs) \<Longrightarrow> plain rf \<Longrightarrow> plain rf' \<and> log rf' = log rf"
  by (auto simp: applyCommitted_def plain_def dest!: applyLoop_frame)

lemma plain_restart:
  assumes "durable rf" "plain rf" "rf' = Make n i (Checkpoint (persister rf)) now"
  shows "plain rf' \<and> log rf' = log rf \<and> currentTerm rf' = currentTerm rf \<and> state rf' = Follower \<and>
    commitIndex rf' = 0 \<and> lastApplied rf' = 0"
  using Make_hardState [OF assms(1), of n i now] Make_soft [OF assms(1), of n i now] assms(2,3)
  by (auto simp: plain_def hardState_def)

lemma plain_heartbeatSend:
  assumes "heartbeatSend hb j rf = Some act" "plain rf" "hbSnapshot hb = []" "d \<in> set (hbCalls i e j act)"
  shows "plain_call d"
proof (cases "state rf \<noteq> Leader \<or> currentTerm rf \<noteq> hbTerm hb")
  case True
  then show ?thesis using assms by (auto simp: heartbeatSend_def)
next
  case False
  then obtain nxt where nxt: "goindex (nextIndex rf) (int j) = Some nxt"
    using assms(1) by (auto simp: heartbeatSend_def split: bind_splits)
  then have "nxt \<in> set (nextIndex rf)" by (auto simp: goindex_Some_iff)
  then have "1 \<le> nxt" using assms(2) False by (simp add: plain_def)
  then show ?thesis using assms False nxt by (auto simp: heartbeatSend_def Let_def)
qed

lemma in_remove1: "x \<in> set (remove1 y xs) \<Longrightarrow> x \<in> set xs"
  using set_remove1_subset by fastforce

lemma plain_cluster_upd:
  assumes "plain_cluster n s" "plain rf'" "\<forall>c \<in> set cs. plain_call c \<or> c \<in> set (calls s)"
    "nodes t = (nodes s)(i := rf')" "calls t = cs"
  shows "plain_cluster n t"
  using assms by (auto simp: plain_cluster_def)

lemma plain_cluster_step:
  assumes "cstep n False s t" "cluster_inv n s" "plain_cluster n s"
  shows "plain_cluster n t"
proof -
  note up = plain_cluster_upd [OF assms(3)]
  have node: "plain (nodes s i)" if "i < n" for i using assms(3) that by (simp add: plain_cluster_def)
  have call: "plain_call c" if "c \<in> set (calls s)" for c using assms(3) that by (simp add: plain_cluster_def)
  note mem = pool_member [OF assms(2)]
  have dur: "durable (nodes s i)" if "i < n" for i
    using assms(2) that by (simp add: cluster_inv_def nodes_inv_def node_ok_def)
  from assms(1) show ?thesis
  proof cases
    case (tick i now rnd)
    then show ?thesis using assms(3) by (simp add: plain_cluster_def)
  next
    case (elect i now rf' args)
    then show ?thesis using node plain_startElection [of now "nodes s i"]
      by (intro up [of rf' "calls t" t i]) (auto simp: voteCalls_def)
  next
    case (recv_vote i e j args now rf' reply)
    then show ?thesis using node mem(2) [of "VoteReq i e j args"] plain_RequestVote [of now args "nodes s j"]
      by (intro up [of rf' "calls t" t j]) (auto dest: in_remove1)
  next
    case (vote_reply i e j args reply rf' v' w')
    then show ?thesis
      using node mem(1) [of "VoteRep i e j args reply"] plain_handleVoteReply [of args reply "nodes s i"]
      by (intro up [of rf' "calls t" t i]) (auto dest: in_remove1)
  next
    case (lose c)
    then show ?thesis using assms(3) by (auto simp: plain_cluster_def dest: in_remove1)
  next
    case (hb_begin i hb srvs)
    then have "hbSnapshot hb = []" using node by (auto simp: heartbeatBegin_def plain_def split: if_splits)
    then show ?thesis using hb_begin assms(3) by (auto simp: plain_cluster_def)
  next
    case (hb_send i e j hb act)
    have "plain (nodes s i)" "hbSnapshot hb = []"
      using node mem(1) [OF hb_send(2)] call [OF hb_send(2)] by simp_all
    then show ?thesis using hb_send plain_heartbeatSend [OF hb_send(4)] assms(3)
      by (auto simp: plain_cluster_def dest: in_remove1)
  next
    case (recv_append i e j aargs now rf' areply)
    then show ?thesis
      using node mem(2) [of "AppReq i e j aargs"] plain_AppendEntries [of now aargs "nodes s j"] call [OF recv_append(2)]
      by (intro up [of rf' "calls t" t j]) (auto dest: in_remove1)
  next
    case (append_reply i e j aargs areply rf')
    then show ?thesis
      using node mem(1) [of "AppRep i e j aargs areply"] call [OF append_reply(2)]
        plain_handleAppendReply [of j aargs areply "nodes s i"]
      by (intro up [of rf' "calls t" t i]) (auto dest: in_remove1)
  next
    case (recv_install i e j iargs now rf' ireply msg)
    then show ?thesis using call [OF recv_install(2)] by simp
  next
    case (install_reply i e j iargs ireply rf')
    then show ?thesis using call [OF install_reply(2)] by simp
  next
    case (start i cmd rf' idx trm ok)
    then show ?thesis using node plain_Start [of cmd "nodes s i"] by (intro up [of rf' "calls t" t i]) auto
  next
    case (commit i rf')
    then show ?thesis using node plain_updateCommitIndex [of "nodes s i"] by (intro up [of rf' "calls t" t i]) auto
  next
    case (apply_msgs i rf' msgs)
    then show ?thesis using node plain_applyCommitted [of "nodes s i"] by (intro up [of rf' "calls t" t i]) auto
  next
    case (restart i now)
    then show ?thesis using plain_restart [OF dur node] by (intro up [of "nodes t i" "calls t" t i]) auto
  next
    case (crash_in_handler i u now)
    have "plain (stepDown u (nodes s i))" using node crash_in_handler(2) by (simp add: plain_def)
    from plain_restart [OF stepDown_durable this refl] show ?thesis using crash_in_handler
      by (intro up [of "nodes t i" "calls t" t i]) auto
  qed simp
qed

lemma reachable_plain: "reachable n False s \<Longrightarrow> plain_cluster n s"
proof (induction rule: reachable.induct)
  case (reach_init t0)
  show ?case
    by (simp add: plain_cluster_def init_cluster_def plain_def Make_def readPersist_def newRaft_def sentinel_def)
next
  case (reach_step s t)
  then show ?case using plain_cluster_step reachable_cluster_inv by blast
qed

subsection \<open>Good logs\<close>

type_synonym 'c leaderlogs = "int \<Rightarrow> 'c LogEntry list option"

definition good :: "'c leaderlogs \<Rightarrow> 'c LogEntry list \<Rightarrow> bool" where
  "good ll L \<longleftrightarrow> L \<noteq> [] \<and> L ! 0 = sentinel \<and>
     (\<forall>k. 0 < k \<and> k < length L \<longrightarrow>
        (\<exists>LL. ll (eTerm (L ! k)) = Some LL \<and> k < length LL \<and> take (Suc k) L = take (Suc k) LL))"

lemma goodD:
  assumes "good ll L" "0 < k" "k < length L"
  shows "\<exists>LL. ll (eTerm (L ! k)) = Some LL \<and> k < length LL \<and> take (Suc k) L = take (Suc k) LL"
  using assms by (simp add: good_def)

lemma take_nth_eq: "take m L = take m M \<Longrightarrow> k < m \<Longrightarrow> L ! k = M ! k"
  by (metis nth_take)

text \<open>Two good logs that have the same term at an index agree up to that index.\<close>

lemma good_match:
  assumes "good ll L" "good ll M" "k < length L" "k < length M" "eTerm (L ! k) = eTerm (M ! k)"
  shows "take (Suc k) L = take (Suc k) M"
proof (cases k)
  case 0
  then show ?thesis using assms(1-4) by (cases L; cases M) (simp_all add: good_def)
next
  case (Suc m)
  then have "0 < k" by simp
  from goodD [OF assms(1) this assms(3)] goodD [OF assms(2) this assms(4)] assms(5) show ?thesis by auto
qed

lemma good_take:
  assumes "good ll L" "0 < m"
  shows "good ll (take m L)"
proof -
  have "\<exists>LL. ll (eTerm (take m L ! k)) = Some LL \<and> k < length LL \<and> take (Suc k) (take m L) = take (Suc k) LL"
    if "0 < k" "k < length (take m L)" for k
  proof -
    have "k < m" "k < length L" "min (Suc k) m = Suc k" using that by auto
    then show ?thesis using goodD [OF assms(1) that(1)] by simp
  qed
  then show ?thesis using assms by (simp add: good_def)
qed

text \<open>The logs of the leaders only grow, each by entries of its own term.\<close>

definition extends :: "'c leaderlogs \<Rightarrow> 'c leaderlogs \<Rightarrow> bool" where
  "extends ll ll' \<longleftrightarrow> (\<forall>T LL. ll T = Some LL \<longrightarrow> (\<exists>xs. ll' T = Some (LL @ xs) \<and> (\<forall>e \<in> set xs. eTerm e = T)))"

lemma extends_refl [simp]: "extends ll ll"
  by (auto simp: extends_def)

lemma good_extends:
  assumes "good ll L" "extends ll ll'"
  shows "good ll' L"
proof -
  have "\<exists>LL. ll' (eTerm (L ! k)) = Some LL \<and> k < length LL \<and> take (Suc k) L = take (Suc k) LL"
    if k: "0 < k" "k < length L" for k
  proof -
    obtain LL where 1: "ll (eTerm (L ! k)) = Some LL" "k < length LL" "take (Suc k) L = take (Suc k) LL"
      using goodD [OF assms(1) k] by blast
    then obtain xs where "ll' (eTerm (L ! k)) = Some (LL @ xs)" using assms(2) unfolding extends_def by blast
    then show ?thesis using 1 by auto
  qed
  then show ?thesis using assms(1) by (simp add: good_def)
qed

text \<open>
  The merge of a request into a log: it leaves the log as it is when the entries are all there, and
  otherwise makes it the part of the leader's log the request covers. In no case it loses what the log had in
  common with the leader's log.
\<close>

lemma mergeLog_result:
  assumes "take p L = take p LL" "p \<le> length L" "p + e \<le> length LL"
    and "\<And>q. q < length L \<Longrightarrow> q < length LL \<Longrightarrow> eTerm (L ! q) = eTerm (LL ! q) \<Longrightarrow> L ! q = LL ! q"
  shows "let L' = take p L @ mergeLog (drop p L) (take e (drop p LL)) in
    L' = L \<and> p + e \<le> length L \<and> take (p + e) L = take (p + e) LL \<or>
    L' = take (p + e) LL \<and> \<not> (p + e \<le> length L \<and> take (p + e) L = take (p + e) LL)"
  using assms(1-3)
proof (induction e arbitrary: p)
  case 0
  have "take p L @ drop p L = L" by simp
  then show ?case using 0 by (simp del: append_take_drop_id)
next
  case (Suc e)
  have d: "take (Suc e) (drop p LL) = LL ! p # take e (drop (Suc p) LL)"
    using Suc.prems by (simp add: Cons_nth_drop_Suc [symmetric])
  have whole: "take p LL @ take (Suc e) (drop p LL) = take (p + Suc e) LL"
    by (rule take_add [symmetric])
  show ?case
  proof (cases "p = length L")
    case True
    then show ?thesis using Suc.prems whole d by (simp add: Let_def)
  next
    case False
    with Suc.prems have p: "p < length L" "p < length LL" by simp_all
    then have dl: "drop p L = L ! p # drop (Suc p) L" by (simp add: Cons_nth_drop_Suc)
    show ?thesis
    proof (cases "eTerm (L ! p) = eTerm (LL ! p)")
      case True
      then have eq: "L ! p = LL ! p" using assms(4) p by blast
      then have "take (Suc p) L = take (Suc p) LL" using Suc.prems p by (simp add: take_Suc_conv_app_nth)
      from Suc.IH [OF this] p Suc.prems
      have "let L' = take (Suc p) L @ mergeLog (drop (Suc p) L) (take e (drop (Suc p) LL)) in
        L' = L \<and> Suc p + e \<le> length L \<and> take (Suc p + e) L = take (Suc p + e) LL \<or>
        L' = take (Suc p + e) LL \<and> \<not> (Suc p + e \<le> length L \<and> take (Suc p + e) L = take (Suc p + e) LL)"
        by simp
      moreover have "take p L @ mergeLog (drop p L) (take (Suc e) (drop p LL)) =
          take (Suc p) L @ mergeLog (drop (Suc p) L) (take e (drop (Suc p) LL))"
        unfolding d dl using True p by (simp add: take_Suc_conv_app_nth)
      ultimately show ?thesis by (simp add: Let_def)
    next
      case ne: False
      then have "take p L @ mergeLog (drop p L) (take (Suc e) (drop p LL)) = take (p + Suc e) LL"
        unfolding d dl using whole d Suc.prems(1) by simp
      moreover have "take (p + Suc e) L \<noteq> take (p + Suc e) LL"
        using ne take_nth_eq [of "p + Suc e" L LL p] by auto
      ultimately show ?thesis by (simp add: Let_def)
    qed
  qed
qed

lemma merge_keeps:
  assumes "L' = L \<and> m \<le> length L \<and> take m L = take m LL \<or>
      L' = take m LL \<and> \<not> (m \<le> length L \<and> take m L = take m LL)"
    and "m \<le> length LL" "take k L = take k LL" "k \<le> length L" "k \<le> length LL"
  shows "take k L' = take k LL \<and> k \<le> length L'"
proof (cases "k \<le> m")
  case True
  then show ?thesis using assms by (auto simp: min_def)
next
  case False
  then have "take m L = take m LL" using arg_cong [OF assms(3), of "take m"] by (simp add: min_def)
  then show ?thesis using assms False by auto
qed

subsection \<open>The log invariant\<close>

definition sent :: "'c leaderlogs \<Rightarrow> 'c AppendEntriesArgs \<Rightarrow> bool" where
  "sent ll a \<longleftrightarrow> (\<exists>LL p. ll (aeTerm a) = Some LL \<and> PrevLogIndex a = int p \<and>
     (p + length (Entries a) < length LL \<and> PrevLogTerm a = eTerm (LL ! p) \<and>
        Entries a = take (length (Entries a)) (drop (Suc p) LL) \<or>
      Entries a = [] \<and> PrevLogTerm a = 0 \<and> 0 < p))"

fun sent_call :: "'c leaderlogs \<Rightarrow> 'c call \<Rightarrow> bool" where
  "sent_call ll (AppReq i e j a) = sent ll a"
| "sent_call ll (AppRep i e j a r) = sent ll a"
| "sent_call ll _ = True"

definition log_inv :: "nat \<Rightarrow> 'c cluster \<Rightarrow> 'c leaderlogs \<Rightarrow> bool" where
  "log_inv n s ll \<longleftrightarrow>
     (\<forall>i<n. good ll (log (nodes s i)) \<and> (\<forall>e \<in> set (log (nodes s i)). eTerm e \<le> currentTerm (nodes s i))) \<and>
     (\<forall>T LL. ll T = Some LL \<longrightarrow> good ll LL \<and> (\<forall>e \<in> set LL. eTerm e \<le> T) \<and> 1 \<le> T \<and> (\<exists>i. (T, i) \<in> leaders s)) \<and>
     (\<forall>i<n. state (nodes s i) = Leader \<longrightarrow> ll (currentTerm (nodes s i)) = Some (log (nodes s i))) \<and>
     (\<forall>T i. (T, i) \<in> leaders s \<longrightarrow> ll T \<noteq> None \<and>
        (T < currentTerm (nodes s i) \<or> T = currentTerm (nodes s i) \<and> state (nodes s i) \<noteq> Candidate)) \<and>
     (\<forall>i<n. state (nodes s i) = Candidate \<longrightarrow> 1 \<le> currentTerm (nodes s i)) \<and>
     (\<forall>c \<in> set (calls s). sent_call ll c)"

lemma log_invD:
  assumes "log_inv n s ll"
  shows "i < n \<Longrightarrow> good ll (log (nodes s i))"
    and "i < n \<Longrightarrow> e \<in> set (log (nodes s i)) \<Longrightarrow> eTerm e \<le> currentTerm (nodes s i)"
    and "ll T = Some LL \<Longrightarrow> good ll LL \<and> (\<forall>e \<in> set LL. eTerm e \<le> T) \<and> 1 \<le> T \<and> (\<exists>i. (T, i) \<in> leaders s)"
    and "i < n \<Longrightarrow> state (nodes s i) = Leader \<Longrightarrow> ll (currentTerm (nodes s i)) = Some (log (nodes s i))"
    and "(T, i) \<in> leaders s \<Longrightarrow> ll T \<noteq> None"
    and "(T, i) \<in> leaders s \<Longrightarrow> T < currentTerm (nodes s i) \<or> T = currentTerm (nodes s i) \<and> state (nodes s i) \<noteq> Candidate"
    and "i < n \<Longrightarrow> state (nodes s i) = Candidate \<Longrightarrow> 1 \<le> currentTerm (nodes s i)"
    and "c \<in> set (calls s) \<Longrightarrow> sent_call ll c"
  using assms unfolding log_inv_def by blast+

lemma sent_extends:
  assumes "sent ll a" "extends ll ll'"
  shows "sent ll' a"
proof -
  obtain LL p where 1: "ll (aeTerm a) = Some LL" "PrevLogIndex a = int p"
     "p + length (Entries a) < length LL \<and> PrevLogTerm a = eTerm (LL ! p) \<and>
        Entries a = take (length (Entries a)) (drop (Suc p) LL) \<or>
      Entries a = [] \<and> PrevLogTerm a = 0 \<and> 0 < p"
    using assms(1) by (auto simp: sent_def)
  then obtain xs where "ll' (aeTerm a) = Some (LL @ xs)" using assms(2) unfolding extends_def by blast
  then show ?thesis using 1 by (auto simp: sent_def nth_append)
qed

lemma sent_call_extends: "sent_call ll c \<Longrightarrow> extends ll ll' \<Longrightarrow> sent_call ll' c"
  by (cases c) (auto intro: sent_extends)

text \<open>A step of a server that does not lead afterwards, or leads on with the same log.\<close>

lemma log_inv_frame:
  assumes inv: "log_inv n s ll" and i: "i < n"
    and lg: "good ll (log rf')" "\<forall>e \<in> set (log rf'). eTerm e \<le> currentTerm rf'"
    and ev: "currentTerm (nodes s i) \<le> currentTerm rf'"
      "state rf' = Leader \<Longrightarrow> state (nodes s i) = Leader \<and> currentTerm rf' = currentTerm (nodes s i) \<and> log rf' = log (nodes s i)"
      "state rf' = Candidate \<Longrightarrow> currentTerm (nodes s i) < currentTerm rf' \<or>
         state (nodes s i) = Candidate \<and> currentTerm rf' = currentTerm (nodes s i)"
      "0 \<le> currentTerm (nodes s i)"
    and t: "nodes t = (nodes s)(i := rf')" "leaders t = leaders s"
      "\<forall>c \<in> set (calls t). sent_call ll c \<or> c \<in> set (calls s)"
  shows "log_inv n t ll"
proof -
  note D = log_invD [OF inv]
  have "T < currentTerm (nodes t k) \<or> T = currentTerm (nodes t k) \<and> state (nodes t k) \<noteq> Candidate"
    if "(T, k) \<in> leaders s" for T k
    using D(6) [OF that] ev t(1) by (cases "k = i") auto
  moreover have "1 \<le> currentTerm (nodes t k)" if "k < n" "state (nodes t k) = Candidate" for k
    using D(7) [of k] that ev(1,3,4) t(1) by (cases "k = i") auto
  moreover have "sent_call ll c" if "c \<in> set (calls t)" for c using D(8) t(3) that by blast
  moreover have "ll (currentTerm (nodes t k)) = Some (log (nodes t k))" if "k < n" "state (nodes t k) = Leader" for k
    using D(4) [of k] that ev(2) t(1) by (cases "k = i") auto
  moreover have "good ll (log (nodes t k)) \<and> (\<forall>e \<in> set (log (nodes t k)). eTerm e \<le> currentTerm (nodes t k))"
    if "k < n" for k using D(1,2) [of k] lg t(1) that by (cases "k = i") auto
  ultimately show ?thesis using D(3,5) t(2) unfolding log_inv_def by simp
qed

text \<open>A step in which server \<open>i\<close> leads afterwards, with its log as the new log of the leader of its term.\<close>

lemma log_inv_lead:
  assumes inv: "log_inv n s ll" and i: "i < n"
    and ex: "extends ll ll'" "ll' = ll(currentTerm rf' \<mapsto> log rf')" and lg: "good ll' (log rf')" "\<forall>e \<in> set (log rf'). eTerm e \<le> currentTerm rf'"
    and ev: "currentTerm rf' = currentTerm (nodes s i)" "state rf' = Leader" "1 \<le> currentTerm rf'"
    and t: "nodes t = (nodes s)(i := rf')" "leaders t = insert (currentTerm rf', i) (leaders s)"
      "set (calls t) \<subseteq> set (calls s)"
    and unique: "\<And>k. k < n \<Longrightarrow> k \<noteq> i \<Longrightarrow> \<not> (state (nodes s k) = Leader \<and> currentTerm (nodes s k) = currentTerm rf')"
  shows "log_inv n t ll'"
proof -
  note D = log_invD [OF inv]
  let ?T = "currentTerm rf'"
  have "ll' T \<noteq> None \<and> (T < currentTerm (nodes t k) \<or> T = currentTerm (nodes t k) \<and> state (nodes t k) \<noteq> Candidate)"
    if "(T, k) \<in> leaders t" for T k
    using D(5,6) [of T k] that ev t(1,2) ex(2) by (cases "k = i") (auto split: if_splits)
  moreover have "1 \<le> currentTerm (nodes t k)" if "k < n" "state (nodes t k) = Candidate" for k
    using D(7) [of k] that ev t(1) by (cases "k = i") auto
  moreover have "sent_call ll' c" if "c \<in> set (calls t)" for c
    using D(8) t(3) that sent_call_extends [OF _ ex(1)] by blast
  moreover have "ll' (currentTerm (nodes t k)) = Some (log (nodes t k))" if "k < n" "state (nodes t k) = Leader" for k
    using D(4) [of k] that unique [of k] t(1) ex(2) by (cases "k = i") auto
  moreover have "good ll' (log (nodes t k)) \<and> (\<forall>e \<in> set (log (nodes t k)). eTerm e \<le> currentTerm (nodes t k))"
    if "k < n" for k using D(1,2) [of k] lg t(1) that good_extends [OF _ ex(1)] by (cases "k = i") auto
  moreover have "good ll' LL \<and> (\<forall>e \<in> set LL. eTerm e \<le> T) \<and> 1 \<le> T \<and> (\<exists>k. (T, k) \<in> leaders t)" if "ll' T = Some LL" for T LL
    using D(3) [of T LL] that lg ev(3) t(2) ex good_extends [OF _ ex(1)] by (cases "T = ?T") auto
  ultimately show ?thesis unfolding log_inv_def by simp
qed

subsection \<open>Accepting entries\<close>

lemma AppendEntries_plain:
  assumes "AppendEntries now a rf = Some (rf', reply)" "snapshotIndex rf = 0"
  shows "Success reply \<Longrightarrow> currentTerm rf \<le> aeTerm a \<and> currentTerm rf' = aeTerm a \<and> state rf' = Follower \<and>
      0 \<le> PrevLogIndex a \<and> PrevLogIndex a < int (length (log rf)) \<and>
      eTerm (log rf ! nat (PrevLogIndex a)) = PrevLogTerm a \<and>
      log rf' = take (Suc (nat (PrevLogIndex a))) (log rf) @
        mergeLog (drop (Suc (nat (PrevLogIndex a))) (log rf)) (Entries a)"
    and "\<not> Success reply \<Longrightarrow> log rf' = log rf \<and> commitIndex rf' = commitIndex rf"
    and "lastApplied rf' = lastApplied rf"
    and "state rf' \<noteq> Leader \<or> currentTerm rf' = currentTerm rf \<and> state rf = Leader \<and> log rf' = log rf"
    and "state rf' = Candidate \<Longrightarrow> state rf = Candidate \<and> currentTerm rf' = currentTerm rf"
    and "Success reply \<Longrightarrow> commitIndex rf' = (if commitIndex rf < LeaderCommit a
      then min (PrevLogIndex a + int (length (Entries a))) (LeaderCommit a) else commitIndex rf)"
proof -
  note d = assms(1) [unfolded AppendEntries_def Let_def]
  show "\<not> Success reply \<Longrightarrow> log rf' = log rf \<and> commitIndex rf' = commitIndex rf"
    using d by (auto split: if_splits bind_splits)
  show "lastApplied rf' = lastApplied rf" using d by (auto split: if_splits bind_splits)
  show "state rf' \<noteq> Leader \<or> currentTerm rf' = currentTerm rf \<and> state rf = Leader \<and> log rf' = log rf"
    using d by (auto split: if_splits bind_splits)
  show "state rf' = Candidate \<Longrightarrow> state rf = Candidate \<and> currentTerm rf' = currentTerm rf"
    using d by (auto split: if_splits bind_splits)
  show "Success reply \<Longrightarrow> commitIndex rf' = (if commitIndex rf < LeaderCommit a
      then min (PrevLogIndex a + int (length (Entries a))) (LeaderCommit a) else commitIndex rf)"
    using d by (auto simp: min_def split: if_splits bind_splits)
  assume ok: "Success reply"
  have "currentTerm rf \<le> aeTerm a \<and> currentTerm rf' = aeTerm a \<and> state rf' = Follower \<and>
      0 \<le> PrevLogIndex a \<and> PrevLogIndex a < int (length (log rf)) \<and>
      eTerm (log rf ! nat (PrevLogIndex a)) = PrevLogTerm a \<and>
      log rf' = appendLoop (log rf) (Suc (nat (PrevLogIndex a))) (Entries a)"
    using d ok assms(2) by (auto simp: nat_add_distrib split: if_splits bind_splits)
  moreover from this have "Suc (nat (PrevLogIndex a)) \<le> length (log rf)" by linarith
  ultimately show "currentTerm rf \<le> aeTerm a \<and> currentTerm rf' = aeTerm a \<and> state rf' = Follower \<and>
      0 \<le> PrevLogIndex a \<and> PrevLogIndex a < int (length (log rf)) \<and>
      eTerm (log rf ! nat (PrevLogIndex a)) = PrevLogTerm a \<and>
      log rf' = take (Suc (nat (PrevLogIndex a))) (log rf) @
        mergeLog (drop (Suc (nat (PrevLogIndex a))) (log rf)) (Entries a)"
    using appendLoop_mergeLog [of "Suc (nat (PrevLogIndex a))" "log rf" "Entries a"] by simp
qed

text \<open>
  What an accepted request makes of a good log, in terms of the log \<open>LL\<close> of the leader that
  sent it: the log agrees with \<open>LL\<close> up to the last index \<open>m - 1\<close> that the request covers.
\<close>

definition merged :: "'c LogEntry list \<Rightarrow> nat \<Rightarrow> 'c LogEntry list \<Rightarrow> 'c LogEntry list \<Rightarrow> bool" where
  "merged LL m L L' \<longleftrightarrow>
     L' = L \<and> m \<le> length L \<and> take m L = take m LL \<or>
     L' = take m LL \<and> \<not> (m \<le> length L \<and> take m L = take m LL)"

lemma merged_agrees: "merged LL m L L' \<Longrightarrow> m \<le> length LL \<Longrightarrow> take m L' = take m LL \<and> m \<le> length L'"
  by (auto simp: merged_def)

lemma merged_keeps:
  "merged LL m L L' \<Longrightarrow> m \<le> length LL \<Longrightarrow> take k L = take k LL \<Longrightarrow> k \<le> length L \<Longrightarrow> k \<le> length LL \<Longrightarrow>
     take k L' = take k LL \<and> k \<le> length L'"
  unfolding merged_def by (rule merge_keeps)

lemma good_positive:
  assumes "log_inv n s ll" "good ll L" "0 < k" "k < length L"
  shows "1 \<le> eTerm (L ! k)"
  using goodD [OF assms(2-4)] log_invD(3) [OF assms(1)] by blast

lemma accept_merged:
  assumes ae: "AppendEntries now a rf = Some (rf', reply)" "Success reply"
    and inv: "log_inv n s ll" "good ll (log rf)" "sent ll a" "snapshotIndex rf = 0"
  shows "\<exists>LL m. ll (aeTerm a) = Some LL \<and> int m = PrevLogIndex a + int (length (Entries a)) + 1 \<and>
    0 < m \<and> m \<le> length LL \<and> merged LL m (log rf) (log rf')"
proof -
  note A = AppendEntries_plain(1) [OF ae(1) inv(4) ae(2)]
  obtain LL p where p: "ll (aeTerm a) = Some LL" "PrevLogIndex a = int p"
    "p + length (Entries a) < length LL \<and> PrevLogTerm a = eTerm (LL ! p) \<and>
        Entries a = take (length (Entries a)) (drop (Suc p) LL) \<or>
      Entries a = [] \<and> PrevLogTerm a = 0 \<and> 0 < p"
    using inv(3) by (auto simp: sent_def)
  let ?L = "log rf"
  have pl: "p < length ?L" "eTerm (?L ! p) = PrevLogTerm a"
    and L': "log rf' = take (Suc p) ?L @ mergeLog (drop (Suc p) ?L) (Entries a)"
    using A p(2) by simp_all
  have "\<not> (PrevLogTerm a = 0 \<and> 0 < p)" using good_positive [OF inv(1,2) _ pl(1)] pl(2) by fastforce
  then have q: "p + length (Entries a) < length LL" "PrevLogTerm a = eTerm (LL ! p)"
    "Entries a = take (length (Entries a)) (drop (Suc p) LL)" using p(3) by auto
  have gLL: "good ll LL" using log_invD(3) [OF inv(1) p(1)] by blast
  have eq: "take (Suc p) ?L = take (Suc p) LL"
    by (rule good_match [OF inv(2) gLL]) (use pl q in simp_all)
  have same: "?L ! q = LL ! q" if "q < length ?L" "q < length LL" "eTerm (?L ! q) = eTerm (LL ! q)" for q
    using take_nth_eq [OF good_match [OF inv(2) gLL that], of q] by simp
  have "merged LL (Suc p + length (Entries a)) ?L (log rf')"
    using mergeLog_result [OF eq, of "length (Entries a)"] pl q same
    unfolding merged_def L' q(3) [symmetric] by (simp add: Let_def)
  then show ?thesis using p q(1)
    by (intro exI [of _ LL] exI [of _ "Suc p + length (Entries a)"]) simp
qed

lemma merged_good:
  assumes "merged LL m L L'" "good ll L" "good ll LL" "0 < m"
  shows "good ll L'"
  using assms good_take [OF assms(3,4)] by (auto simp: merged_def)

lemma heartbeatSend_sent:
  assumes "heartbeatSend hb j rf = Some (HbAppend a)" "plain rf" "ll (currentTerm rf) = Some (log rf)"
  shows "sent ll a \<and> aeTerm a = currentTerm rf \<and> state rf = Leader \<and> hbTerm hb = currentTerm rf \<and>
    LeaderCommit a = hbCommitIndex hb"
proof -
  have l: "state rf = Leader" "currentTerm rf = hbTerm hb"
    using assms(1) by (auto simp: heartbeatSend_def split: if_splits)
  then obtain nxt where nxt: "goindex (nextIndex rf) (int j) = Some nxt"
    using assms(1) by (auto simp: heartbeatSend_def split: bind_splits)
  then have "nxt \<in> set (nextIndex rf)" by (auto simp: goindex_Some_iff)
  then have "1 \<le> nxt" using assms(2) l by (simp add: plain_def)
  then obtain p where p: "nxt = int p + 1" by (metis add.commute nonneg_int_cases diff_add_cancel diff_ge_0_iff_ge)
  have a: "a = \<lparr>aeTerm = hbTerm hb, aeLeaderId = me rf, PrevLogIndex = int p,
      PrevLogTerm = (if p < length (log rf) then eTerm (log rf ! p) else 0),
      Entries = (if Suc p < length (log rf) then drop (Suc p) (log rf) else []),
      LeaderCommit = hbCommitIndex hb\<rparr>"
    using assms(1,2) l nxt by (auto simp: heartbeatSend_def Let_def plain_def p nat_add_distrib split: if_splits)
  have "0 < length (log rf)" using assms(2) by (simp add: plain_def)
  then have "p < length (log rf) \<or> 0 < p" by linarith
  then have "sent ll a"
    using assms(3) l unfolding sent_def a by (intro exI [of _ "log rf"] exI [of _ p]) auto
  then show ?thesis using l by (simp add: a)
qed

subsection \<open>Every step keeps the log invariant\<close>

definition leads :: "'c cluster \<Rightarrow> int \<Rightarrow> nat \<Rightarrow> bool" where
  "leads s T i \<longleftrightarrow> state (nodes s i) = Leader \<and> currentTerm (nodes s i) = T"

definition leaderLog :: "nat \<Rightarrow> 'c cluster \<Rightarrow> 'c leaderlogs \<Rightarrow> 'c leaderlogs" where
  "leaderLog n t ll T =
     (if \<exists>i<n. leads t T i then Some (log (nodes t (LEAST i. i < n \<and> leads t T i))) else ll T)"

lemma leaderLog_eq:
  assumes "\<And>i. i < n \<Longrightarrow> leads t (currentTerm (nodes t i)) i \<Longrightarrow> ll' (currentTerm (nodes t i)) = Some (log (nodes t i))"
    and "\<And>T. \<not> (\<exists>i<n. leads t T i) \<Longrightarrow> ll' T = ll T"
  shows "leaderLog n t ll = ll'"
proof
  fix T
  show "leaderLog n t ll T = ll' T"
  proof (cases "\<exists>i<n. leads t T i")
    case True
    then obtain i where "i < n \<and> leads t T i" by blast
    then have l: "(LEAST i. i < n \<and> leads t T i) < n \<and> leads t T (LEAST i. i < n \<and> leads t T i)" by (rule LeastI)
    then have "currentTerm (nodes t (LEAST i. i < n \<and> leads t T i)) = T" by (simp add: leads_def)
    then have "ll' T = Some (log (nodes t (LEAST i. i < n \<and> leads t T i)))" using assms(1) l by metis
    then show ?thesis using True by (simp add: leaderLog_def)
  qed (auto simp: leaderLog_def assms(2))
qed

lemma leaderLog_same: "log_inv n t ll \<Longrightarrow> leaderLog n t ll = ll"
  by (rule leaderLog_eq) (auto simp: leads_def dest: log_invD(4))

lemma reachable_leads_unique:
  assumes "cluster_inv n s" "i < n" "j < n" "leads s T i" "leads s T j"
  shows "i = j"
proof -
  have "(T, i) \<in> leaders s" "(T, j) \<in> leaders s"
    using assms by (auto simp: cluster_inv_def leaders_inv_def leads_def)
  then show ?thesis using leaders_unique [OF assms(1)] by blast
qed

text \<open>Steps of one server that keep its log and do not make it leader.\<close>

definition quiet :: "'c raft \<Rightarrow> 'c raft \<Rightarrow> bool" where
  "quiet rf rf' \<longleftrightarrow>
     log rf' = log rf \<and> currentTerm rf \<le> currentTerm rf' \<and>
     (state rf' = Leader \<longrightarrow> state rf = Leader \<and> currentTerm rf' = currentTerm rf) \<and>
     (state rf' = Candidate \<longrightarrow> currentTerm rf < currentTerm rf' \<or>
        state rf = Candidate \<and> currentTerm rf' = currentTerm rf)"

lemma quiet_RequestVote: "RequestVote now args rf = Some (rf', reply) \<Longrightarrow> quiet rf rf'"
  by (auto simp: RequestVote_def Let_def quiet_def split: if_splits bind_splits)

lemma quiet_startElection: "startElection now rf = Some (rf', args) \<Longrightarrow> quiet rf rf'"
  by (auto simp: startElection_def Let_def quiet_def split: bind_splits)

lemma quiet_handleAppendReply: "handleAppendReply srv args reply rf = Some rf' \<Longrightarrow> quiet rf rf'"
  by (auto simp: handleAppendReply_def Let_def quiet_def split: if_splits bind_splits)

lemma quiet_updateCommitIndex: "updateCommitIndex rf = Some rf' \<Longrightarrow> quiet rf rf'"
  by (auto simp: updateCommitIndex_def quiet_def dest!: commitLoop_frame split: if_splits)

lemma quiet_applyCommitted: "applyCommitted rf = (rf', msgs) \<Longrightarrow> quiet rf rf'"
  by (auto simp: applyCommitted_def quiet_def dest!: applyLoop_frame)

lemma quiet_restart:
  "durable rf \<Longrightarrow> quiet rf (Make n i (Checkpoint (persister rf)) now)"
  using Make_hardState [of rf n i now] by (simp add: quiet_def hardState_def)

lemma quiet_crash:
  assumes "currentTerm rf < t"
  shows "quiet rf (Make n i (Checkpoint (persister (stepDown t rf))) now)"
  using Make_hardState [OF stepDown_durable, of n i t rf now] assms by (simp add: quiet_def hardState_def)

lemma quiet_vote_reply:
  assumes "handleVoteReply args reply rf cnt = Some (rf', cnt')" "state rf' \<noteq> Leader \<or> state rf = Leader"
  shows "quiet rf rf'"
  using assms
  by (cases cnt) (auto simp: handleVoteReply_def becomeLeader_def Let_def quiet_def split: if_splits bind_splits)

lemma log_inv_quiet:
  assumes "log_inv n s ll" "cluster_inv n s" "i < n" "quiet (nodes s i) rf'"
    and "nodes t = (nodes s)(i := rf')" "leaders t = leaders s"
      "\<forall>c \<in> set (calls t). sent_call ll c \<or> c \<in> set (calls s)"
  shows "log_inv n t ll"
proof -
  note q = assms(4) [unfolded quiet_def]
  show ?thesis
  proof (rule log_inv_frame [OF assms(1,3), of rf'])
    show "good ll (log rf')" using log_invD(1) [OF assms(1,3)] q by simp
    show "\<forall>e \<in> set (log rf'). eTerm e \<le> currentTerm rf'"
      using log_invD(2) [OF assms(1,3)] q order_trans by fastforce
    show "0 \<le> currentTerm (nodes s i)"
      using assms(2,3) by (simp add: cluster_inv_def nodes_inv_def node_ok_def raft_wf_def)
  qed (use q assms(5-7) in blast)+
qed

text \<open>The two steps that change the log of a leader: it is elected, or the service starts a command.\<close>

lemma log_inv_elected:
  assumes inv: "log_inv n s ll" "cluster_inv n s" "cluster_inv n t" and i: "i < n"
    and won: "state (nodes s i) = Candidate" "state rf' = Leader" "currentTerm rf' = currentTerm (nodes s i)"
      "log rf' = log (nodes s i)"
    and t: "nodes t = (nodes s)(i := rf')" "leaders t = insert (currentTerm rf', i) (leaders s)"
      "set (calls t) \<subseteq> set (calls s)"
  shows "log_inv n t (ll(currentTerm rf' \<mapsto> log rf')) \<and> ll (currentTerm rf') = None"
proof -
  note D = log_invD [OF inv(1)]
  let ?T = "currentTerm rf'"
  have none: "ll ?T = None"
  proof (rule ccontr)
    assume "ll ?T \<noteq> None"
    then obtain k where k: "(?T, k) \<in> leaders s" using D(3) by blast
    moreover have "(?T, k) \<in> leaders t" "(?T, i) \<in> leaders t" using k t(2) by simp_all
    ultimately have "k = i" using leaders_unique [OF inv(3)] by blast
    then show False using D(6) [OF k] won by simp
  qed
  then have ex: "extends ll (ll(?T \<mapsto> log rf'))" by (auto simp: extends_def)
  have "log_inv n t (ll(?T \<mapsto> log rf'))"
  proof (rule log_inv_lead [OF inv(1) i ex refl])
    show "good (ll(?T \<mapsto> log rf')) (log rf')" using good_extends [OF D(1) [OF i] ex] won(4) by simp
    show "\<forall>e \<in> set (log rf'). eTerm e \<le> ?T" using D(2) [OF i] won(3,4) by simp
    show "1 \<le> ?T" using D(7) [OF i won(1)] won(3) by simp
    show "\<not> (state (nodes s k) = Leader \<and> currentTerm (nodes s k) = ?T)" if "k < n" for k
      using D(4) [OF that] none by auto
  qed (use won t in simp_all)
  then show ?thesis using none by blast
qed

lemma log_inv_started:
  assumes inv: "log_inv n s ll" "cluster_inv n s" and i: "i < n"
    and led: "state (nodes s i) = Leader" "state rf' = Leader" "currentTerm rf' = currentTerm (nodes s i)"
      "log rf' = log (nodes s i) @ [e]" "eTerm e = currentTerm rf'"
    and t: "nodes t = (nodes s)(i := rf')" "leaders t = leaders s" "set (calls t) \<subseteq> set (calls s)"
  shows "log_inv n t (ll(currentTerm rf' \<mapsto> log rf'))"
proof -
  note D = log_invD [OF inv(1)]
  let ?T = "currentTerm rf'" let ?ll = "ll(currentTerm rf' \<mapsto> log rf')"
  have old: "ll ?T = Some (log (nodes s i))" using D(4) [OF i led(1)] led(3) by simp
  have ex: "extends ll ?ll" using old led(4,5) by (auto simp: extends_def)
  have g: "good ?ll (log (nodes s i))" by (rule good_extends [OF D(1) [OF i] ex])
  have "good ?ll (log rf')"
  proof -
    have "\<exists>LL. ?ll (eTerm (log rf' ! k)) = Some LL \<and> k < length LL \<and> take (Suc k) (log rf') = take (Suc k) LL"
      if "0 < k" "k < length (log rf')" for k
    proof (cases "k < length (log (nodes s i))")
      case True
      then show ?thesis using goodD [OF g that(1) True] led(4) by (simp add: nth_append)
    next
      case False
      then show ?thesis using that led(4,5) by (simp add: nth_append)
    qed
    moreover have "log rf' \<noteq> [] \<and> log rf' ! 0 = sentinel" using g led(4) by (auto simp: good_def nth_append)
    ultimately show ?thesis unfolding good_def by blast
  qed
  moreover have "\<forall>e \<in> set (log rf'). eTerm e \<le> ?T" using D(2) [OF i] led(3-5) by auto
  moreover have "1 \<le> ?T" using D(3) [OF old] by blast
  moreover have "(?T, i) \<in> leaders s" using inv(2) i led(1,3) by (simp add: cluster_inv_def leaders_inv_def)
  moreover have "\<not> (state (nodes s k) = Leader \<and> currentTerm (nodes s k) = ?T)" if "k < n" "k \<noteq> i" for k
    using reachable_leads_unique [OF inv(2) that(1) i, of ?T] that(2) led(1,3) by (auto simp: leads_def)
  ultimately show ?thesis using led t by (intro log_inv_lead [OF inv(1) i ex refl]) (auto simp: insert_absorb)
qed

lemma log_inv_accept:
  assumes inv: "log_inv n s ll" "cluster_inv n s" "plain_cluster n s" and c: "AppReq i e j a \<in> set (calls s)"
    and ae: "AppendEntries now a (nodes s j) = Some (rf', reply)"
    and t: "nodes t = (nodes s)(j := rf')" "leaders t = leaders s"
      "\<forall>c \<in> set (calls t). sent_call ll c \<or> c \<in> set (calls s)"
  shows "log_inv n t ll"
proof -
  have j: "j < n" using pool_member(2) [OF inv(2) c] by simp
  note D = log_invD [OF inv(1)]
  have sn: "snapshotIndex (nodes s j) = 0" using inv(3) j by (simp add: plain_cluster_def plain_def)
  note A = AppendEntries_plain [OF ae sn]
  have ev: "currentTerm (nodes s j) \<le> currentTerm rf'" using AppendEntries_evolves [OF ae] by (simp add: evolves_def)
  have s: "sent ll a" using D(8) [OF c] by simp
  have lg: "good ll (log rf') \<and> (\<forall>e \<in> set (log rf'). eTerm e \<le> currentTerm rf')"
  proof (cases "Success reply")
    case False
    then show ?thesis using A(2) D(1,2) [OF j] ev by fastforce
  next
    case True
    obtain LL m where m: "ll (aeTerm a) = Some LL" "0 < m" "m \<le> length LL" "merged LL m (log (nodes s j)) (log rf')"
      using accept_merged [OF ae True inv(1) D(1) [OF j] s sn] by blast
    have LL: "good ll LL" "\<forall>e \<in> set LL. eTerm e \<le> aeTerm a" using D(3) [OF m(1)] by simp_all
    have "log rf' = log (nodes s j) \<or> set (log rf') \<subseteq> set LL"
      using m(4) set_take_subset [of m LL] by (auto simp: merged_def)
    then show ?thesis using merged_good [OF m(4) D(1) [OF j] LL(1) m(2)] LL(2) A(1) [OF True] D(2) [OF j] ev by fastforce
  qed
  have "0 \<le> currentTerm (nodes s j)"
    using inv(2) j by (simp add: cluster_inv_def nodes_inv_def node_ok_def raft_wf_def)
  then show ?thesis using lg ev A(4,5) t by (intro log_inv_frame [OF inv(1) j, of rf']) auto
qed

lemma leaderLog_upd:
  assumes "log_inv n t (ll(currentTerm rf' \<mapsto> log rf'))" "i < n" "nodes t i = rf'" "state rf' = Leader"
  shows "leaderLog n t ll = ll(currentTerm rf' \<mapsto> log rf')"
proof (rule leaderLog_eq)
  show "(ll(currentTerm rf' \<mapsto> log rf')) (currentTerm (nodes t k)) = Some (log (nodes t k))"
    if "k < n" "leads t (currentTerm (nodes t k)) k" for k
    using log_invD(4) [OF assms(1) that(1)] that(2) by (simp add: leads_def)
  show "(ll(currentTerm rf' \<mapsto> log rf')) T = ll T" if "\<not> (\<exists>k<n. leads t T k)" for T
    using that assms(2-4) by (auto simp: leads_def)
qed

lemma Start_cases:
  assumes "Start cmd rf = (rf', r)"
  shows "rf' = rf \<or> state rf = Leader \<and> state rf' = Leader \<and> currentTerm rf' = currentTerm rf \<and>
    log rf' = log rf @ [\<lparr>eTerm = currentTerm rf, Command = cmd\<rparr>]"
  using assms by (auto simp: Start_def Let_def split: if_splits)

lemma vote_reply_cases:
  assumes "handleVoteReply args reply rf cnt = Some (rf', cnt')"
  shows "quiet rf rf' \<or> state rf = Candidate \<and> state rf' = Leader \<and> currentTerm rf' = currentTerm rf \<and>
    currentTerm rf = rvTerm args \<and> log rf' = log rf"
  using assms
  by (cases cnt) (auto simp: handleVoteReply_def becomeLeader_def Let_def quiet_def split: if_splits bind_splits)

lemma quiet_refl [simp]: "quiet rf rf"
  by (auto simp: quiet_def)

lemma log_inv_step_ex:
  assumes step: "cstep n False s t" and inv: "cluster_inv n s" "plain_cluster n s" "log_inv n s ll"
  shows "log_inv n t ll \<or> (\<exists>i rf'. i < n \<and> nodes t i = rf' \<and> state rf' = Leader \<and>
    log_inv n t (ll(currentTerm rf' \<mapsto> log rf')) \<and> extends ll (ll(currentTerm rf' \<mapsto> log rf')))"
proof -
  note q = log_inv_quiet [OF inv(3,1)]
  have inv': "cluster_inv n t" by (rule cluster_inv_step [OF step inv(1)])
  have node: "plain (nodes s i)" if "i < n" for i using inv(2) that by (simp add: plain_cluster_def)
  have dur: "durable (nodes s i)" if "i < n" for i
    using inv(1) that by (simp add: cluster_inv_def nodes_inv_def node_ok_def)
  note mem = pool_member [OF inv(1)]
  from step show ?thesis
  proof cases
    case (tick i now rnd)
    have "log_inv n t ll" by (rule q [of i "nodes s i"]) (use tick in simp_all)
    then show ?thesis ..
  next
    case (elect i now rf' args)
    have "log_inv n t ll"
      by (rule q [OF elect(2) quiet_startElection [OF elect(4)]]) (use elect(1) in \<open>auto simp: voteCalls_def\<close>)
    then show ?thesis ..
  next
    case (recv_vote i e j args now rf' reply)
    have "log_inv n t ll"
      by (rule q [OF _ quiet_RequestVote [OF recv_vote(3)]])
        (use mem(2) [OF recv_vote(2)] recv_vote(1) in \<open>auto dest: in_remove1\<close>)
    then show ?thesis ..
  next
    case (vote_reply i e j args reply rf' v' w')
    have i: "i < n" using mem(1) [OF vote_reply(2)] by simp
    show ?thesis
    proof (cases "state rf' = Leader \<and> state (nodes s i) = Candidate")
      case True
      have "log_inv n t (ll(currentTerm rf' \<mapsto> log rf')) \<and> ll (currentTerm rf') = None"
        by (rule log_inv_elected [OF inv(3,1) inv' i])
          (use vote_reply True vote_reply_cases [OF vote_reply(4)] in \<open>auto simp: quiet_def dest: in_remove1\<close>)
      then have "i < n \<and> nodes t i = rf' \<and> state rf' = Leader \<and>
          log_inv n t (ll(currentTerm rf' \<mapsto> log rf')) \<and> extends ll (ll(currentTerm rf' \<mapsto> log rf'))"
        using True i vote_reply(1) by (auto simp: extends_def)
      then show ?thesis by blast
    next
      case False
      then have qq: "quiet (nodes s i) rf'" using vote_reply_cases [OF vote_reply(4)] by blast
      have "(currentTerm rf', i) \<in> leaders s" if "state rf' = Leader"
        using that qq inv(1) i by (auto simp: quiet_def cluster_inv_def leaders_inv_def)
      then have "leaders t = leaders s" using vote_reply(1) by (auto simp: insert_absorb)
      then have "log_inv n t ll" by (intro q [OF i qq]) (use vote_reply(1) in \<open>auto dest: in_remove1\<close>)
      then show ?thesis ..
    qed
  next
    case (lose c)
    have "log_inv n t ll"
      by (rule q [OF mem(1) [OF lose(2)] quiet_refl]) (use lose(1) in \<open>auto dest: in_remove1\<close>)
    then show ?thesis ..
  next
    case (hb_begin i hb srvs)
    have "log_inv n t ll" by (rule q [OF hb_begin(2) quiet_refl]) (use hb_begin(1) in auto)
    then show ?thesis ..
  next
    case (hb_send i e j hb act)
    have i: "i < n" using mem(1) [OF hb_send(2)] by simp
    have "sent_call ll d" if "d \<in> set (hbCalls i e j act)" for d
    proof (cases act)
      case (HbAppend a)
      have "state (nodes s i) = Leader" using hb_send(4) HbAppend by (auto simp: heartbeatSend_def split: if_splits)
      then have "sent ll a" using heartbeatSend_sent [OF hb_send(4) [unfolded HbAppend] node [OF i]] log_invD(4) [OF inv(3) i] by blast
      then show ?thesis using that HbAppend by simp
    qed (use that in auto)
    then have "log_inv n t ll" by (intro q [OF i quiet_refl]) (use hb_send(1) in \<open>auto dest: in_remove1\<close>)
    then show ?thesis ..
  next
    case (recv_append i e j aargs now rf' areply)
    have "sent ll aargs" using log_invD(8) [OF inv(3) recv_append(2)] by simp
    then have "log_inv n t ll"
      by (intro log_inv_accept [OF inv(3,1,2) recv_append(2,3)]) (use recv_append(1) in \<open>auto dest: in_remove1\<close>)
    then show ?thesis ..
  next
    case (append_reply i e j aargs areply rf')
    have "log_inv n t ll"
      by (rule q [OF _ quiet_handleAppendReply [OF append_reply(4)]])
        (use mem(1) [OF append_reply(2)] append_reply(1) in \<open>auto dest: in_remove1\<close>)
    then show ?thesis ..
  next
    case (recv_install i e j iargs now rf' ireply msg)
    then show ?thesis using inv(2) by (auto simp: plain_cluster_def)
  next
    case (install_reply i e j iargs ireply rf')
    then show ?thesis using inv(2) by (auto simp: plain_cluster_def)
  next
    case (start i cmd rf' idx trm ok)
    show ?thesis
    proof (cases "rf' = nodes s i")
      case True
      have "log_inv n t ll" by (rule q [OF start(2) quiet_refl]) (use start(1) True in simp_all)
      then show ?thesis ..
    next
      case False
      note c = Start_cases [OF start(3)]
      have "log_inv n t (ll(currentTerm rf' \<mapsto> log rf'))"
        by (rule log_inv_started [OF inv(3,1) start(2), of rf' "\<lparr>eTerm = currentTerm (nodes s i), Command = cmd\<rparr>"])
          (use c False start(1) in auto)
      moreover have "extends ll (ll(currentTerm rf' \<mapsto> log rf'))"
        using c False log_invD(4) [OF inv(3) start(2)] by (auto simp: extends_def)
      ultimately show ?thesis using c False start(1,2) by (intro disjI2 exI [of _ i] exI [of _ rf']) auto
    qed
  next
    case (commit i rf')
    have "log_inv n t ll" by (rule q [OF commit(2) quiet_updateCommitIndex [OF commit(3)]]) (use commit(1) in simp_all)
    then show ?thesis ..
  next
    case (apply_msgs i rf' msgs)
    have "log_inv n t ll" by (rule q [OF apply_msgs(2) quiet_applyCommitted [OF apply_msgs(3)]]) (use apply_msgs(1) in simp_all)
    then show ?thesis ..
  next
    case (restart i now)
    have "log_inv n t ll" by (rule q [OF restart(2) quiet_restart [OF dur [OF restart(2)]]]) (use restart(1) in simp_all)
    then show ?thesis ..
  next
    case (crash_in_handler i u now)
    have "log_inv n t ll"
      by (rule q [OF crash_in_handler(2) quiet_crash [OF crash_in_handler(3)]]) (use crash_in_handler(1) in simp_all)
    then show ?thesis ..
  qed simp
qed

lemma log_inv_step:
  assumes "cstep n False s t" "cluster_inv n s" "plain_cluster n s" "log_inv n s ll"
  shows "log_inv n t (leaderLog n t ll) \<and> extends ll (leaderLog n t ll)"
  using log_inv_step_ex [OF assms] leaderLog_same [of n t ll] leaderLog_upd [of n t ll] by auto

subsection \<open>Runs with their history\<close>

text \<open>
  What a run remembers besides the leaders' logs: \<open>cl\<close> the log a candidate had when its election
  started, \<open>vl\<close> the log a voter had when it granted its vote, and \<open>acks\<close> the triples of a
  server, a term and an index up to which the server, while in that term, agreed with the log of
  the term's leader.
\<close>

record 'c hist =
  ll :: "'c leaderlogs"
  cl :: "int \<times> nat \<Rightarrow> 'c LogEntry list"
  vl :: "int \<times> nat \<Rightarrow> 'c LogEntry list"
  acks :: "(nat \<times> int \<times> nat) set"

definition holds :: "'c LogEntry list \<Rightarrow> nat \<Rightarrow> 'c LogEntry list \<Rightarrow> bool" where
  "holds LL k L \<longleftrightarrow> k < length LL \<and> k < length L \<and> take (Suc k) L = take (Suc k) LL"

definition remember :: "nat \<Rightarrow> 'c cluster \<Rightarrow> 'c cluster \<Rightarrow> 'c hist \<Rightarrow> 'c hist" where
  "remember n s t h =
     (let ll' = leaderLog n t (ll h) in
      \<lparr>ll = ll',
       cl = (\<lambda>(T, i). if currentTerm (nodes s i) < T \<and> currentTerm (nodes t i) = T \<and> state (nodes t i) = Candidate
              then log (nodes t i) else cl h (T, i)),
       vl = (\<lambda>(T, j). if \<exists>c. (T, j, c) \<in> granted t - granted s then log (nodes t j) else vl h (T, j)),
       acks = acks h \<union> {(j, T, k). j < n \<and> currentTerm (nodes t j) = T \<and>
                (\<exists>LL. ll' T = Some LL \<and> holds LL k (log (nodes t j)))}\<rparr>)"

inductive hreach :: "nat \<Rightarrow> 'c cluster \<Rightarrow> 'c hist \<Rightarrow> bool" for n where
  h_init: "hreach n (init_cluster n t0) \<lparr>ll = (\<lambda>_. None), cl = (\<lambda>_. []), vl = (\<lambda>_. []), acks = {}\<rparr>"
| h_step: "hreach n s h \<Longrightarrow> cstep n False s t \<Longrightarrow> hreach n t (remember n s t h)"

lemma hreach_reachable: "hreach n s h \<Longrightarrow> reachable n False s"
  by (induction rule: hreach.induct) (auto intro: reachable.intros)

lemma reachable_hreach: "reachable n False s \<Longrightarrow> \<exists>h. hreach n s h"
proof (induction rule: reachable.induct)
  case (reach_init t0)
  show ?case using h_init by blast
next
  case (reach_step s t)
  then show ?case using h_step by blast
qed

lemma remember_ll [simp]: "ll (remember n s t h) = leaderLog n t (ll h)"
  by (simp add: remember_def Let_def)

lemma init_node: "nodes (init_cluster n t0) i = newRaft n (int i) MakePersister (t0 i)"
  by (simp add: init_cluster_def Make_def readPersist_def)

lemma hreach_log_inv: "hreach n s h \<Longrightarrow> log_inv n s (ll h)"
proof (induction rule: hreach.induct)
  case (h_init t0)
  show ?case
    by (auto simp: log_inv_def init_node newRaft_def good_def sentinel_def) (simp_all add: init_cluster_def)
next
  case (h_step s h t)
  then show ?case
    using log_inv_step reachable_cluster_inv reachable_plain hreach_reachable by fastforce
qed



end
