(* ===== verification/RaftVotes.thy ===== *)
theory RaftVotes
  imports RaftLog
begin

text \<open>
  Votes and acknowledgements along a run without snapshots. What a step does to one server; that a vote goes to a
  candidate whose log, at the time its election started, was at least as new as the voter's; and that a server keeps what
  it acknowledged to a leader unless the log of a later leader misses it.
\<close>

subsection \<open>What a step does to one server\<close>

definition elected :: "'c raft \<Rightarrow> 'c raft \<Rightarrow> bool" where
  "elected rf rf' \<longleftrightarrow> state rf = Candidate \<and> state rf' = Leader \<and> currentTerm rf' = currentTerm rf \<and> log rf' = log rf"

definition started :: "'c raft \<Rightarrow> 'c raft \<Rightarrow> bool" where
  "started rf rf' \<longleftrightarrow> state rf = Leader \<and> state rf' = Leader \<and> currentTerm rf' = currentTerm rf \<and>
     (\<exists>e. log rf' = log rf @ [e] \<and> eTerm e = currentTerm rf)"

definition accepted :: "'c leaderlogs \<Rightarrow> 'c raft \<Rightarrow> 'c raft \<Rightarrow> bool" where
  "accepted lls rf rf' \<longleftrightarrow> currentTerm rf \<le> currentTerm rf' \<and> state rf' = Follower \<and>
     (\<exists>LL m. lls (currentTerm rf') = Some LL \<and> m \<le> length LL \<and> merged LL m (log rf) (log rf'))"

lemma AppendEntries_node:
  assumes "log_inv n s lls" "cluster_inv n s" "plain_cluster n s" "AppReq i e j a \<in> set (calls s)"
    and "AppendEntries now a (nodes s j) = Some (rf', reply)"
  shows "quiet (nodes s j) rf' \<or> accepted lls (nodes s j) rf'"
proof -
  have j: "j < n" using pool_member(2) [OF assms(2,4)] by simp
  have sn: "snapshotIndex (nodes s j) = 0" using assms(3) j by (simp add: plain_cluster_def plain_def)
  note A = AppendEntries_plain [OF assms(5) sn]
  have ev: "currentTerm (nodes s j) \<le> currentTerm rf'" using AppendEntries_evolves [OF assms(5)] by (simp add: evolves_def)
  show ?thesis
  proof (cases "Success reply")
    case True
    have "sent lls a" using log_invD(8) [OF assms(1,4)] by simp
    from accept_merged [OF assms(5) True assms(1) log_invD(1) [OF assms(1) j] this sn] A(1) [OF True] ev
    have "accepted lls (nodes s j) rf'" by (auto simp: accepted_def)
    then show ?thesis ..
  next
    case False
    then have "quiet (nodes s j) rf'" using A(2,4,5) ev by (auto simp: quiet_def)
    then show ?thesis ..
  qed
qed

lemma cstep_node:
  assumes step: "cstep n False s t" and inv: "cluster_inv n s" "plain_cluster n s" "log_inv n s lls" and k: "k < n"
  shows "quiet (nodes s k) (nodes t k) \<or> elected (nodes s k) (nodes t k) \<or> started (nodes s k) (nodes t k) \<or>
    accepted lls (nodes s k) (nodes t k)"
  using step inv
proof (induction rule: cstep.induct)
  case (elect i s now rf' args)
  then show ?case using quiet_startElection [OF elect(3)] by simp
next
  case (recv_vote i e j args s now rf' reply)
  then show ?case using quiet_RequestVote [OF recv_vote(2)] by simp
next
  case (vote_reply i e j args reply s rf' v' w')
  then show ?case using vote_reply_cases [OF vote_reply(3)] by (auto simp: elected_def)
next
  case (recv_append i e j aargs s now rf' areply)
  then show ?case using AppendEntries_node [OF recv_append(5,3,4,1,2)] by auto
next
  case (append_reply i e j aargs areply s rf')
  then show ?case using quiet_handleAppendReply [OF append_reply(3)] by simp
next
  case (recv_install i e j iargs s now rf' ireply msg)
  then show ?case by (auto simp: plain_cluster_def)
next
  case (install_reply i e j iargs ireply s rf')
  then show ?case by (auto simp: plain_cluster_def)
next
  case (start i cmd s rf' idx trm ok)
  then show ?case using Start_cases [OF start(2)] by (auto simp: started_def)
next
  case (commit i s rf')
  then show ?case using quiet_updateCommitIndex [OF commit(2)] by simp
next
  case (apply_msgs i s rf' msgs)
  then show ?case using quiet_applyCommitted [OF apply_msgs(2)] by simp
next
  case (restart i s now)
  then have "durable (nodes s i)" by (simp add: cluster_inv_def nodes_inv_def node_ok_def)
  then show ?case using quiet_restart [of "nodes s i" n "int i" now] by simp
next
  case (crash_in_handler i s t now)
  then show ?case using quiet_crash [OF crash_in_handler(2)] by simp
qed simp_all

lemmas node_change_defs = quiet_def elected_def started_def accepted_def

lemma cstep_log:
  assumes "cstep n False s t" "cluster_inv n s" "plain_cluster n s" "log_inv n s lls" "k < n"
  obtains (same) "log (nodes t k) = log (nodes s k)" | (more) xs where "log (nodes t k) = log (nodes s k) @ xs"
    | (acc) LL m where "lls (currentTerm (nodes t k)) = Some LL" "m \<le> length LL"
        "merged LL m (log (nodes s k)) (log (nodes t k))"
  using cstep_node [OF assms] unfolding node_change_defs by blast

lemma cstep_candidate:
  assumes "cstep n False s t" "cluster_inv n s" "plain_cluster n s" "log_inv n s lls" "k < n" "state (nodes t k) = Candidate"
  shows "log (nodes t k) = log (nodes s k)"
    "currentTerm (nodes s k) < currentTerm (nodes t k) \<or>
       state (nodes s k) = Candidate \<and> currentTerm (nodes t k) = currentTerm (nodes s k)"
  using cstep_node [OF assms(1-5)] assms(6) by (auto simp: node_change_defs)

lemma cstep_term:
  assumes "cstep n False s t" "cluster_inv n s" "k < n"
  shows "currentTerm (nodes s k) \<le> currentTerm (nodes t k)"
  using cstep_evolves [OF assms] by (simp add: evolves_def)

subsection \<open>Holding a prefix of a leader's log\<close>

lemma take_le_eq: "take k xs = take k ys \<Longrightarrow> m \<le> k \<Longrightarrow> take m xs = take m ys"
  by (metis min.absorb1 take_take)

lemma holds_le: "holds LL k L \<Longrightarrow> m \<le> k \<Longrightarrow> holds LL m L"
  using take_le_eq [of "Suc k" L LL "Suc m"] by (simp add: holds_def)

lemma holds_trans: "holds A k B \<Longrightarrow> holds B k C \<Longrightarrow> holds A k C"
  by (simp add: holds_def)

lemma holds_sym: "holds A k B \<Longrightarrow> holds B k A"
  by (simp add: holds_def)

lemma holds_refl: "k < length A \<Longrightarrow> holds A k A"
  by (simp add: holds_def)

lemma holds_append: "holds A k B \<Longrightarrow> holds A k (B @ xs)" "holds A k B \<Longrightarrow> holds (A @ xs) k B"
  by (simp_all add: holds_def)

lemma holds_append_left: "k < length A \<Longrightarrow> holds (A @ xs) k B = holds A k B"
  by (simp add: holds_def)

lemma holds_nth: "holds A k B \<Longrightarrow> m \<le> k \<Longrightarrow> A ! m = B ! m"
  using take_nth_eq [of "Suc k" A B m] by (simp add: holds_def)

lemma holds_merged:
  assumes "holds A k L" "holds A k LL" "merged LL m L L'" "m \<le> length LL"
  shows "holds A k L'"
  using merged_keeps [OF assms(3,4), of "Suc k"] assms(1,2) by (auto simp: holds_def)

lemma merged_holds: "merged LL (Suc k) L L' \<Longrightarrow> Suc k \<le> length LL \<Longrightarrow> holds LL k L'"
  using merged_agrees [of LL "Suc k" L L'] by (simp add: holds_def)


subsection \<open>What the history remembers\<close>

lemma remember_simps:
  "cl (remember n s t h) (T, i) = (if currentTerm (nodes s i) < T \<and> currentTerm (nodes t i) = T \<and>
      state (nodes t i) = Candidate then log (nodes t i) else cl h (T, i))"
  "vl (remember n s t h) (T, j) =
     (if \<exists>c. (T, j, c) \<in> granted t - granted s then log (nodes t j) else vl h (T, j))"
  "(j, T, k) \<in> acks (remember n s t h) \<longleftrightarrow> (j, T, k) \<in> acks h \<or> j < n \<and> currentTerm (nodes t j) = T \<and>
     (\<exists>LL. ll (remember n s t h) T = Some LL \<and> holds LL k (log (nodes t j)))"
  by (simp_all add: remember_def Let_def)

lemma acks_mono: "acks h \<subseteq> acks (remember n s t h)"
  by (auto simp: remember_def Let_def)

text \<open>What every state of a run with its history is known to satisfy, before and after a step.\<close>

lemma hreach_invs:
  assumes "hreach n s h"
  shows "cluster_inv n s" "plain_cluster n s" "log_inv n s (ll h)"
  using reachable_cluster_inv [OF hreach_reachable [OF assms]] reachable_plain [OF hreach_reachable [OF assms]]
    hreach_log_inv [OF assms] by simp_all

lemma hreach_extends:
  assumes "hreach n s h" "cstep n False s t"
  shows "extends (ll h) (ll (remember n s t h))"
  using log_inv_step [OF assms(2) hreach_invs [OF assms(1)]] by simp

lemma cl_stable:
  "T \<le> currentTerm (nodes s i) \<Longrightarrow> cl (remember n s t h) (T, i) = cl h (T, i)"
  by (simp add: remember_simps)

lemma vl_stable:
  assumes "cluster_inv n t" "granted s \<subseteq> granted t" "(T, j, c) \<in> granted s"
  shows "vl (remember n s t h) (T, j) = vl h (T, j)"
proof -
  have "c' = c" if "(T, j, c') \<in> granted t" for c'
    using that assms by (auto simp: cluster_inv_def granted_inv_def)
  then show ?thesis using assms(3) by (auto simp: remember_simps)
qed

lemma granted_mono: "cstep n snaps s t \<Longrightarrow> granted s \<subseteq> granted t"
  by (induction rule: cstep.induct) auto

subsection \<open>Votes go to candidates whose log is at least as new\<close>

definition cand :: "'c hist \<Rightarrow> int \<Rightarrow> nat \<Rightarrow> bool" where
  "cand h T i \<longleftrightarrow> good (ll h) (cl h (T, i)) \<and> (\<forall>e \<in> set (cl h (T, i)). eTerm e < T)"

definition newer :: "'c LogEntry list \<Rightarrow> 'c LogEntry list \<Rightarrow> bool" where
  "newer L M \<longleftrightarrow> eTerm (last M) < eTerm (last L) \<or> eTerm (last L) = eTerm (last M) \<and> length M \<le> length L"

fun voteOf :: "'c call \<Rightarrow> (nat \<times> RequestVoteArgs) option" where
  "voteOf (VoteReq i e j args) = Some (i, args)"
| "voteOf (VoteRep i e j args reply) = Some (i, args)"
| "voteOf _ = None"

definition asks :: "'c cluster \<Rightarrow> 'c hist \<Rightarrow> nat \<Rightarrow> RequestVoteArgs \<Rightarrow> bool" where
  "asks s h i args \<longleftrightarrow> rvTerm args \<le> currentTerm (nodes s i) \<and> cand h (rvTerm args) i \<and>
     LastLogIndex args = int (length (cl h (rvTerm args, i))) - 1 \<and>
     LastLogTerm args = eTerm (last (cl h (rvTerm args, i)))"

definition vote_inv :: "nat \<Rightarrow> 'c cluster \<Rightarrow> 'c hist \<Rightarrow> bool" where
  "vote_inv n s h \<longleftrightarrow>
     (\<forall>i<n. state (nodes s i) = Candidate \<longrightarrow>
        log (nodes s i) = cl h (currentTerm (nodes s i), i) \<and> cand h (currentTerm (nodes s i)) i) \<and>
     (\<forall>c \<in> set (calls s). \<forall>i args. voteOf c = Some (i, args) \<longrightarrow> asks s h i args) \<and>
     (\<forall>T j c. (T, j, c) \<in> granted s \<longrightarrow> c < n \<and> T \<le> currentTerm (nodes s c) \<and> cand h T c \<and>
        good (ll h) (vl h (T, j)) \<and> newer (cl h (T, c)) (vl h (T, j))) \<and>
     (\<forall>T i. (T, i) \<in> leaders s \<longrightarrow> cand h T i \<and>
        (\<exists>xs. ll h T = Some (cl h (T, i) @ xs) \<and> (\<forall>e \<in> set xs. eTerm e = T)))"

lemma vote_invD:
  assumes "vote_inv n s h"
  shows "i < n \<Longrightarrow> state (nodes s i) = Candidate \<Longrightarrow> log (nodes s i) = cl h (currentTerm (nodes s i), i)"
    and "i < n \<Longrightarrow> state (nodes s i) = Candidate \<Longrightarrow> cand h (currentTerm (nodes s i)) i"
    and "c \<in> set (calls s) \<Longrightarrow> voteOf c = Some (i, args) \<Longrightarrow> asks s h i args"
    and "(T, j, d) \<in> granted s \<Longrightarrow> d < n \<and> T \<le> currentTerm (nodes s d) \<and> cand h T d \<and>
        good (ll h) (vl h (T, j)) \<and> newer (cl h (T, d)) (vl h (T, j))"
    and "(T, i) \<in> leaders s \<Longrightarrow> cand h T i \<and>
        (\<exists>xs. ll h T = Some (cl h (T, i) @ xs) \<and> (\<forall>e \<in> set xs. eTerm e = T))"
  using assms unfolding vote_inv_def by blast+

lemma cand_stable:
  "cand h T i \<Longrightarrow> T \<le> currentTerm (nodes s i) \<Longrightarrow> extends (ll h) (ll (remember n s t h)) \<Longrightarrow> cand (remember n s t h) T i"
  unfolding cand_def by (simp add: cl_stable del: remember_ll) (blast intro: good_extends)

lemma cstep_voteOf:
  assumes "cstep n False s t" "c \<in> set (calls t)" "voteOf c = Some (i, args)"
  shows "(\<exists>d \<in> set (calls s). voteOf d = Some (i, args)) \<or>
    i < n \<and> (\<exists>now. startElection now (nodes s i) = Some (nodes t i, args))"
  using assms
proof (induction rule: cstep.induct)
  case (hb_send a e j hb s act)
  then show ?case by (cases act) (auto dest: in_remove1)
next
  case (recv_vote a e j b s now rf' reply)
  then show ?case by (force dest: in_remove1)
qed (auto simp: voteCalls_def dest: in_remove1)

lemma cstep_leaders:
  assumes "cstep n False s t" "cluster_inv n s" "(T, i) \<in> leaders t"
  shows "(T, i) \<in> leaders s \<or> i < n \<and> elected (nodes s i) (nodes t i) \<and> T = currentTerm (nodes t i)"
  using assms
proof (induction rule: cstep.induct)
  case (vote_reply a e j args reply s rf' v' w')
  have a: "a < n" using pool_member(1) [OF vote_reply(4,1)] by simp
  have "(currentTerm rf', a) \<in> leaders s" if "quiet (nodes s a) rf'" "state rf' = Leader"
    using that vote_reply(4) a by (auto simp: quiet_def cluster_inv_def leaders_inv_def)
  then show ?case using vote_reply(5) vote_reply_cases [OF vote_reply(3)] a
    by (auto simp: elected_def split: if_splits)
qed auto

lemma cstep_granted:
  assumes "cstep n False s t" "(T, j, c) \<in> granted t - granted s"
  shows "j = c \<and> c < n \<and> (\<exists>now args. startElection now (nodes s c) = Some (nodes t c, args) \<and> T = rvTerm args) \<or>
    (\<exists>e args now reply. VoteReq c e j args \<in> set (calls s) \<and> T = rvTerm args \<and> VoteGranted reply \<and>
       RequestVote now args (nodes s j) = Some (nodes t j, reply) \<and>
       (\<forall>k. k \<noteq> j \<longrightarrow> nodes t k = nodes s k))"
  using assms
proof (induction rule: cstep.induct)
  case (elect i s now rf' args)
  then show ?case by auto
next
  case (recv_vote i e k args s now rf' reply)
  then show ?case by (auto split: if_splits)
qed auto

lemma startElection_args:
  assumes "startElection now rf = Some (rf', args)" "plain rf"
  shows "log rf' = log rf" "currentTerm rf' = currentTerm rf + 1" "rvTerm args = currentTerm rf + 1"
    "state rf' = Candidate" "LastLogIndex args = int (length (log rf)) - 1" "LastLogTerm args = eTerm (last (log rf))"
  using assms goindex_last [of "log rf"]
  by (auto simp: startElection_def Let_def plain_def lastLogIndex_def split: bind_splits)

lemma RequestVote_newer:
  assumes "RequestVote now args rf = Some (rf', reply)" "VoteGranted reply" "plain rf"
  shows "log rf' = log rf \<and> currentTerm rf' = rvTerm args \<and> (eTerm (last (log rf)) < LastLogTerm args \<or>
    LastLogTerm args = eTerm (last (log rf)) \<and> int (length (log rf)) - 1 \<le> LastLogIndex args)"
  using assms goindex_last [of "log rf"]
  by (auto simp: RequestVote_def Let_def plain_def lastLogIndex_def upToDate_def split: if_splits bind_splits)

lemma vote_inv_candidates:
  assumes h: "hreach n s h" "cstep n False s t" "vote_inv n s h" and i: "i < n" "state (nodes t i) = Candidate"
  shows "log (nodes t i) = cl (remember n s t h) (currentTerm (nodes t i), i) \<and>
    cand (remember n s t h) (currentTerm (nodes t i)) i"
proof -
  let ?T = "currentTerm (nodes t i)" let ?h = "remember n s t h"
  note inv = hreach_invs [OF h(1)]
  have inv': "log_inv n t (ll ?h)" using hreach_invs(3) [OF h_step [OF h(1,2)]] .
  note c = cstep_candidate [OF h(2) inv i]
  show ?thesis
  proof (cases "currentTerm (nodes s i) < ?T")
    case True
    then have "cl ?h (?T, i) = log (nodes t i)" using i(2) by (simp add: remember_simps)
    moreover have "eTerm e < ?T" if "e \<in> set (log (nodes t i))" for e
      using log_invD(2) [OF inv(3) i(1)] that c(1) True by fastforce
    ultimately show ?thesis using log_invD(1) [OF inv' i(1)] by (simp add: cand_def)
  next
    case False
    with c have s: "state (nodes s i) = Candidate" "?T = currentTerm (nodes s i)" by auto
    then show ?thesis
      using vote_invD(1,2) [OF h(3) i(1) s(1)] c(1) cl_stable [of ?T s i] cand_stable [OF _ _ hreach_extends [OF h(1,2)]]
      by simp
  qed
qed

lemma voteOf_caller: "voteOf c = Some (i, args) \<Longrightarrow> caller c = i"
  by (cases c) auto

lemma asks_stable:
  assumes "hreach n s h" "cstep n False s t" "i < n" "asks s h i args"
  shows "asks t (remember n s t h) i args"
  using assms(4) cand_stable [OF _ _ hreach_extends [OF assms(1,2)], of "rvTerm args" i]
    cstep_term [OF assms(2) hreach_invs(1) [OF assms(1)] assms(3)]
  by (simp add: asks_def cl_stable)

lemma asks_elect:
  assumes h: "hreach n s h" "cstep n False s t" "vote_inv n s h" and i: "i < n"
    and el: "startElection now (nodes s i) = Some (nodes t i, args)"
  shows "asks t (remember n s t h) i args"
proof -
  have "plain (nodes s i)" using hreach_invs(2) [OF h(1)] i by (simp add: plain_cluster_def)
  note A = startElection_args [OF el this]
  from vote_inv_candidates [OF h i A(4)] A show ?thesis by (simp add: asks_def)
qed

lemma vote_inv_granted:
  assumes h: "hreach n s h" "cstep n False s t" "vote_inv n s h" and g: "(T, j, c) \<in> granted t"
  shows "c < n \<and> T \<le> currentTerm (nodes t c) \<and> cand (remember n s t h) T c \<and>
    good (ll (remember n s t h)) (vl (remember n s t h) (T, j)) \<and>
    newer (cl (remember n s t h) (T, c)) (vl (remember n s t h) (T, j))"
proof -
  let ?h = "remember n s t h"
  note inv = hreach_invs [OF h(1)]
  note ext = hreach_extends [OF h(1,2)]
  note inv' = hreach_invs [OF h_step [OF h(1,2)]]
  have plain: "plain (nodes s k)" if "k < n" for k using inv(2) that by (simp add: plain_cluster_def)
  show ?thesis
  proof (cases "(T, j, c) \<in> granted s")
    case True
    note D = vote_invD(4) [OF h(3) True]
    have "vl ?h (T, j) = vl h (T, j)" "cl ?h (T, c) = cl h (T, c)"
      using vl_stable [OF inv'(1) granted_mono [OF h(2)] True] cl_stable D by auto
    then show ?thesis using D cand_stable [OF _ _ ext] good_extends [OF _ ext]
        cstep_term [OF h(2) inv(1)] order_trans by metis
  next
    case False
    with g have new: "(T, j, c) \<in> granted t - granted s" by simp
    then have vl: "vl ?h (T, j) = log (nodes t j)" by (auto simp: remember_simps)
    have j: "j < n" using inv'(1) g by (simp add: cluster_inv_def granted_inv_def)
    then have gv: "good (ll ?h) (vl ?h (T, j))" using log_invD(1) [OF inv'(3)] vl by simp
    from cstep_granted [OF h(2) new] show ?thesis
    proof (elim disjE conjE exE)
      fix now args
      assume e: "j = c" "c < n" "startElection now (nodes s c) = Some (nodes t c, args)" "T = rvTerm args"
      note A = startElection_args [OF e(3) plain [OF e(2)]]
      show ?thesis using vote_inv_candidates [OF h e(2) A(4)] A e gv vl by (simp add: newer_def)
    next
      fix e args now reply
      assume r: "VoteReq c e j args \<in> set (calls s)" "T = rvTerm args" "VoteGranted reply"
        "RequestVote now args (nodes s j) = Some (nodes t j, reply)"
      have c: "c < n" using pool_member(1) [OF inv(1) r(1)] by simp
      have a: "asks t ?h c args" using asks_stable [OF h(1,2) c vote_invD(3) [OF h(3) r(1)]] by simp
      note R = RequestVote_newer [OF r(4,3) plain [OF j]]
      have "newer (cl ?h (T, c)) (vl ?h (T, j))" using R a r(2) vl by (auto simp: asks_def newer_def)
      then show ?thesis using a r(2) c gv by (simp add: asks_def)
    qed
  qed
qed

lemma vote_inv_leaders:
  assumes h: "hreach n s h" "cstep n False s t" "vote_inv n s h" and l: "(T, i) \<in> leaders t"
  shows "cand (remember n s t h) T i \<and>
    (\<exists>xs. ll (remember n s t h) T = Some (cl (remember n s t h) (T, i) @ xs) \<and> (\<forall>e \<in> set xs. eTerm e = T))"
proof -
  let ?h = "remember n s t h"
  note inv = hreach_invs [OF h(1)]
  note ext = hreach_extends [OF h(1,2)]
  note inv' = hreach_invs [OF h_step [OF h(1,2)]]
  from cstep_leaders [OF h(2) inv(1) l] show ?thesis
  proof (elim disjE conjE)
    assume old: "(T, i) \<in> leaders s"
    then have T: "T \<le> currentTerm (nodes s i)" using inv(1) by (simp add: cluster_inv_def leaders_inv_def)
    note D = vote_invD(5) [OF h(3) old]
    then obtain xs where xs: "ll h T = Some (cl h (T, i) @ xs)" "\<forall>e \<in> set xs. eTerm e = T" by blast
    then obtain ys where "ll ?h T = Some ((cl h (T, i) @ xs) @ ys)" "\<forall>e \<in> set ys. eTerm e = T"
      using ext unfolding extends_def by blast
    then have "ll ?h T = Some (cl ?h (T, i) @ (xs @ ys)) \<and> (\<forall>e \<in> set (xs @ ys). eTerm e = T)"
      using xs(2) cl_stable [OF T] by auto
    then show ?thesis using cand_stable [OF _ T ext] D by blast
  next
    assume e: "i < n" "elected (nodes s i) (nodes t i)" "T = currentTerm (nodes t i)"
    then have s: "state (nodes s i) = Candidate" "currentTerm (nodes s i) = T" "log (nodes t i) = log (nodes s i)"
      and lead: "state (nodes t i) = Leader" by (auto simp: elected_def)
    have "cl ?h (T, i) = log (nodes t i)" using vote_invD(1) [OF h(3) e(1) s(1)] cl_stable [of T s i] s by simp
    moreover have "cand ?h T i" using vote_invD(2) [OF h(3) e(1) s(1)] cand_stable [OF _ _ ext] s by simp
    moreover have "ll ?h T = Some (log (nodes t i))" using log_invD(4) [OF inv'(3) e(1) lead] e(3) by simp
    ultimately show ?thesis by simp
  qed
qed

lemma hreach_vote_inv: "hreach n s h \<Longrightarrow> vote_inv n s h"
proof (induction rule: hreach.induct)
  case (h_init t0)
  show ?case
    unfolding vote_inv_def init_node newRaft_def by (simp add: init_cluster_def)
next
  case (h_step s h t)
  have "asks t (remember n s t h) i args" if "c \<in> set (calls t)" "voteOf c = Some (i, args)" for c i args
    using cstep_voteOf [OF h_step(2) that]
  proof (elim disjE conjE exE bexE)
    fix d assume d: "d \<in> set (calls s)" "voteOf d = Some (i, args)"
    then have "i < n" using pool_member(1) [OF hreach_invs(1) [OF h_step(1)] d(1)] voteOf_caller [OF d(2)] by simp
    then show ?thesis using asks_stable [OF h_step(1,2)] vote_invD(3) [OF h_step(3) d] by blast
  next
    fix now assume "i < n" "startElection now (nodes s i) = Some (nodes t i, args)"
    then show ?thesis by (rule asks_elect [OF h_step])
  qed
  then show ?case
    using vote_inv_candidates [OF h_step] vote_inv_granted [OF h_step] vote_inv_leaders [OF h_step]
    unfolding vote_inv_def by simp
qed

subsection \<open>What servers acknowledged\<close>

definition lost :: "'c hist \<Rightarrow> int \<Rightarrow> nat \<Rightarrow> int \<Rightarrow> bool" where
  "lost h T k B \<longleftrightarrow> (\<exists>T' LL LL'. T < T' \<and> T' \<le> B \<and> ll h T = Some LL \<and> ll h T' = Some LL' \<and> \<not> holds LL k LL')"

definition kept :: "'c hist \<Rightarrow> int \<Rightarrow> nat \<Rightarrow> 'c LogEntry list \<Rightarrow> int \<Rightarrow> bool" where
  "kept h T k L B \<longleftrightarrow> (\<exists>LL. ll h T = Some LL \<and> k < length LL \<and> holds LL k L) \<or> lost h T k B"

definition ack_inv :: "nat \<Rightarrow> 'c cluster \<Rightarrow> 'c hist \<Rightarrow> bool" where
  "ack_inv n s h \<longleftrightarrow>
     (\<forall>j T k. (j, T, k) \<in> acks h \<longrightarrow> j < n \<and> T \<le> currentTerm (nodes s j) \<and>
        (\<exists>LL. ll h T = Some LL \<and> k < length LL) \<and> kept h T k (log (nodes s j)) (currentTerm (nodes s j))) \<and>
     (\<forall>j T k T' c. (j, T, k) \<in> acks h \<longrightarrow> (T', j, c) \<in> granted s \<longrightarrow> T < T' \<longrightarrow> kept h T k (vl h (T', j)) T') \<and>
     (\<forall>j T k T' i. (j, T, k) \<in> acks h \<longrightarrow> j \<in> tally s (i, T') \<longrightarrow> T < T' \<longrightarrow>
        ll h T' = None \<or> (T', i) \<in> leaders s \<longrightarrow> kept h T k (vl h (T', j)) (T' - 1)) \<and>
     (\<forall>j T k m. (j, T, k) \<in> acks h \<longrightarrow> m \<le> k \<longrightarrow> (j, T, m) \<in> acks h) \<and>
     (\<forall>j<n. \<forall>LL k. ll h (currentTerm (nodes s j)) = Some LL \<longrightarrow> holds LL k (log (nodes s j)) \<longrightarrow>
        (j, currentTerm (nodes s j), k) \<in> acks h)"

lemma ack_invD:
  assumes "ack_inv n s h"
  shows "(j, T, k) \<in> acks h \<Longrightarrow> j < n \<and> T \<le> currentTerm (nodes s j) \<and> (\<exists>LL. ll h T = Some LL \<and> k < length LL)"
    and "(j, T, k) \<in> acks h \<Longrightarrow> kept h T k (log (nodes s j)) (currentTerm (nodes s j))"
    and "(j, T, k) \<in> acks h \<Longrightarrow> (T', j, c) \<in> granted s \<Longrightarrow> T < T' \<Longrightarrow> kept h T k (vl h (T', j)) T'"
    and "(j, T, k) \<in> acks h \<Longrightarrow> j \<in> tally s (i, T') \<Longrightarrow> T < T' \<Longrightarrow>
        ll h T' = None \<or> (T', i) \<in> leaders s \<Longrightarrow> kept h T k (vl h (T', j)) (T' - 1)"
    and "(j, T, k) \<in> acks h \<Longrightarrow> m \<le> k \<Longrightarrow> (j, T, m) \<in> acks h"
    and "j < n \<Longrightarrow> ll h (currentTerm (nodes s j)) = Some LL \<Longrightarrow> holds LL k (log (nodes s j)) \<Longrightarrow>
        (j, currentTerm (nodes s j), k) \<in> acks h"
  using assms unfolding ack_inv_def by blast+

lemma lost_le: "lost h T k B \<Longrightarrow> B \<le> B' \<Longrightarrow> lost h T k B'"
  unfolding lost_def using order_trans by blast

text \<open>A later leader that misses an index misses it for ever: it adds only entries of its own term.\<close>

lemma lost_mono:
  assumes "lost h T k B" "extends (ll h) (ll h')" "log_inv n s (ll h)" "ll h T = Some A" "k < length A" "B \<le> B'"
  shows "lost h' T k B'"
proof -
  obtain T' LL' where T': "T < T'" "T' \<le> B" "ll h T' = Some LL'" "\<not> holds A k LL'"
    using assms(1,4) by (auto simp: lost_def)
  obtain xs where xs: "ll h' T = Some (A @ xs)" using assms(2,4) unfolding extends_def by blast
  obtain ys where ys: "ll h' T' = Some (LL' @ ys)" "\<forall>e \<in> set ys. eTerm e = T'"
    using assms(2) T'(3) unfolding extends_def by blast
  have "\<not> holds A k (LL' @ ys)"
  proof
    assume hd: "holds A k (LL' @ ys)"
    show False
    proof (cases "k < length LL'")
      case True
      then show False using hd T'(4) by (simp add: holds_def)
    next
      case False
      moreover have "k < length LL' + length ys" using hd by (simp add: holds_def)
      ultimately have "(LL' @ ys) ! k \<in> set ys" by (simp add: nth_append less_diff_conv2)
      then have "eTerm (A ! k) = T'" using ys(2) holds_nth [OF hd, of k] by simp
      moreover have "eTerm (A ! k) \<le> T" using log_invD(3) [OF assms(3,4)] assms(5) by simp
      ultimately show False using T'(1) by simp
    qed
  qed
  then have "\<not> holds (A @ xs) k (LL' @ ys)" using assms(5) by (simp add: holds_append_left)
  then show ?thesis unfolding lost_def using T'(1,2) xs ys(1) assms(6) order_trans by blast
qed

lemma kept_mono:
  assumes "kept h T k L B" "extends (ll h) (ll h')" "log_inv n s (ll h)" "\<exists>A. ll h T = Some A \<and> k < length A" "B \<le> B'"
  shows "kept h' T k L B'"
proof (cases "lost h T k B")
  case True
  then show ?thesis using lost_mono [OF True assms(2,3)] assms(4,5) by (auto simp: kept_def)
next
  case False
  then obtain LL where LL: "ll h T = Some LL" "k < length LL" "holds LL k L" using assms(1) by (auto simp: kept_def)
  then obtain xs where "ll h' T = Some (LL @ xs)" using assms(2) unfolding extends_def by blast
  then show ?thesis using LL by (auto simp: kept_def holds_append)
qed

lemma kept_append: "kept h T k L B \<Longrightarrow> kept h T k (L @ xs) B"
  by (auto simp: kept_def holds_append)

lemma kept_below:
  assumes "kept h T k L B" "ll h B = None"
  shows "kept h T k L (B - 1)"
proof -
  have "T' \<le> B - 1" if "T' \<le> B" "ll h T' = Some LL" for T' LL
    using that assms(2) by (cases "T' = B") auto
  then have "lost h T k B \<Longrightarrow> lost h T k (B - 1)" unfolding lost_def by blast
  then show ?thesis using assms(1) by (auto simp: kept_def)
qed

lemma kept_accepted:
  assumes "kept h T k L B" "B \<le> B'" "T \<le> B'" "ll h B' = Some LL" "m \<le> length LL" "merged LL m L L'"
  shows "kept h T k L' B'"
proof (cases "lost h T k B")
  case True
  then show ?thesis using lost_le assms(2) unfolding kept_def by blast
next
  case False
  then obtain A where A: "ll h T = Some A" "k < length A" "holds A k L" using assms(1) by (auto simp: kept_def)
  show ?thesis
  proof (cases "holds A k LL")
    case True
    from holds_merged [OF A(3) True assms(6,5)] A show ?thesis by (auto simp: kept_def)
  next
    case no: False
    then have "T \<noteq> B'" using A assms(4) holds_refl [OF A(2)] by auto
    then have "T < B'" using assms(3) by simp
    then have "lost h T k B'" unfolding lost_def using no A(1) assms(4) by blast
    then show ?thesis by (simp add: kept_def)
  qed
qed


lemma kept_step:
  assumes h: "hreach n s h" "cstep n False s t" "ack_inv n s h" and a: "(j, T, k) \<in> acks h"
  shows "kept (remember n s t h) T k (log (nodes t j)) (currentTerm (nodes t j))"
proof -
  let ?h = "remember n s t h"
  note inv = hreach_invs [OF h(1)]
  note ext = hreach_extends [OF h(1,2)]
  note A = ack_invD(1,2) [OF h(3) a]
  have j: "j < n" and T: "T \<le> currentTerm (nodes s j)" and ex: "\<exists>LL. ll h T = Some LL \<and> k < length LL" using A(1) by auto
  have le: "currentTerm (nodes s j) \<le> currentTerm (nodes t j)" by (rule cstep_term [OF h(2) inv(1) j])
  note m = kept_mono [OF _ ext inv(3) ex]
  from h(2) inv j show ?thesis
  proof (cases rule: cstep_log)
    case same
    then show ?thesis using m [OF A(2) le] by simp
  next
    case (more xs)
    then show ?thesis using m [OF kept_append [OF A(2)] le] by simp
  next
    case (acc LL q)
    have "T \<le> currentTerm (nodes t j)" using T le by simp
    from m [OF kept_accepted [OF A(2) le this acc] order_refl] show ?thesis .
  qed
qed

lemma holds_kept:
  "ll h T = Some LL \<Longrightarrow> holds LL k L \<Longrightarrow> kept h T k L B"
  by (auto simp: kept_def holds_def)

lemma ack_inv_acks:
  assumes h: "hreach n s h" "cstep n False s t" "ack_inv n s h" and a: "(j, T, k) \<in> acks (remember n s t h)"
  shows "j < n \<and> T \<le> currentTerm (nodes t j) \<and> (\<exists>LL. ll (remember n s t h) T = Some LL \<and> k < length LL) \<and>
    kept (remember n s t h) T k (log (nodes t j)) (currentTerm (nodes t j))"
proof (cases "(j, T, k) \<in> acks h")
  case True
  note A = ack_invD(1) [OF h(3) True]
  then obtain LL where LL: "ll h T = Some LL" "k < length LL" by blast
  then obtain xs where "ll (remember n s t h) T = Some (LL @ xs)"
    using hreach_extends [OF h(1,2)] unfolding extends_def by blast
  then show ?thesis
    using kept_step [OF h True] A LL cstep_term [OF h(2) hreach_invs(1) [OF h(1)], of j] by auto
next
  case False
  then obtain LL where LL: "j < n" "currentTerm (nodes t j) = T" "ll (remember n s t h) T = Some LL" "holds LL k (log (nodes t j))"
    using a by (auto simp: remember_simps simp del: remember_ll)
  then have "k < length LL" by (simp add: holds_def)
  then show ?thesis using LL(1-3) holds_kept [OF LL(3,4)] by auto
qed

text \<open>A server that grants a vote has not acknowledged anything in a later term.\<close>

lemma ack_before_vote:
  assumes "hreach n t h'" "(T', j, c) \<in> granted t" "(j, T, k) \<in> acks (remember n s t h)" "T < T'"
  shows "(j, T, k) \<in> acks h"
proof -
  have "T' \<le> currentTerm (nodes t j)"
    using hreach_invs(1) [OF assms(1)] assms(2) unfolding cluster_inv_def granted_inv_def by force
  then show ?thesis using assms(3,4) by (auto simp: remember_simps)
qed

lemma granted_voter_log:
  assumes "cstep n False s t" "plain_cluster n s" "(T, j, c) \<in> granted t - granted s" "j < n"
  shows "log (nodes t j) = log (nodes s j) \<and> currentTerm (nodes t j) = T"
proof -
  have "plain (nodes s j)" using assms(2,4) by (simp add: plain_cluster_def)
  then show ?thesis
    using cstep_granted [OF assms(1,3)] startElection_args [of _ "nodes s j"] RequestVote_newer [of _ _ "nodes s j"] by metis
qed

lemma ack_inv_votes:
  assumes h: "hreach n s h" "cstep n False s t" "ack_inv n s h" and a: "(j, T, k) \<in> acks (remember n s t h)"
    and g: "(T', j, c) \<in> granted t" "T < T'"
  shows "kept (remember n s t h) T k (vl (remember n s t h) (T', j)) T'"
proof -
  have old: "(j, T, k) \<in> acks h" by (rule ack_before_vote [OF h_step [OF h(1,2)] g(1) a g(2)])
  note A = ack_invD(1) [OF h(3) old]
  have j: "j < n" using A by simp
  note ext = hreach_extends [OF h(1,2)]
  show ?thesis
  proof (cases "(T', j, c) \<in> granted s")
    case True
    then have "vl (remember n s t h) (T', j) = vl h (T', j)"
      using vl_stable [OF hreach_invs(1) [OF h_step [OF h(1,2)]] granted_mono [OF h(2)]] by blast
    then show ?thesis
      using kept_mono [OF ack_invD(3) [OF h(3) old True g(2)] ext hreach_invs(3) [OF h(1)]] A by simp
  next
    case False
    with g have new: "(T', j, c) \<in> granted t - granted s" by simp
    then have "vl (remember n s t h) (T', j) = log (nodes t j)" by (auto simp: remember_simps)
    then show ?thesis
      using kept_step [OF h old] granted_voter_log [OF h(2) hreach_invs(2) [OF h(1)] new j] by simp
  qed
qed


lemma cstep_tally:
  assumes "cstep n False s t" "cluster_inv n s" "j \<in> tally t (i, T)"
  shows "j \<in> tally s (i, T) \<or>
    j = i \<and> i < n \<and> (\<exists>now args. startElection now (nodes s i) = Some (nodes t i, args) \<and> T = rvTerm args) \<or>
    i < n \<and> state (nodes s i) = Candidate \<and> currentTerm (nodes s i) = T \<and> (T, j, i) \<in> granted s"
  using assms
proof (induction rule: cstep.induct)
  case (vote_reply a e k args reply s rf' v' w')
  obtain v w where cnt: "counters s (a, rvTerm args) = (v, w)" by fastforce
  have "call_ok s (VoteRep a e k args reply)" using vote_reply(1,4) unfolding cluster_inv_def votes_inv_def by blast
  moreover have "v' \<noteq> v \<Longrightarrow> state (nodes s a) = Candidate \<and> currentTerm (nodes s a) = rvTerm args \<and> VoteGranted reply"
    using vote_reply(3) by (auto simp: cnt handleVoteReply_def split: if_splits bind_splits)
  ultimately show ?case using vote_reply(5) cnt pool_member(1) [OF vote_reply(4,1)] by (auto split: if_splits)
qed (auto split: if_splits)

lemma leaders_mono: "cstep n snaps s t \<Longrightarrow> leaders s \<subseteq> leaders t"
  by (induction rule: cstep.induct) auto

lemma candidate_not_leader:
  "log_inv n s lls \<Longrightarrow> state (nodes s i) = Candidate \<Longrightarrow> (currentTerm (nodes s i), i) \<notin> leaders s"
  using log_invD(6) by fastforce

lemma no_leader_before:
  assumes "hreach n s h" "cstep n False s t" "i < n" "ll (remember n s t h) T = None \<or> (T, i) \<in> leaders t"
  shows "ll h T = None \<or> (T, i) \<in> leaders s"
proof (rule ccontr)
  assume no: "\<not> (ll h T = None \<or> (T, i) \<in> leaders s)"
  then obtain LL where LL: "ll h T = Some LL" by auto
  then have l: "(T, i) \<in> leaders t" using assms(4) hreach_extends [OF assms(1,2)] unfolding extends_def by fastforce
  note inv = hreach_invs [OF assms(1)]
  from LL obtain k where k: "(T, k) \<in> leaders s" using log_invD(3) [OF inv(3) LL] by blast
  then have "(T, k) \<in> leaders t" using leaders_mono [OF assms(2)] by blast
  then have "k = i" using leaders_unique [OF hreach_invs(1) [OF h_step [OF assms(1,2)]]] l by blast
  then show False using k no by simp
qed

lemma ack_inv_tally:
  assumes h: "hreach n s h" "cstep n False s t" "ack_inv n s h" and a: "(j, T, k) \<in> acks (remember n s t h)"
    and g: "j \<in> tally t (i, T')" "T < T'" "ll (remember n s t h) T' = None \<or> (T', i) \<in> leaders t"
  shows "kept (remember n s t h) T k (vl (remember n s t h) (T', j)) (T' - 1)"
proof -
  note inv = hreach_invs [OF h(1)]
  note inv' = hreach_invs [OF h_step [OF h(1,2)]]
  have gr: "(T', j, i) \<in> granted t" using inv'(1) g(1) by (simp add: cluster_inv_def tally_inv_def)
  have old: "(j, T, k) \<in> acks h" by (rule ack_before_vote [OF h_step [OF h(1,2)] gr a g(2)])
  have i: "i < n" using vote_invD(4) [OF hreach_vote_inv [OF h_step [OF h(1,2)]] gr] by simp
  note cond = no_leader_before [OF h(1,2) i g(3)]
  note m = kept_mono [OF _ hreach_extends [OF h(1,2)] inv(3) _ order_refl]
  have vl: "vl (remember n s t h) (T', j) = vl h (T', j)" if "(T', j, i) \<in> granted s"
    using vl_stable [OF inv'(1) granted_mono [OF h(2)] that] .
  have goal: ?thesis if "(T', j, i) \<in> granted s" "kept h T k (vl h (T', j)) (T' - 1)"
    using m [OF that(2)] vl [OF that(1)] ack_invD(1) [OF h(3) old] by simp
  from cstep_tally [OF h(2) inv(1) g(1)] show ?thesis
  proof (elim disjE conjE exE)
    assume j: "j \<in> tally s (i, T')"
    then have "(T', j, i) \<in> granted s" using inv(1) by (simp add: cluster_inv_def tally_inv_def)
    then show ?thesis using goal ack_invD(4) [OF h(3) old j g(2) cond] by blast
  next
    assume c: "state (nodes s i) = Candidate" "currentTerm (nodes s i) = T'" "(T', j, i) \<in> granted s"
    then have "ll h T' = None" using cond candidate_not_leader [OF inv(3) c(1)] by simp
    then show ?thesis using goal [OF c(3)] kept_below [OF ack_invD(3) [OF h(3) old c(3) g(2)]] by blast
  next
    fix now args
    assume e: "j = i" "startElection now (nodes s i) = Some (nodes t i, args)" "T' = rvTerm args"
    have "plain (nodes s i)" using inv(2) i by (simp add: plain_cluster_def)
    note A = startElection_args [OF e(2) this]
    have "(T', i, i) \<notin> granted s"
      using inv(1) A(3) e(3) unfolding cluster_inv_def granted_inv_def by fastforce
    then have "vl (remember n s t h) (T', i) = log (nodes s i)" using gr e(1) A(1) by (auto simp: remember_simps)
    then show ?thesis using m [OF ack_invD(2) [OF h(3) old]] e(1,3) A(3) ack_invD(1) [OF h(3) old] by simp
  qed
qed

lemma hreach_ack_inv: "hreach n s h \<Longrightarrow> ack_inv n s h"
proof (induction rule: hreach.induct)
  case (h_init t0)
  show ?case by (simp add: ack_inv_def)
next
  case (h_step s h t)
  let ?h = "remember n s t h"
  have "(j, T, m) \<in> acks ?h" if "(j, T, k) \<in> acks ?h" "m \<le> k" for j T k m
    using that ack_invD(5) [OF h_step(3)] holds_le by (auto simp: remember_simps)
  moreover have "(j, currentTerm (nodes t j), k) \<in> acks ?h"
    if "j < n" "ll ?h (currentTerm (nodes t j)) = Some LL" "holds LL k (log (nodes t j))" for j LL k
    using that by (auto simp: remember_simps)
  ultimately show ?case
    using ack_inv_acks [OF h_step] ack_inv_votes [OF h_step] ack_inv_tally [OF h_step]
    unfolding ack_inv_def by blast
qed

end
