(* ===== verification/RaftCommit.thy ===== *)
theory RaftCommit
  imports RaftVotes
begin

text \<open>
  Leader completeness and state machine safety in runs without snapshots: an index is committed when a majority
  acknowledged it, with an entry of the leader's own term; every later leader holds it; the commit
  indices of all servers cover only committed indices, and so all servers apply the same
  commands.
\<close>

subsection \<open>Leader completeness\<close>

definition committed :: "nat \<Rightarrow> 'c hist \<Rightarrow> int \<Rightarrow> nat \<Rightarrow> bool" where
  "committed n h T k \<longleftrightarrow> (\<exists>LL Q. ll h T = Some LL \<and> k < length LL \<and> eTerm (LL ! k) = T \<and>
     majority n Q \<and> (\<forall>j \<in> Q. (j, T, k) \<in> acks h))"

lemma good_whole:
  assumes "good lls L" "1 < length L"
  shows "\<exists>LL. lls (eTerm (last L)) = Some LL \<and> length L \<le> length LL \<and> take (length L) LL = L"
proof -
  have "L \<noteq> []" using assms(2) by auto
  then show ?thesis using goodD [OF assms(1), of "length L - 1"] assms(2) by (auto simp: last_conv_nth Suc_le_eq)
qed

lemma good_last_term:
  assumes "good lls L" "eTerm (last L) \<noteq> 0"
  shows "1 < length L"
proof (rule ccontr)
  assume "\<not> 1 < length L"
  then have "last L = L ! 0" using assms(1) by (cases L) (auto simp: good_def)
  then show False using assms by (simp add: good_def sentinel_def)
qed

lemma prefix_holds:
  assumes "take (length V) C = V" "k < length V" "length V \<le> length C"
  shows "holds V k C"
proof -
  have "take (Suc k) (take (length V) C) = take (Suc k) C" using assms(2) by (simp add: min_def)
  then show ?thesis using assms by (simp add: holds_def)
qed

lemma newer_holds:
  assumes inv: "log_inv n s lls" and g: "good lls C" "good lls V" "newer C V" "\<forall>e \<in> set C. eTerm e < T'"
    and k: "lls T = Some LL" "holds LL k V" "eTerm (LL ! k) = T"
    and between: "\<And>U LU. T < U \<Longrightarrow> U < T' \<Longrightarrow> lls U = Some LU \<Longrightarrow> holds LL k LU"
  shows "holds LL k C"
proof -
  have LL: "\<forall>e \<in> set LL. eTerm e \<le> T" "1 \<le> T" using log_invD(3) [OF inv k(1)] by auto
  have kV: "k < length V" "k < length LL" using k(2) by (auto simp: holds_def)
  have Vk: "eTerm (V ! k) = T" using holds_nth [OF k(2), of k] k(3) by simp
  have ne: "V \<noteq> []" "C \<noteq> []" using g(1,2) by (auto simp: good_def)
  let ?U = "eTerm (last V)" and ?W = "eTerm (last C)"
  have k0: "0 < k" using Vk LL(2) g(2) by (cases k) (auto simp: good_def sentinel_def)
  have "1 < length V" using k0 kV by simp
  from good_whole [OF g(2) this] obtain LU where LU: "lls ?U = Some LU" "take (length V) LU = V" "length V \<le> length LU"
    by blast
  have "LU ! k = V ! k" using LU(2) kV by (metis nth_take)
  then have TU: "T \<le> ?U" using log_invD(3) [OF inv LU(1)] LU(3) kV Vk by (metis nth_mem order_less_le_trans)
  then have "?W \<noteq> 0" using g(3) LL(2) by (auto simp: newer_def)
  from good_whole [OF g(1) good_last_term [OF g(1) this]] obtain LW where LW: "lls ?W = Some LW" "take (length C) LW = C" "length C \<le> length LW"
    by blast
  show ?thesis
  proof (cases "?W = ?U")
    case True
    then have len: "length V \<le> length C" using g(3) by (auto simp: newer_def)
    have "take (length V) C = V" using LW LU True len by (metis min.absorb1 option.inject take_take)
    then have "holds V k C" using prefix_holds kV len by blast
    then show ?thesis using holds_trans k(2) by blast
  next
    case False
    then have UW: "T < ?W" using g(3) TU by (auto simp: newer_def)
    moreover have "?W < T'" using g(4) ne(2) by simp
    ultimately have hW: "holds LL k LW" using between LW(1) by blast
    have "k < length C"
    proof (rule ccontr)
      assume "\<not> k < length C"
      then have p: "length C - 1 \<le> k" by simp
      have "last C = LW ! (length C - 1)" using LW(2) ne(2) by (metis diff_less last_conv_nth length_greater_0_conv nth_take zero_less_one)
      also have "\<dots> = LL ! (length C - 1)" using holds_nth [OF hW p] by simp
      finally have "?W \<le> T" using LL(1) p kV by simp
      then show False using UW by simp
    qed
    then have "holds LW k C" using prefix_holds [OF LW(2)] LW(3) holds_sym by blast
    then show ?thesis using holds_trans hW by blast
  qed
qed

lemma committed_holds:
  assumes h: "hreach n s h" and c: "committed n h T k" "ll h T = Some LL" and T': "T < T'" "ll h T' = Some LL'"
  shows "holds LL k LL'"
  using T'
proof (induction "nat T'" arbitrary: T' LL' rule: less_induct)
  case less
  note inv = hreach_invs [OF h]
  note V = hreach_vote_inv [OF h]
  obtain Q where k: "k < length LL" "eTerm (LL ! k) = T" and Q: "majority n Q" "\<forall>j \<in> Q. (j, T, k) \<in> acks h"
    using c by (auto simp: committed_def)
  have pos: "1 \<le> T" using log_invD(3) [OF inv(3) c(2)] by simp
  have between: "holds LL k LU" if "T < U" "U < T'" "ll h U = Some LU" for U LU
    using less(1) [of U LU] that pos by simp
  then have nl: "\<not> lost h T k (T' - 1)" using c(2) by (auto simp: lost_def)
  obtain i where i: "(T', i) \<in> leaders s" using log_invD(3) [OF inv(3) less(3)] by blast
  then have "majority n (tally s (i, T'))" using inv(1) by (simp add: cluster_inv_def leaders_inv_def)
  then obtain j where j: "j \<in> Q" "j \<in> tally s (i, T')" using maj.quorum_meet [OF Q(1)] by blast
  have "kept h T k (vl h (T', j)) (T' - 1)"
    using ack_invD(4) [OF hreach_ack_inv [OF h], of j T k i T'] Q(2) j less(2) i by blast
  then have hv: "holds LL k (vl h (T', j))" using nl c(2) by (auto simp: kept_def)
  have "(T', j, i) \<in> granted s" using inv(1) j(2) by (simp add: cluster_inv_def tally_inv_def)
  note G = vote_invD(4) [OF V this]
  have "holds LL k (cl h (T', i))"
    by (rule newer_holds [OF inv(3) _ _ _ _ c(2) hv k(2) between]) (use G in \<open>auto simp: cand_def\<close>)
  then show ?case using vote_invD(5) [OF V i] less(3) holds_append(1) by fastforce
qed


subsection \<open>Indices that are safe to commit\<close>

definition safe :: "nat \<Rightarrow> 'c hist \<Rightarrow> int \<Rightarrow> 'c LogEntry list \<Rightarrow> nat \<Rightarrow> bool" where
  "safe n h T L m \<longleftrightarrow> m = 0 \<or>
     (\<exists>U K LL. U \<le> T \<and> committed n h U K \<and> ll h U = Some LL \<and> m \<le> K \<and> holds LL m L)"

lemma committed_mono:
  assumes "committed n h T k" "extends (ll h) (ll h')" "acks h \<subseteq> acks h'"
  shows "committed n h' T k"
proof -
  obtain LL Q where L: "ll h T = Some LL" "k < length LL" "eTerm (LL ! k) = T" and Q: "majority n Q" "\<forall>j \<in> Q. (j, T, k) \<in> acks h"
    using assms(1) by (auto simp: committed_def)
  obtain xs where "ll h' T = Some (LL @ xs)" using assms(2) L(1) unfolding extends_def by blast
  moreover have "\<forall>j \<in> Q. (j, T, k) \<in> acks h'" using Q(2) assms(3) by blast
  ultimately show ?thesis using L Q(1) unfolding committed_def by (intro exI [of _ "LL @ xs"] exI [of _ Q]) (simp add: nth_append)
qed

lemma safe_mono:
  assumes "safe n h T L m" "extends (ll h) (ll h')" "acks h \<subseteq> acks h'" "T \<le> T'"
  shows "safe n h' T' L m"
proof (cases "m = 0")
  case False
  then obtain U K LL where U: "U \<le> T" "committed n h U K" "ll h U = Some LL" "m \<le> K" "holds LL m L"
    using assms(1) by (auto simp: safe_def)
  obtain xs where "ll h' U = Some (LL @ xs)" using assms(2) U(3) unfolding extends_def by blast
  moreover have "U \<le> T'" using U(1) assms(4) by simp
  ultimately show ?thesis
    using committed_mono [OF U(2) assms(2,3)] U(4) holds_append(2) [OF U(5)] unfolding safe_def by blast
qed (simp add: safe_def)

lemma safe_le: "safe n h T L m \<Longrightarrow> m' \<le> m \<Longrightarrow> safe n h T L m'"
  unfolding safe_def using holds_le order_trans by (metis le_zero_eq)

lemma safe_append: "safe n h T L m \<Longrightarrow> safe n h T (L @ xs) m"
  unfolding safe_def using holds_append(1) by blast

lemma committed_holds_eq:
  assumes "hreach n s h" "committed n h T k" "ll h T = Some LL" "T \<le> T'" "ll h T' = Some LL'"
  shows "holds LL k LL'"
proof (cases "T = T'")
  case True
  then show ?thesis using assms(2,3,5) holds_refl by (auto simp: committed_def)
next
  case False
  then show ?thesis using committed_holds [OF assms(1-3) _ assms(5)] assms(4) by simp
qed

text \<open>The leaders of the term and of every later term hold what is safe in it.\<close>

lemma safe_leader:
  assumes "hreach n s h" "safe n h T L m" "0 < m" "T \<le> T'" "ll h T' = Some LL'"
  shows "holds L m LL'"
proof -
  obtain U K LL where U: "U \<le> T" "committed n h U K" "ll h U = Some LL" "m \<le> K" "holds LL m L"
    using assms(2,3) by (auto simp: safe_def)
  then have "holds LL m LL'" using committed_holds_eq [OF assms(1) U(2,3) _ assms(5)] assms(4) holds_le by fastforce
  then show ?thesis using U(5) holds_trans holds_sym by blast
qed

lemma safe_accepted:
  assumes "hreach n s h" "safe n h T L m" "T \<le> T'" "ll h T' = Some LL" "q \<le> length LL" "merged LL q L L'"
  shows "safe n h T' L' m"
proof (cases "m = 0")
  case False
  then obtain U K A where U: "U \<le> T" "committed n h U K" "ll h U = Some A" "m \<le> K" "holds A m L"
    using assms(2) by (auto simp: safe_def)
  have "holds A m LL" using safe_leader [OF assms(1,2) _ assms(3,4)] False U(5) holds_trans by blast
  from holds_merged [OF U(5) this assms(6,5)] U assms(3) show ?thesis
    unfolding safe_def using order_trans by blast
qed (simp add: safe_def)

lemma safe_step:
  assumes h: "hreach n s h" "cstep n False s t" and j: "j < n" and sf: "safe n h (currentTerm (nodes s j)) (log (nodes s j)) m"
  shows "safe n (remember n s t h) (currentTerm (nodes t j)) (log (nodes t j)) m"
proof -
  note inv = hreach_invs [OF h(1)]
  have le: "currentTerm (nodes s j) \<le> currentTerm (nodes t j)" by (rule cstep_term [OF h(2) inv(1) j])
  note mono = safe_mono [OF _ hreach_extends [OF h] acks_mono]
  from h(2) inv j show ?thesis
  proof (cases rule: cstep_log)
    case same
    then show ?thesis using mono [OF sf le] by simp
  next
    case (more xs)
    then show ?thesis using mono [OF safe_append [OF sf] le] by simp
  next
    case (acc LL q)
    from mono [OF safe_accepted [OF h(1) sf le acc] order_refl] show ?thesis .
  qed
qed

text \<open>Two logs agree at every index that is safe in both.\<close>

lemma safe_agree:
  assumes h: "hreach n s h" and S: "safe n h T L m" "safe n h T' L' m'" and x: "0 < x" "x \<le> m" "x \<le> m'"
  shows "holds L x L'"
proof -
  obtain U K LL where U: "U \<le> T" "committed n h U K" "ll h U = Some LL" "x \<le> K" "holds LL x L"
    using safe_le [OF S(1) x(2)] x(1) by (auto simp: safe_def)
  obtain V J MM where V: "V \<le> T'" "committed n h V J" "ll h V = Some MM" "x \<le> J" "holds MM x L'"
    using safe_le [OF S(2) x(3)] x(1) by (auto simp: safe_def)
  have "holds LL x MM"
  proof (cases "U \<le> V")
    case True
    then show ?thesis using committed_holds_eq [OF h U(2,3) _ V(3)] U(4) holds_le by blast
  next
    case False
    then show ?thesis using committed_holds_eq [OF h V(2,3) _ U(3)] V(4) holds_le holds_sym by fastforce
  qed
  then show ?thesis using U(5) V(5) holds_trans holds_sym by blast
qed


subsection \<open>The commit invariant\<close>

definition safe_lead :: "nat \<Rightarrow> 'c hist \<Rightarrow> int \<Rightarrow> int \<Rightarrow> bool" where
  "safe_lead n h T c \<longleftrightarrow> (\<exists>LL. ll h T = Some LL \<and> safe n h T LL (nat c))"

fun told :: "nat \<Rightarrow> 'c hist \<Rightarrow> 'c call \<Rightarrow> bool" where
  "told n h (HbTask i e j hb) = safe_lead n h (hbTerm hb) (hbCommitIndex hb)"
| "told n h (AppReq i e j a) = safe_lead n h (aeTerm a) (LeaderCommit a)"
| "told n h (AppRep i e j a r) =
     (Success r \<longrightarrow> (j, aeTerm a, nat (PrevLogIndex a + int (length (Entries a)))) \<in> acks h)"
| "told n h _ = True"

definition commit_inv :: "nat \<Rightarrow> 'c cluster \<Rightarrow> 'c hist \<Rightarrow> bool" where
  "commit_inv n s h \<longleftrightarrow>
     (\<forall>i<n. safe n h (currentTerm (nodes s i)) (log (nodes s i)) (nat (commitIndex (nodes s i)))) \<and>
     (\<forall>i<n. \<forall>j<n. state (nodes s i) = Leader \<longrightarrow> j \<noteq> i \<longrightarrow> matchIndex (nodes s i) ! j \<le> 0 \<or>
        (j, currentTerm (nodes s i), nat (matchIndex (nodes s i) ! j)) \<in> acks h) \<and>
     (\<forall>c \<in> set (calls s). told n h c)"

lemma commit_invD:
  assumes "commit_inv n s h"
  shows "i < n \<Longrightarrow> safe n h (currentTerm (nodes s i)) (log (nodes s i)) (nat (commitIndex (nodes s i)))"
    and "i < n \<Longrightarrow> j < n \<Longrightarrow> state (nodes s i) = Leader \<Longrightarrow> j \<noteq> i \<Longrightarrow> matchIndex (nodes s i) ! j \<le> 0 \<or>
        (j, currentTerm (nodes s i), nat (matchIndex (nodes s i) ! j)) \<in> acks h"
    and "c \<in> set (calls s) \<Longrightarrow> told n h c"
  using assms unfolding commit_inv_def by blast+

lemma safe_lead_mono:
  assumes "safe_lead n h T c" "extends (ll h) (ll h')" "acks h \<subseteq> acks h'"
  shows "safe_lead n h' T c"
proof -
  obtain LL where LL: "ll h T = Some LL" "safe n h T LL (nat c)" using assms(1) by (auto simp: safe_lead_def)
  obtain xs where "ll h' T = Some (LL @ xs)" using assms(2) LL(1) unfolding extends_def by blast
  then show ?thesis using safe_mono [OF safe_append [OF LL(2)] assms(2,3)] by (simp add: safe_lead_def)
qed

lemma told_mono: "told n h c \<Longrightarrow> extends (ll h) (ll h') \<Longrightarrow> acks h \<subseteq> acks h' \<Longrightarrow> told n h' c"
  by (cases c) (auto intro: safe_lead_mono)

text \<open>Where the commit index of a server, the match indices of a leader and the calls come from.\<close>

lemma cstep_commitIndex:
  assumes "cstep n False s t" "cluster_inv n s" "plain_cluster n s" "k < n"
  shows "commitIndex (nodes t k) = commitIndex (nodes s k) \<or> commitIndex (nodes t k) = 0 \<or>
    updateCommitIndex (nodes s k) = Some (nodes t k) \<or>
    (\<exists>i e a now r. AppReq i e k a \<in> set (calls s) \<and> AppendEntries now a (nodes s k) = Some (nodes t k, r) \<and> Success r)"
  using assms
proof (induction rule: cstep.induct)
  case (recv_append i e j aargs s now rf' areply)
  then show ?case
  proof (cases "Success areply")
    case False
    have "snapshotIndex (nodes s j) = 0"
      using recv_append(4) pool_member(2) [OF recv_append(3,1)] by (simp add: plain_cluster_def plain_def)
    then show ?thesis using AppendEntries_plain(2) [OF recv_append(2)] False by simp
  qed auto
next
  case (restart i s now)
  then have "durable (nodes s i)" "plain (nodes s i)" by (simp_all add: cluster_inv_def nodes_inv_def node_ok_def plain_cluster_def)
  then show ?case using plain_restart [OF _ _ refl, of "nodes s i" n "int i" now] by simp
next
  case (crash_in_handler i s t now)
  have "plain (stepDown t (nodes s i))" using crash_in_handler(1,4) by (simp add: plain_cluster_def plain_def)
  then show ?case using plain_restart [OF stepDown_durable _ refl, of t "nodes s i" n "int i" now] by simp
next
  case (elect i s now rf' args)
  then show ?case by (auto simp: startElection_def Let_def split: bind_splits)
next
  case (recv_vote i e j args s now rf' reply)
  then show ?case by (auto simp: RequestVote_def Let_def split: if_splits bind_splits)
next
  case (vote_reply i e j args reply s rf' v' w')
  then show ?case
    by (cases "counters s (i, rvTerm args)") (auto simp: handleVoteReply_def becomeLeader_def Let_def split: if_splits bind_splits)
next
  case (append_reply i e j aargs areply s rf')
  then show ?case by (auto simp: handleAppendReply_def Let_def split: if_splits bind_splits)
next
  case (recv_install i e j iargs s now rf' ireply msg)
  then show ?case by (auto simp: plain_cluster_def)
next
  case (install_reply i e j iargs ireply s rf')
  then show ?case by (auto simp: plain_cluster_def)
next
  case (start i cmd s rf' idx trm ok)
  then show ?case by (auto simp: Start_def Let_def split: if_splits)
next
  case (apply_msgs i s rf' msgs)
  then show ?case by (auto simp: applyCommitted_def dest!: applyLoop_frame)
qed auto

lemma handleAppendReply_match:
  assumes "handleAppendReply srv a r rf = Some rf'" "state rf' = Leader"
  shows "state rf = Leader \<and> currentTerm rf' = currentTerm rf \<and> (j \<noteq> srv \<longrightarrow> matchIndex rf' ! j = matchIndex rf ! j) \<and>
    (matchIndex rf' ! j = matchIndex rf ! j \<or> Success r \<and> currentTerm rf = aeTerm a \<and>
      matchIndex rf' ! j = PrevLogIndex a + int (length (Entries a)))"
  using assms by (auto simp: handleAppendReply_def Let_def gostore_Some_iff goindex_Some_iff nth_list_update split: if_splits bind_splits)

definition same_lead :: "'c raft \<Rightarrow> 'c raft \<Rightarrow> bool" where
  "same_lead rf rf' \<longleftrightarrow> (state rf' = Leader \<longrightarrow> state rf = Leader \<and> currentTerm rf' = currentTerm rf \<and> matchIndex rf' = matchIndex rf)"

lemma same_lead_handlers:
  "RequestVote now args rf = Some (rf', reply) \<Longrightarrow> same_lead rf rf'"
  "startElection now rf = Some (rf', args) \<Longrightarrow> same_lead rf rf'"
  "AppendEntries now a rf = Some (rf', r) \<Longrightarrow> same_lead rf rf'"
  "Start cmd rf = (rf', q) \<Longrightarrow> same_lead rf rf'"
  "updateCommitIndex rf = Some rf' \<Longrightarrow> same_lead rf rf'"
  "applyCommitted rf = (rf', msgs) \<Longrightarrow> same_lead rf rf'"
proof -
  show "RequestVote now args rf = Some (rf', reply) \<Longrightarrow> same_lead rf rf'"
    by (auto simp: same_lead_def RequestVote_def Let_def split: if_splits bind_splits)
  show "startElection now rf = Some (rf', args) \<Longrightarrow> same_lead rf rf'"
    by (auto simp: same_lead_def startElection_def Let_def split: bind_splits)
  show "AppendEntries now a rf = Some (rf', r) \<Longrightarrow> same_lead rf rf'"
    by (auto simp: same_lead_def AppendEntries_def Let_def split: if_splits bind_splits)
  show "Start cmd rf = (rf', q) \<Longrightarrow> same_lead rf rf'"
    by (auto simp: same_lead_def Start_def Let_def split: if_splits)
  show "updateCommitIndex rf = Some rf' \<Longrightarrow> same_lead rf rf'"
    by (auto simp: same_lead_def updateCommitIndex_def dest!: commitLoop_frame split: if_splits)
  show "applyCommitted rf = (rf', msgs) \<Longrightarrow> same_lead rf rf'"
    by (auto simp: same_lead_def applyCommitted_def dest!: applyLoop_frame)
qed

lemma same_lead_restart: "durable rf \<Longrightarrow> same_lead rf' (Make m i (Checkpoint (persister rf)) now)"
  using Make_soft [of rf m i now] by (simp add: same_lead_def)

lemma becomeLeader_match:
  assumes "becomeLeader rf = Some rf'" "snapshotIndex rf = 0" "j < peers rf" "int j \<noteq> me rf"
  shows "matchIndex rf' ! j = 0"
  using assms by (auto simp: becomeLeader_def Let_def gostore_Some_iff nth_list_update split: bind_splits)

lemma handleVoteReply_match:
  assumes "handleVoteReply args reply rf cnt = Some (rf', cnt')" "snapshotIndex rf = 0" "j < peers rf" "int j \<noteq> me rf"
  shows "same_lead rf rf' \<or> matchIndex rf' ! j = 0"
  using assms by (cases cnt) (auto simp: handleVoteReply_def same_lead_def becomeLeader_match split: if_splits bind_splits)

text \<open>What a leader knows of another server's log was there before, or is in a reply.\<close>

lemma cstep_matchIndex:
  assumes "cstep n False s t" "cluster_inv n s" "plain_cluster n s" "k < n" "j < n" "j \<noteq> k" "state (nodes t k) = Leader"
  shows "matchIndex (nodes t k) ! j = 0 \<or>
    state (nodes s k) = Leader \<and> currentTerm (nodes t k) = currentTerm (nodes s k) \<and>
      matchIndex (nodes t k) ! j = matchIndex (nodes s k) ! j \<or>
    (\<exists>e a r. AppRep k e j a r \<in> set (calls s) \<and> Success r \<and> currentTerm (nodes t k) = aeTerm a \<and>
      matchIndex (nodes t k) ! j = PrevLogIndex a + int (length (Entries a)))"
  using assms
proof (induction rule: cstep.induct)
  case (elect i s now rf' args)
  then show ?case using same_lead_handlers(2) [OF elect(3)] by (auto simp: same_lead_def)
next
  case (recv_vote i e q args s now rf' reply)
  then show ?case using same_lead_handlers(1) [OF recv_vote(2)] by (auto simp: same_lead_def)
next
  case (vote_reply i e q args reply s rf' v' w')
  have "snapshotIndex (nodes s i) = 0" "peers (nodes s i) = n" "me (nodes s i) = int i"
    using vote_reply(4,5) pool_member(1) [OF vote_reply(4,1)]
    by (simp_all add: plain_cluster_def plain_def cluster_inv_def nodes_inv_def)
  then show ?case using vote_reply(6-9) handleVoteReply_match [OF vote_reply(3), of j] by (auto simp: same_lead_def)
next
  case (recv_append i e q aargs s now rf' areply)
  then show ?case using same_lead_handlers(3) [OF recv_append(2)] by (auto simp: same_lead_def)
next
  case (append_reply i e q aargs areply s rf')
  then show ?case using handleAppendReply_match [OF append_reply(3), of j] by (cases "k = i"; cases "j = q") auto
next
  case (recv_install i e j iargs s now rf' ireply msg)
  then show ?case by (auto simp: plain_cluster_def)
next
  case (install_reply i e j iargs ireply s rf')
  then show ?case by (auto simp: plain_cluster_def)
next
  case (start i cmd s rf' idx trm ok)
  then show ?case using same_lead_handlers(4) [OF start(2)] by (auto simp: same_lead_def)
next
  case (commit i s rf')
  then show ?case using same_lead_handlers(5) [OF commit(2)] by (auto simp: same_lead_def)
next
  case (apply_msgs i s rf' msgs)
  then show ?case using same_lead_handlers(6) [OF apply_msgs(2)] by (auto simp: same_lead_def)
next
  case (restart i s now)
  then have "durable (nodes s i)" by (simp add: cluster_inv_def nodes_inv_def node_ok_def)
  then show ?case using same_lead_restart [of "nodes s i" "nodes s i" n "int i" now] restart by (auto simp: same_lead_def)
next
  case (crash_in_handler i s t now)
  then show ?case using same_lead_restart [OF stepDown_durable, of "nodes s i" n "int i" t "nodes s i" now] by (auto simp: same_lead_def)
qed auto


lemma commit_committed:
  assumes h: "hreach n s h" "commit_inv n s h" and i: "i < n" "updateCommitIndex (nodes s i) = Some rf'"
    and new: "commitIndex rf' \<noteq> commitIndex (nodes s i)"
  shows "committed n h (currentTerm (nodes s i)) (nat (commitIndex rf')) \<and>
    ll h (currentTerm (nodes s i)) = Some (log (nodes s i))"
proof -
  let ?rf = "nodes s i" let ?T = "currentTerm (nodes s i)"
  note inv = hreach_invs [OF h(1)]
  have node: "raft_wf ?rf" "me ?rf = int i" "peers ?rf = n"
    using inv(1) i(1) by (auto simp: cluster_inv_def nodes_inv_def node_ok_def)
  have lead: "state ?rf = Leader" using i(2) new by (auto simp: updateCommitIndex_def split: if_splits)
  have sn: "snapshotIndex ?rf = 0" using inv(2) i(1) by (simp add: plain_cluster_def plain_def)
  have c0: "0 \<le> commitIndex ?rf" using node(1) sn by (simp add: raft_wf_def)
  have "length (matchIndex ?rf) = peers ?rf" using node(1) lead by (simp add: raft_wf_def)
  from commitLoop_spec [OF node(1) this, of "lastLogIndex ?rf"] i(2) lead new
  have c: "commitIndex ?rf < commitIndex rf'" "committable ?rf (commitIndex rf')"
    by (auto simp: updateCommitIndex_def)
  let ?k = "nat (commitIndex rf')"
  have ll: "ll h ?T = Some (log ?rf)" by (rule log_invD(4) [OF inv(3) i(1) lead])
  have k: "?k < length (log ?rf)" "eTerm (log ?rf ! ?k) = ?T"
    using c sn c0 by (auto simp: committable_def entryTerm_def entryAt_def goindex_Some_iff)
  have "(j, ?T, ?k) \<in> acks h" if j: "j \<in> replicas ?rf (commitIndex rf')" for j
  proof (cases "j = i")
    case True
    then show ?thesis using ack_invD(6) [OF hreach_ack_inv [OF h(1)] i(1) ll holds_refl [OF k(1)]] by simp
  next
    case False
    then have jn: "j < n" "commitIndex rf' \<le> matchIndex ?rf ! j" using j node by (auto simp: replicas_def)
    then have "(j, ?T, nat (matchIndex ?rf ! j)) \<in> acks h"
      using commit_invD(2) [OF h(2) i(1) jn(1) lead False] c(1) c0 by auto
    then show ?thesis using ack_invD(5) [OF hreach_ack_inv [OF h(1)]] jn(2) nat_mono by blast
  qed
  then have "committed n h ?T ?k"
    unfolding committed_def using ll k c(2) node(3) by (auto simp: committable_def)
  then show ?thesis using ll by simp
qed

lemma commit_inv_nodes:
  assumes h: "hreach n s h" "cstep n False s t" "commit_inv n s h" and i: "i < n"
  shows "safe n (remember n s t h) (currentTerm (nodes t i)) (log (nodes t i)) (nat (commitIndex (nodes t i)))"
proof -
  note inv = hreach_invs [OF h(1)]
  note ext = hreach_extends [OF h(1,2)]
  have keep: ?thesis if "commitIndex (nodes t i) = commitIndex (nodes s i)"
    using safe_step [OF h(1,2) i commit_invD(1) [OF h(3) i]] that by simp
  from cstep_commitIndex [OF h(2) inv(1,2) i] consider
      (same) "commitIndex (nodes t i) = commitIndex (nodes s i)" | (zero) "commitIndex (nodes t i) = 0"
    | (upd) "updateCommitIndex (nodes s i) = Some (nodes t i)" "commitIndex (nodes t i) \<noteq> commitIndex (nodes s i)"
    | (app) l e a now r where "AppReq l e i a \<in> set (calls s)" "AppendEntries now a (nodes s i) = Some (nodes t i, r)" "Success r"
    by blast
  then show ?thesis
  proof cases
    case zero
    then show ?thesis by (simp add: safe_def)
  next
    case upd
    note C = commit_committed [OF h(1,3) i upd]
    have q: "log (nodes t i) = log (nodes s i)" "currentTerm (nodes t i) = currentTerm (nodes s i)"
      using upd(1) by (auto simp: updateCommitIndex_def dest!: commitLoop_frame split: if_splits)
    have "nat (commitIndex (nodes t i)) < length (log (nodes s i))" using C by (auto simp: committed_def)
    then have "safe n h (currentTerm (nodes t i)) (log (nodes t i)) (nat (commitIndex (nodes t i)))"
      unfolding safe_def q using C holds_refl by blast
    then show ?thesis using safe_mono [OF _ ext acks_mono] by blast
  next
    case app
    have sn: "snapshotIndex (nodes s i) = 0" using inv(2) i by (simp add: plain_cluster_def plain_def)
    note A = AppendEntries_plain(1,6) [OF app(2) sn app(3)]
    show ?thesis
    proof (cases "commitIndex (nodes s i) < LeaderCommit a")
      case True
      have "sent (ll h) a" using log_invD(8) [OF inv(3) app(1)] by simp
      from accept_merged [OF app(2,3) inv(3) log_invD(1) [OF inv(3) i] this sn]
      obtain LL m where m: "ll h (aeTerm a) = Some LL" "int m = PrevLogIndex a + int (length (Entries a)) + 1"
        "0 < m" "m \<le> length LL" "merged LL m (log (nodes s i)) (log (nodes t i))" by blast
      obtain q where q: "m = Suc q" using m(3) by (cases m) auto
      have new: "holds LL q (log (nodes t i))" using merged_holds m(4,5) q by blast
      have c: "nat (commitIndex (nodes t i)) \<le> q" "nat (commitIndex (nodes t i)) \<le> nat (LeaderCommit a)"
        using A(2) True m(2) q by (auto simp: min_def)
      have "safe n h (aeTerm a) LL (nat (LeaderCommit a))"
        using commit_invD(3) [OF h(3) app(1)] m(1) by (auto simp: safe_lead_def)
      from safe_le [OF this c(2)] holds_le [OF new c(1)]
      have "safe n h (aeTerm a) (log (nodes t i)) (nat (commitIndex (nodes t i)))"
        unfolding safe_def using holds_trans by blast
      then show ?thesis using safe_mono [OF _ ext acks_mono] A(1) by simp
    qed (use keep A(2) in auto)
  qed (use keep in blast)
qed


lemma commit_inv_match:
  assumes h: "hreach n s h" "cstep n False s t" "commit_inv n s h" and i: "i < n" "j < n" "state (nodes t i) = Leader" "j \<noteq> i"
  shows "matchIndex (nodes t i) ! j \<le> 0 \<or>
    (j, currentTerm (nodes t i), nat (matchIndex (nodes t i) ! j)) \<in> acks (remember n s t h)"
  using cstep_matchIndex [OF h(2) hreach_invs(1,2) [OF h(1)] i(1,2,4,3)]
proof (elim disjE conjE exE)
  assume "state (nodes s i) = Leader" "currentTerm (nodes t i) = currentTerm (nodes s i)"
    "matchIndex (nodes t i) ! j = matchIndex (nodes s i) ! j"
  then show ?thesis using commit_invD(2) [OF h(3) i(1,2) _ i(4)] acks_mono [of h n s t] by auto
next
  fix e a r
  assume "AppRep i e j a r \<in> set (calls s)" "Success r" "currentTerm (nodes t i) = aeTerm a"
    "matchIndex (nodes t i) ! j = PrevLogIndex a + int (length (Entries a))"
  then show ?thesis using commit_invD(3) [OF h(3), of "AppRep i e j a r"] acks_mono [of h n s t] by auto
qed simp

lemma told_reply:
  assumes h: "hreach n s h" "cstep n False s t" and c: "AppReq i e j a \<in> set (calls s)"
    and ae: "AppendEntries now a (nodes s j) = Some (nodes t j, r)"
  shows "told n (remember n s t h) (AppRep i e j a r)"
proof -
  note inv = hreach_invs [OF h(1)]
  have j: "j < n" using pool_member(2) [OF inv(1) c] by simp
  have sn: "snapshotIndex (nodes s j) = 0" using inv(2) j by (simp add: plain_cluster_def plain_def)
  have "(j, aeTerm a, nat (PrevLogIndex a + int (length (Entries a)))) \<in> acks (remember n s t h)" if ok: "Success r"
  proof -
    have "sent (ll h) a" using log_invD(8) [OF inv(3) c] by simp
    from accept_merged [OF ae ok inv(3) log_invD(1) [OF inv(3) j] this sn]
    obtain LL m where m: "ll h (aeTerm a) = Some LL" "int m = PrevLogIndex a + int (length (Entries a)) + 1"
      "0 < m" "m \<le> length LL" "merged LL m (log (nodes s j)) (log (nodes t j))" by blast
    obtain q where q: "m = Suc q" using m(3) by (cases m) auto
    obtain xs where xs: "ll (remember n s t h) (aeTerm a) = Some (LL @ xs)"
      using hreach_extends [OF h] m(1) unfolding extends_def by blast
    have "holds (LL @ xs) q (log (nodes t j))" using holds_append(2) [OF merged_holds] m(4,5) q by blast
    moreover have "currentTerm (nodes t j) = aeTerm a" using AppendEntries_plain(1) [OF ae sn ok] by simp
    moreover have "nat (PrevLogIndex a + int (length (Entries a))) = q" using m(2) q by simp
    ultimately show ?thesis
      using ack_invD(6) [OF hreach_ack_inv [OF h_step [OF h]] j, of "LL @ xs" q] xs by simp
  qed
  then show ?thesis by simp
qed

lemma commit_inv_calls:
  assumes h: "hreach n s h" "cstep n False s t" "commit_inv n s h" and c: "c \<in> set (calls t)"
  shows "told n (remember n s t h) c"
proof -
  let ?h = "remember n s t h"
  note inv = hreach_invs [OF h(1)]
  have old: "told n ?h d" if "d \<in> set (calls s)" for d
    using told_mono [OF commit_invD(3) [OF h(3) that] hreach_extends [OF h(1,2)] acks_mono] .
  from h(2) show ?thesis
  proof cases
    case (hb_begin i hb srvs)
    have lead: "state (nodes s i) = Leader" "hbTerm hb = currentTerm (nodes s i)" "hbCommitIndex hb = commitIndex (nodes s i)"
      using hb_begin(4) by (auto simp: heartbeatBegin_def split: if_splits)
    have "safe_lead n h (hbTerm hb) (hbCommitIndex hb)"
      using commit_invD(1) [OF h(3) hb_begin(2)] log_invD(4) [OF inv(3) hb_begin(2) lead(1)] lead by (simp add: safe_lead_def)
    then have "safe_lead n ?h (hbTerm hb) (hbCommitIndex hb)" using safe_lead_mono [OF _ hreach_extends [OF h(1,2)] acks_mono] by blast
    then show ?thesis using c hb_begin(1) old by auto
  next
    case (hb_send i e j hb act)
    have "told n ?h (HbTask i e j hb)" using old hb_send(2) by blast
    then have "told n ?h d" if "d \<in> set (hbCalls i e j act)" for d
      using that hb_send(4) by (cases act) (auto simp: heartbeatSend_def Let_def split: if_splits bind_splits)
    then show ?thesis using c hb_send(1) old by (auto dest: in_remove1)
  next
    case (recv_append i e j aargs now rf' areply)
    then have "AppendEntries now aargs (nodes s j) = Some (nodes t j, areply)" by simp
    from told_reply [OF h(1,2) recv_append(2) this] show ?thesis using c recv_append(1) old by (auto dest: in_remove1)
  next
    case (recv_install i e j iargs now rf' ireply msg)
    then show ?thesis using inv(2) by (auto simp: plain_cluster_def)
  qed (use c old in \<open>auto simp: voteCalls_def dest: in_remove1\<close>)
qed

lemma hreach_commit_inv: "hreach n s h \<Longrightarrow> commit_inv n s h"
proof (induction rule: hreach.induct)
  case (h_init t0)
  show ?case unfolding commit_inv_def init_node newRaft_def by (simp add: init_cluster_def safe_def)
next
  case (h_step s h t)
  then show ?case
    using commit_inv_nodes [OF h_step] commit_inv_match [OF h_step] commit_inv_calls [OF h_step]
    unfolding commit_inv_def by blast
qed

subsection \<open>Along a run\<close>

lemma extends_trans: "extends a b \<Longrightarrow> extends b c \<Longrightarrow> extends a c"
proof (unfold extends_def, intro allI impI)
  fix T LL
  assume ab: "\<forall>T LL. a T = Some LL \<longrightarrow> (\<exists>xs. b T = Some (LL @ xs) \<and> (\<forall>e\<in>set xs. eTerm e = T))"
    and bc: "\<forall>T LL. b T = Some LL \<longrightarrow> (\<exists>xs. c T = Some (LL @ xs) \<and> (\<forall>e\<in>set xs. eTerm e = T))" and T: "a T = Some LL"
  from ab T obtain xs where xs: "b T = Some (LL @ xs)" "\<forall>e\<in>set xs. eTerm e = T" by blast
  from bc xs(1) obtain ys where "c T = Some ((LL @ xs) @ ys)" "\<forall>e\<in>set ys. eTerm e = T" by blast
  with xs(2) have "c T = Some (LL @ (xs @ ys)) \<and> (\<forall>e\<in>set (xs @ ys). eTerm e = T)" by auto
  then show "\<exists>xs. c T = Some (LL @ xs) \<and> (\<forall>e\<in>set xs. eTerm e = T)" by blast
qed

lemma hreach_run:
  assumes "(cstep n False)\<^sup>*\<^sup>* s t" "hreach n s h"
  shows "\<exists>h'. hreach n t h' \<and> extends (ll h) (ll h') \<and> acks h \<subseteq> acks h'"
  using assms
proof (induction rule: rtranclp_induct)
  case base
  then show ?case using extends_refl by blast
next
  case (step t u)
  then obtain h' where h': "hreach n t h'" "extends (ll h) (ll h')" "acks h \<subseteq> acks h'" by blast
  show ?case
    using h_step [OF h'(1) step(2)] extends_trans [OF h'(2) hreach_extends [OF h'(1) step(2)]]
      order_trans [OF h'(3) acks_mono] by blast
qed

text \<open>What a server considers committed stays safe in every later state of the run.\<close>

lemma run_safe:
  assumes "reachable n False s" "(cstep n False)\<^sup>*\<^sup>* s t" "i < n"
  shows "\<exists>h. hreach n t h \<and> safe n h (currentTerm (nodes s i)) (log (nodes s i)) (nat (commitIndex (nodes s i)))"
proof -
  obtain h where h: "hreach n s h" using reachable_hreach [OF assms(1)] by blast
  obtain h' where h': "hreach n t h'" "extends (ll h) (ll h')" "acks h \<subseteq> acks h'" using hreach_run [OF assms(2) h] by blast
  from safe_mono [OF commit_invD(1) [OF hreach_commit_inv [OF h] assms(3)] h'(2,3) order_refl] h'(1) show ?thesis by blast
qed

lemma reachable_snapshotIndex: "reachable n False s \<Longrightarrow> i < n \<Longrightarrow> snapshotIndex (nodes s i) = 0"
  using reachable_plain by (auto simp: plain_cluster_def plain_def)

lemma entryAt_holds:
  assumes "holds (log rf) k (log rf')" "snapshotIndex rf = 0" "snapshotIndex rf' = 0"
  shows "\<exists>e. entryAt rf (int k) = Some e \<and> entryAt rf' (int k) = Some e"
  using assms holds_nth [OF assms(1), of k] by (simp add: entryAt_def goindex_def holds_def)



lemma run_agree:
  assumes "reachable n False s" "(cstep n False)\<^sup>*\<^sup>* s t" "i < n" "j < n"
    and "1 \<le> k" "k \<le> commitIndex (nodes s i)" "k \<le> commitIndex (nodes t j)"
  shows "\<exists>e. entryAt (nodes s i) k = Some e \<and> entryAt (nodes t j) k = Some e"
proof -
  obtain h where h: "hreach n t h" "safe n h (currentTerm (nodes s i)) (log (nodes s i)) (nat (commitIndex (nodes s i)))"
    using run_safe [OF assms(1-3)] by blast
  obtain q where q: "k = int q" "0 < q" "q \<le> nat (commitIndex (nodes s i))" "q \<le> nat (commitIndex (nodes t j))"
    using assms(5-7) by (cases k rule: int_cases) auto
  from safe_agree [OF h commit_invD(1) [OF hreach_commit_inv [OF h(1)] assms(4)] q(2-4)]
  have "holds (log (nodes s i)) q (log (nodes t j))" .
  from entryAt_holds [OF this] show ?thesis
    using q(1) reachable_snapshotIndex [OF assms(1,3)] reachable_snapshotIndex [OF reachable_run [OF assms(2,1)] assms(4)] by auto
qed


lemma reachable_commit_in_log:
  assumes "reachable n False s" "i < n"
  shows "commitIndex (nodes s i) \<le> lastLogIndex (nodes s i)"
proof -
  obtain h where h: "hreach n s h" using reachable_hreach [OF assms(1)] by blast
  have "raft_wf (nodes s i)" using reachable_node(1) [OF assms] by (simp add: node_ok_def)
  then have wf: "log (nodes s i) \<noteq> []" "0 \<le> commitIndex (nodes s i)"
    using reachable_snapshotIndex [OF assms] by (auto simp: raft_wf_def)
  have "safe n h (currentTerm (nodes s i)) (log (nodes s i)) (nat (commitIndex (nodes s i)))"
    by (rule commit_invD(1) [OF hreach_commit_inv [OF h] assms(2)])
  then have "nat (commitIndex (nodes s i)) < length (log (nodes s i))" using wf(1) by (auto simp: safe_def holds_def)
  then show ?thesis using reachable_snapshotIndex [OF assms] by (simp add: lastLogIndex_def)
qed

lemma reachable_apply_msgs:
  assumes "reachable n False s" "i < n" "applyCommitted (nodes s i) = (rf', ms)"
  shows "ms = map (commandMsg (nodes s i)) [lastApplied (nodes s i) + 1..commitIndex (nodes s i)]"
    and "0 \<le> lastApplied (nodes s i)"
proof -
  have wf: "raft_wf (nodes s i)" using reachable_node(1) [OF assms(1,2)] by (simp add: node_ok_def)
  then show "ms = map (commandMsg (nodes s i)) [lastApplied (nodes s i) + 1..commitIndex (nodes s i)]"
    using applyLoop_msgs [of "nodes s i" "[]"] reachable_commit_in_log [OF assms(1,2)] assms(3)
    by (simp add: applyCommitted_def raft_wf_def)
  show "0 \<le> lastApplied (nodes s i)" using wf reachable_snapshotIndex [OF assms(1,2)] by (simp add: raft_wf_def)
qed



end
