(* ===== verification/RaftHarness.thy ===== *)
theory RaftHarness
  imports RaftCluster RaftHandlers
begin

text \<open>
  The Raft test service and the tester that watches it: the server of \<open>raft1/server.go\<close>, which
  reads \<open>applyCh\<close> and takes snapshots, and the checks of \<open>raft1/test.go\<close>. The tester's
  \<open>srvs\<close> is a list; a command of the Go type \<open>any\<close> is an \<open>'c option\<close>, nil being \<open>None\<close>. Error
  strings are values of \<open>applyError\<close>, the empty string being \<open>None\<close>. A test that calls \<open>Fatalf\<close>
  or panics ends: \<open>None\<close>. Annotations and sleeping are left out. The
  calls from the service to the tester arrive; \<open>RaftSetup\<close> has the ones that fail.
\<close>

subsection \<open>The tester\<close>

datatype applyError =
    CommitMismatch int int nat
  | OutOfOrder int int
  | NotNext int int int
  | NilSnapshot
  | BadSnapshot
  | WrongSnapshotIndex int

record 'c raftServer =
  applyErr :: "applyError option"
  logs :: "int \<rightharpoonup> 'c option"

record 'c tester =
  tsrvs :: "'c raftServer list"
  maxIndex :: int

definition newRaftServer :: "'c raftServer" where
  "newRaftServer = \<lparr>applyErr = None, logs = Map.empty\<rparr>"

definition entry :: "int \<Rightarrow> 'c raftServer \<Rightarrow> 'c option option" where
  "entry i rs = logs rs i"

text \<open>The scan of \<open>CheckLogs\<close> over all servers; the last disagreement is the one reported.\<close>

fun mismatchScan :: "int \<Rightarrow> int \<Rightarrow> 'c option \<Rightarrow> nat \<Rightarrow> 'c raftServer list \<Rightarrow> applyError option \<Rightarrow> applyError option" where
  "mismatchScan i ci v j [] err = err"
| "mismatchScan i ci v j (rs # rest) err =
     (case entry ci rs of
        Some old \<Rightarrow> mismatchScan i ci v (Suc j) rest (if old \<noteq> v then Some (CommitMismatch ci i j) else err)
      | None \<Rightarrow> mismatchScan i ci v (Suc j) rest err)"

definition CheckLogs :: "int \<Rightarrow> 'c ApplyMsg \<Rightarrow> 'c tester \<Rightarrow> ('c tester \<times> applyError option \<times> bool) option" where
  "CheckLogs i m ts =
     do {
       let v = amCommand m;
       me \<leftarrow> goindex (tsrvs ts) i;
       let err_msg = mismatchScan i (CommandIndex m) v 0 (tsrvs ts) None;
       let prevok = entry (CommandIndex m - 1) me \<noteq> None;
       srvs \<leftarrow> gostore (tsrvs ts) i (me\<lparr>logs := (logs me)(CommandIndex m \<mapsto> v)\<rparr>);
       let ts1 = ts\<lparr>tsrvs := srvs\<rparr>;
       let ts2 = (if maxIndex ts1 < CommandIndex m then ts1\<lparr>maxIndex := CommandIndex m\<rparr> else ts1);
       Some (ts2, err_msg, prevok)
     }"

definition IngestLog :: "int \<Rightarrow> (int \<rightharpoonup> 'c option) \<Rightarrow> 'c tester \<Rightarrow> 'c tester option" where
  "IngestLog i xlog ts =
     do {
       me \<leftarrow> goindex (tsrvs ts) i;
       srvs \<leftarrow> gostore (tsrvs ts) i (me\<lparr>logs := xlog\<rparr>);
       Some (ts\<lparr>tsrvs := srvs\<rparr>)
     }"

definition ApplyErr :: "int \<Rightarrow> applyError \<Rightarrow> 'c tester \<Rightarrow> 'c tester option" where
  "ApplyErr i err ts =
     do {
       me \<leftarrow> goindex (tsrvs ts) i;
       srvs \<leftarrow> gostore (tsrvs ts) i (me\<lparr>applyErr := Some err\<rparr>);
       Some (ts\<lparr>tsrvs := srvs\<rparr>)
     }"

fun nCommittedLoop :: "int \<Rightarrow> 'c raftServer list \<Rightarrow> nat \<Rightarrow> 'c option \<Rightarrow> (nat \<times> 'c option) option" where
  "nCommittedLoop index [] count cmd = Some (count, cmd)"
| "nCommittedLoop index (rs # rest) count cmd =
     (if applyErr rs \<noteq> None then None
      else case entry index rs of
        None \<Rightarrow> nCommittedLoop index rest count cmd
      | Some cmd1 \<Rightarrow>
          if 0 < count \<and> cmd \<noteq> cmd1 then None
          else nCommittedLoop index rest (count + 1) cmd1)"

definition nCommitted :: "int \<Rightarrow> 'c tester \<Rightarrow> (nat \<times> 'c option) option" where
  "nCommitted index ts = nCommittedLoop index (tsrvs ts) 0 None"

definition checkNoAgreement :: "int \<Rightarrow> 'c tester \<Rightarrow> unit option" where
  "checkNoAgreement index ts =
     do { (n, _) \<leftarrow> nCommitted index ts; if 0 < n then None else Some () }"

text \<open>
  The checks on the leaders read, server by server, whether it is connected and what \<open>GetState\<close>
  returns. One round of \<open>checkOneLeader\<close>: the map from terms to leaders, then its verdict.
\<close>

datatype verdict = MultipleLeaders int | NoLeaderYet | OneLeader nat

fun leadersByTerm :: "nat \<Rightarrow> (bool \<times> int \<times> bool) list \<Rightarrow> (int \<Rightarrow> nat list) \<Rightarrow> (int \<Rightarrow> nat list)" where
  "leadersByTerm i [] m = m"
| "leadersByTerm i ((conn, term', leader) # rest) m =
     leadersByTerm (Suc i) rest (if conn \<and> leader then m(term' := m term' @ [i]) else m)"

definition leaderTerms :: "(bool \<times> int \<times> bool) list \<Rightarrow> int list" where
  "leaderTerms reads = sort (remdups (map (\<lambda>(_, t, _). t) (filter (\<lambda>(conn, _, leader). conn \<and> leader) reads)))"

definition checkLeaderRound :: "(bool \<times> int \<times> bool) list \<Rightarrow> verdict" where
  "checkLeaderRound reads =
     (let m = leadersByTerm 0 reads (\<lambda>_. []);
          terms = leaderTerms reads
      in case filter (\<lambda>t. 1 < length (m t)) terms of
           t # _ \<Rightarrow> MultipleLeaders t
         | [] \<Rightarrow> if terms = [] then NoLeaderYet else OneLeader (hd (m (last terms))))"

fun checkTermsLoop :: "(bool \<times> int \<times> bool) list \<Rightarrow> int \<Rightarrow> int option" where
  "checkTermsLoop [] trm = Some trm"
| "checkTermsLoop ((conn, xterm, _) # rest) trm =
     (if conn then
        (if trm = -1 then checkTermsLoop rest xterm
         else if trm \<noteq> xterm then None
         else checkTermsLoop rest trm)
      else checkTermsLoop rest trm)"

definition checkTerms :: "(bool \<times> int \<times> bool) list \<Rightarrow> int option" where
  "checkTerms reads = checkTermsLoop reads (-1)"

definition checkNoLeader :: "(bool \<times> int \<times> bool) list \<Rightarrow> unit option" where
  "checkNoLeader reads = (if \<exists>(conn, t, leader) \<in> set reads. conn \<and> leader then None else Some ())"

subsection \<open>The server\<close>

definition SnapShotInterval :: int where "SnapShotInterval = 10"

record 'c rfsrv =
  rme :: int
  rlastApplied :: int
  rlog :: "int \<rightharpoonup> 'c option"
  rraft :: "'c raft"

definition ingestSnap :: "'c bytes \<Rightarrow> int \<Rightarrow> 'c rfsrv \<Rightarrow> 'c rfsrv \<times> applyError option" where
  "ingestSnap snap index rs =
     (if snap = [] then (rs, Some NilSnapshot)
      else case DecodeInt snap of
        (None, _) \<Rightarrow> (rs, Some BadSnapshot)
      | (Some lastIncludedIndex, d1) \<Rightarrow>
          (case DecodeAnys d1 of
             (None, _) \<Rightarrow> (rs, Some BadSnapshot)
           | (Some xlog, _) \<Rightarrow>
               if index \<noteq> -1 \<and> index \<noteq> lastIncludedIndex
               then (rs, Some (WrongSnapshotIndex (rme rs)))
               else (rs\<lparr>rlog := (\<lambda>j. if 0 \<le> j \<and> j < int (length xlog) then Some (xlog ! nat j) else None),
                         rlastApplied := lastIncludedIndex\<rparr>, None)))"

text \<open>The body of the loop of \<open>applier\<close> for one message.\<close>

definition applierMsg :: "'c ApplyMsg \<Rightarrow> 'c rfsrv \<times> 'c tester \<Rightarrow> ('c rfsrv \<times> 'c tester) option" where
  "applierMsg m = (\<lambda>(rs, ts).
     if \<not> CommandValid m then Some (rs, ts)
     else do {
       (ts1, err_msg, prevok) \<leftarrow> CheckLogs (rme rs) m ts;
       let err_msg = (if 1 < CommandIndex m \<and> \<not> prevok then Some (OutOfOrder (rme rs) (CommandIndex m)) else err_msg);
       case err_msg of
         None \<Rightarrow> Some (rs, ts1)
       | Some e \<Rightarrow> do { ts2 \<leftarrow> ApplyErr (rme rs) e ts1; Some (rs, ts2) }
     })"

text \<open>A missing key of the Go map reads nil.\<close>

definition takeSnapshot :: "int \<Rightarrow> 'c rfsrv \<Rightarrow> 'c bytes" where
  "takeSnapshot ci rs =
     Encode (GAnys (map (\<lambda>j. case rlog rs j of None \<Rightarrow> None | Some c \<Rightarrow> c) [0..ci])) (Encode (GInt ci) [])"

definition applierSnapMsg :: "'c ApplyMsg \<Rightarrow> 'c rfsrv \<times> 'c tester \<Rightarrow> ('c rfsrv \<times> 'c tester) option" where
  "applierSnapMsg m = (\<lambda>(rs, ts).
     do {
       (rs1, ts1, err_msg) \<leftarrow>
         (if SnapshotValid m then
            (case ingestSnap (amSnapshot m) (SnapshotIndex m) rs of (rs1, err) \<Rightarrow>
               do { ts1 \<leftarrow> IngestLog (rme rs1) (rlog rs1) ts; Some (rs1, ts1, err) })
          else if CommandValid m then
            do {
              let err = (if CommandIndex m \<noteq> rlastApplied rs + 1
                         then Some (NotNext (rme rs) (rlastApplied rs + 1) (CommandIndex m)) else None);
              (ts1, err1) \<leftarrow>
                (if err = None then do {
                   (ts1, e, prevok) \<leftarrow> CheckLogs (rme rs) m ts;
                   Some (ts1, if 1 < CommandIndex m \<and> \<not> prevok then Some (OutOfOrder (rme rs) (CommandIndex m)) else e)
                 }
                 else Some (ts, err));
              let rs1 = rs\<lparr>rlog := (rlog rs)(CommandIndex m \<mapsto> amCommand m), rlastApplied := CommandIndex m\<rparr>;
              rs2 \<leftarrow>
                (if (CommandIndex m + 1) mod SnapShotInterval = 0 then do {
                   rf \<leftarrow> Snapshot (CommandIndex m) (takeSnapshot (CommandIndex m) rs1) (rraft rs1);
                   Some (rs1\<lparr>rraft := rf\<rparr>)
                 }
                 else Some rs1);
              Some (rs2, ts1, err1)
            }
          else Some (rs, ts, None));
       case err_msg of
         None \<Rightarrow> Some (rs1, ts1)
       | Some e \<Rightarrow> do { ts2 \<leftarrow> ApplyErr (rme rs1) e ts1; Some (rs1, ts2) }
     })"

definition newRfsrv :: "nat \<Rightarrow> int \<Rightarrow> 'c gob persister \<Rightarrow> int \<Rightarrow> bool \<Rightarrow> 'c tester \<Rightarrow> ('c rfsrv \<times> 'c tester) option" where
  "newRfsrv n srv ps now snap ts =
     (let sn = ReadSnapshot ps;
          s = \<lparr>rme = srv, rlastApplied = 0, rlog = Map.empty, rraft = Make n srv ps now\<rparr>
      in if snap \<and> sn \<noteq> [] then
           (case ingestSnap sn (-1) s of
              (s1, Some e) \<Rightarrow> None
            | (s1, None) \<Rightarrow> do { ts1 \<leftarrow> IngestLog (rme s1) (rlog s1) ts; Some (s1, ts1) })
         else Some (s, ts))"

subsection \<open>Agreement of the applied commands\<close>

definition agree :: "'c tester \<Rightarrow> bool" where
  "agree ts \<longleftrightarrow> (\<forall>rs \<in> set (tsrvs ts). \<forall>rs' \<in> set (tsrvs ts). \<forall>k c c'.
     logs rs k = Some c \<longrightarrow> logs rs' k = Some c' \<longrightarrow> c = c')"

definition disagrees :: "int \<Rightarrow> 'c option \<Rightarrow> 'c tester \<Rightarrow> bool" where
  "disagrees k v ts \<longleftrightarrow> (\<exists>rs \<in> set (tsrvs ts). \<exists>old. logs rs k = Some old \<and> old \<noteq> v)"

lemma mismatchScan_iff:
  "mismatchScan i ci v j rss err \<noteq> None \<longleftrightarrow>
     err \<noteq> None \<or> (\<exists>rs \<in> set rss. \<exists>old. logs rs ci = Some old \<and> old \<noteq> v)"
  by (induction i ci v j rss err rule: mismatchScan.induct) (auto simp: entry_def split: option.splits if_splits)

lemma CheckLogs_result:
  assumes "0 \<le> i" "i < int (length (tsrvs ts))"
  shows "\<exists>ts' err. CheckLogs i m ts = Some (ts', err, logs (tsrvs ts ! nat i) (CommandIndex m - 1) \<noteq> None) \<and>
    (err \<noteq> None \<longleftrightarrow> disagrees (CommandIndex m) (amCommand m) ts) \<and>
    tsrvs ts' = (tsrvs ts)[nat i := (tsrvs ts ! nat i)\<lparr>logs :=
      (logs (tsrvs ts ! nat i))(CommandIndex m \<mapsto> amCommand m)\<rparr>] \<and>
    maxIndex ts' = max (maxIndex ts) (CommandIndex m)"
  using assms mismatchScan_iff [of i "CommandIndex m" "amCommand m" 0 "tsrvs ts" None]
  by (auto simp: CheckLogs_def Let_def disagrees_def entry_def)

lemma agree_update:
  assumes "agree ts" "\<not> disagrees k v ts" "own \<in> set (tsrvs ts)" "tsrvs ts' = (tsrvs ts)[i := own\<lparr>logs := (logs own)(k \<mapsto> v)\<rparr>]"
  shows "agree ts'"
  unfolding agree_def
proof (intro ballI allI impI)
  fix rs rs' j c c'
  let ?own = "own\<lparr>logs := (logs own)(k \<mapsto> v)\<rparr>"
  assume "rs \<in> set (tsrvs ts')" "rs' \<in> set (tsrvs ts')" and l: "logs rs j = Some c" "logs rs' j = Some c'"
  then have mem: "rs \<in> insert ?own (set (tsrvs ts))" "rs' \<in> insert ?own (set (tsrvs ts))"
    using set_update_subset_insert [of "tsrvs ts" i ?own] assms(4) by auto
  have val: "if j = k then d = v else \<exists>x \<in> set (tsrvs ts). logs x j = Some d"
    if "x \<in> insert ?own (set (tsrvs ts))" "logs x j = Some d" for x d
    using that assms(2,3) by (auto simp: disagrees_def split: if_splits)
  from val [OF mem(1) l(1)] val [OF mem(2) l(2)] assms(1) show "c = c'"
    by (cases "j = k") (auto simp: agree_def)
qed

text \<open>
  \<open>CheckLogs\<close> reports an error exactly when some server has applied another command at the same
  index; as long as it reports none, all servers agree on every index they have applied.
\<close>

lemma CheckLogs_correct:
  assumes "0 \<le> i" "i < int (length (tsrvs ts))"
  shows "\<exists>ts' err prevok. CheckLogs i m ts = Some (ts', err, prevok) \<and>
    (err \<noteq> None \<longleftrightarrow> disagrees (CommandIndex m) (amCommand m) ts) \<and>
    (agree ts \<and> err = None \<longrightarrow> agree ts') \<and>
    logs (tsrvs ts' ! nat i) (CommandIndex m) = Some (amCommand m) \<and>
    (prevok \<longleftrightarrow> logs (tsrvs ts ! nat i) (CommandIndex m - 1) \<noteq> None)"
proof -
  obtain ts' err where r: "CheckLogs i m ts = Some (ts', err, logs (tsrvs ts ! nat i) (CommandIndex m - 1) \<noteq> None)"
    "err \<noteq> None \<longleftrightarrow> disagrees (CommandIndex m) (amCommand m) ts"
    "tsrvs ts' = (tsrvs ts)[nat i := (tsrvs ts ! nat i)\<lparr>logs :=
      (logs (tsrvs ts ! nat i))(CommandIndex m \<mapsto> amCommand m)\<rparr>]"
    using CheckLogs_result [OF assms, of m] by blast
  have mem: "tsrvs ts ! nat i \<in> set (tsrvs ts)" using assms by simp
  have "agree ts'" if "agree ts" "err = None"
    by (rule agree_update [OF that(1) _ mem r(3)]) (use r(2) that(2) in simp)
  moreover have "logs (tsrvs ts' ! nat i) (CommandIndex m) = Some (amCommand m)"
    using assms r(3) by simp
  ultimately show ?thesis using r(1,2) by blast
qed

theorem CheckLogs_correct_witness:
  "\<exists>ts' err prevok. CheckLogs 1 \<lparr>CommandValid = True, amCommand = Some (6 :: nat), CommandIndex = 2,
       SnapshotValid = False, amSnapshot = [], SnapshotTerm = 0, SnapshotIndex = 0\<rparr>
     \<lparr>tsrvs = [newRaftServer\<lparr>logs := [2 \<mapsto> Some 5]\<rparr>, newRaftServer], maxIndex = 2\<rparr> = Some (ts', err, prevok) \<and>
     err \<noteq> None \<and> \<not> prevok"
proof -
  let ?m = "\<lparr>CommandValid = True, amCommand = Some (6 :: nat), CommandIndex = 2,
       SnapshotValid = False, amSnapshot = [], SnapshotTerm = 0, SnapshotIndex = 0\<rparr> :: nat ApplyMsg"
  let ?ts = "\<lparr>tsrvs = [newRaftServer\<lparr>logs := [2 \<mapsto> Some 5]\<rparr>, newRaftServer], maxIndex = 2\<rparr> :: nat tester"
  have "disagrees (CommandIndex ?m) (amCommand ?m) ?ts" by (simp add: disagrees_def newRaftServer_def)
  with CheckLogs_correct [of 1 ?ts ?m] show ?thesis by (auto simp: newRaftServer_def)
qed

definition applied :: "int \<Rightarrow> 'c tester \<Rightarrow> nat" where
  "applied index ts = length (filter (\<lambda>rs. logs rs index \<noteq> None) (tsrvs ts))"

lemma nCommittedLoop_agree:
  assumes "\<forall>rs \<in> set rss. applyErr rs = None" "\<forall>rs \<in> set rss. \<forall>c. logs rs index = Some c \<longrightarrow> c = v"
    "0 < count \<longrightarrow> cmd = v"
  shows "\<exists>cmd'. nCommittedLoop index rss count cmd =
      Some (count + length (filter (\<lambda>rs. logs rs index \<noteq> None) rss), cmd') \<and>
    (0 < count + length (filter (\<lambda>rs. logs rs index \<noteq> None) rss) \<longrightarrow> cmd' = v)"
  using assms
proof (induction index rss count cmd rule: nCommittedLoop.induct)
  case (2 index rs rest count cmd)
  show ?case
  proof (cases "logs rs index")
    case None
    then show ?thesis using 2 by (simp add: entry_def)
  next
    case (Some c)
    then have "c = v" using "2.prems"(2) by auto
    then show ?thesis using 2 Some by (cases "count = 0") (simp_all add: entry_def)
  qed
qed simp

text \<open>
  While the servers agree and none reported an apply error, \<open>nCommitted\<close> does not fail: it returns
  the number of servers that applied the index, and their common command.
\<close>

theorem nCommitted_correct:
  assumes "agree ts" "\<forall>rs \<in> set (tsrvs ts). applyErr rs = None"
  shows "\<exists>cmd. nCommitted index ts = Some (applied index ts, cmd) \<and>
    (\<forall>rs \<in> set (tsrvs ts). \<forall>c. logs rs index = Some c \<longrightarrow> c = cmd)"
proof (cases "\<exists>rs \<in> set (tsrvs ts). \<exists>c. logs rs index = Some c")
  case True
  then obtain rs c where rs: "rs \<in> set (tsrvs ts)" "logs rs index = Some c" by blast
  then have all: "\<forall>rs \<in> set (tsrvs ts). \<forall>d. logs rs index = Some d \<longrightarrow> d = c"
    using assms(1) by (auto simp: agree_def)
  have "0 < applied index ts" using rs by (auto simp: applied_def filter_empty_conv)
  with nCommittedLoop_agree [OF assms(2) all, of 0 None] all show ?thesis
    by (auto simp: nCommitted_def applied_def)
next
  case False
  then have "\<forall>rs \<in> set (tsrvs ts). \<forall>d. logs rs index = Some d \<longrightarrow> d = None" by auto
  from nCommittedLoop_agree [OF assms(2) this, of 0 None] False show ?thesis
    by (auto simp: nCommitted_def applied_def)
qed

theorem nCommitted_correct_witness:
  "\<exists>cmd. nCommitted 2 \<lparr>tsrvs = [newRaftServer\<lparr>logs := [2 \<mapsto> Some (5 :: nat)]\<rparr>, newRaftServer,
     newRaftServer\<lparr>logs := [2 \<mapsto> Some 5]\<rparr>], maxIndex = 2\<rparr> = Some (2, cmd) \<and> cmd = Some 5"
proof -
  let ?ts = "\<lparr>tsrvs = [newRaftServer\<lparr>logs := [2 \<mapsto> Some (5 :: nat)]\<rparr>, newRaftServer,
     newRaftServer\<lparr>logs := [2 \<mapsto> Some 5]\<rparr>], maxIndex = 2\<rparr> :: nat tester"
  have "agree ?ts" "\<forall>rs \<in> set (tsrvs ?ts). applyErr rs = None"
    by (auto simp: agree_def newRaftServer_def split: if_splits)
  from nCommitted_correct [OF this, of 2] show ?thesis by (auto simp: applied_def newRaftServer_def)
qed

subsection \<open>Snapshots of the service\<close>

text \<open>
  A snapshot the service takes at an index is decoded again to exactly the commands it had applied
  up to that index, with that index as the last applied one, whatever the server that
  ingests it held before; the index of the message is checked against the one in the data.
\<close>

lemma snapshot_roundtrip:
  assumes "0 \<le> ci" "\<forall>j. 0 \<le> j \<and> j \<le> ci \<longrightarrow> rlog rs j = Some (cmds j)"
  shows "ingestSnap (takeSnapshot ci rs) ci rs' =
      (rs'\<lparr>rlog := (\<lambda>j. if 0 \<le> j \<and> j \<le> ci then Some (cmds j) else None), rlastApplied := ci\<rparr>, None) \<and>
    ingestSnap (takeSnapshot ci rs) (-1) rs' = ingestSnap (takeSnapshot ci rs) ci rs' \<and>
    (index \<noteq> -1 \<and> index \<noteq> ci \<longrightarrow>
       ingestSnap (takeSnapshot ci rs) index rs' = (rs', Some (WrongSnapshotIndex (rme rs'))))"
proof -
  let ?xs = "map (\<lambda>j. case rlog rs j of None \<Rightarrow> None | Some c \<Rightarrow> c) [0..ci]"
  have nth: "?xs ! nat j = cmds j" if "0 \<le> j" "j \<le> ci" for j
    using that assms(2) by simp
  have "(\<lambda>j. if 0 \<le> j \<and> j < int (length ?xs) then Some (?xs ! nat j) else None) =
      (\<lambda>j. if 0 \<le> j \<and> j \<le> ci then Some (cmds j) else None)"
    using assms(1) nth by (auto simp: fun_eq_iff)
  then show ?thesis by (simp add: takeSnapshot_def ingestSnap_def Encode_def)
qed

theorem snapshot_roundtrip_witness:
  "snd (ingestSnap (takeSnapshot 0 \<lparr>rme = 0, rlastApplied = 0, rlog = [0 \<mapsto> Some (7 :: nat)],
     rraft = newRaft 3 0 MakePersister 0\<rparr>) 0 \<lparr>rme = 1, rlastApplied = 0, rlog = Map.empty,
     rraft = newRaft 3 1 MakePersister 0\<rparr>) = None"
proof -
  let ?rs = "\<lparr>rme = 0, rlastApplied = 0, rlog = [0 \<mapsto> Some (7 :: nat)], rraft = newRaft 3 0 MakePersister 0\<rparr>"
  have "(0 :: int) \<le> 0" "\<forall>j. 0 \<le> j \<and> j \<le> 0 \<longrightarrow> rlog ?rs j = Some (Some 7)" by auto
  from snapshot_roundtrip [OF this] show ?thesis by simp
qed

subsection \<open>A correct stream of applied commands raises no alarm\<close>

text \<open>
  The tester is ready for the commands of server \<open>i\<close> after index \<open>la\<close>: no server holds another
  command at a later index, and the server itself has applied \<open>la\<close>.
\<close>

definition ready :: "'c raft \<Rightarrow> int \<Rightarrow> int \<Rightarrow> 'c tester \<Rightarrow> bool" where
  "ready rf i la ts \<longleftrightarrow>
     0 \<le> i \<and> i < int (length (tsrvs ts)) \<and>
     (\<forall>k. la < k \<and> k \<le> commitIndex rf \<longrightarrow> \<not> disagrees k (amCommand (commandMsg rf k)) ts) \<and>
     (0 < la \<longrightarrow> logs (tsrvs ts ! nat i) la \<noteq> None)"

lemma applierMsg_ready:
  assumes "ready rf (rme rs) la ts" "0 \<le> la" "la < commitIndex rf"
  shows "\<exists>ts'. applierMsg (commandMsg rf (la + 1)) (rs, ts) = Some (rs, ts') \<and>
    ready rf (rme rs) (la + 1) ts' \<and> map applyErr (tsrvs ts') = map applyErr (tsrvs ts) \<and>
    (\<forall>k. logs (tsrvs ts' ! nat (rme rs)) k =
       (if k = la + 1 then Some (amCommand (commandMsg rf (la + 1))) else logs (tsrvs ts ! nat (rme rs)) k))"
proof -
  let ?i = "rme rs" and ?m = "commandMsg rf (la + 1)"
  have i: "0 \<le> ?i" "?i < int (length (tsrvs ts))" using assms(1) by (simp_all add: ready_def)
  have m: "CommandValid ?m" "CommandIndex ?m = la + 1" by (simp_all add: commandMsg_def)
  obtain ts' err where r: "CheckLogs ?i ?m ts = Some (ts', err, logs (tsrvs ts ! nat ?i) la \<noteq> None)"
    "err \<noteq> None \<longleftrightarrow> disagrees (la + 1) (amCommand ?m) ts"
    "tsrvs ts' = (tsrvs ts)[nat ?i := (tsrvs ts ! nat ?i)\<lparr>logs := (logs (tsrvs ts ! nat ?i))(la + 1 \<mapsto> amCommand ?m)\<rparr>]"
    using CheckLogs_result [OF i, of ?m] m by auto
  have no: "err = None" using r(2) assms by (auto simp: ready_def)
  have prev: "\<not> (1 < la + 1 \<and> logs (tsrvs ts ! nat ?i) la = None)" using assms(1) by (auto simp: ready_def)
  have step: "applierMsg ?m (rs, ts) = Some (rs, ts')"
    using m r(1) no prev by (auto simp: applierMsg_def)
  have "\<not> disagrees k (amCommand (commandMsg rf k)) ts'" if "la + 1 < k" "k \<le> commitIndex rf" for k
  proof -
    have "\<not> disagrees k (amCommand (commandMsg rf k)) ts" using assms(1) that by (simp add: ready_def)
    then show ?thesis
      using that set_update_subset_insert [of "tsrvs ts" "nat ?i"
          "(tsrvs ts ! nat ?i)\<lparr>logs := (logs (tsrvs ts ! nat ?i))(la + 1 \<mapsto> amCommand ?m)\<rparr>"] i
      unfolding disagrees_def r(3) by (force simp: nth_mem)
  qed
  then have "ready rf ?i (la + 1) ts'" using i r(3) by (simp add: ready_def)
  moreover have "map applyErr (tsrvs ts') = map applyErr (tsrvs ts)"
    using i r(3) by (simp add: map_update list_update_same_conv)
  ultimately show ?thesis using step r(3) i by auto
qed

lemma applier_ready:
  assumes "ready rf (rme rs) la ts" "0 \<le> la"
  shows "\<exists>ts'. for_each (map (commandMsg rf) [la + 1..commitIndex rf]) applierMsg (rs, ts) = Some (rs, ts') \<and>
    map applyErr (tsrvs ts') = map applyErr (tsrvs ts) \<and>
    (\<forall>k. logs (tsrvs ts' ! nat (rme rs)) k =
       (if la < k \<and> k \<le> commitIndex rf then Some (amCommand (commandMsg rf k))
        else logs (tsrvs ts ! nat (rme rs)) k))"
  using assms
proof (induction "nat (commitIndex rf - la)" arbitrary: la ts)
  case 0
  then show ?case by auto
next
  case (Suc d)
  then have lt: "la < commitIndex rf" by linarith
  obtain ts1 where t1: "applierMsg (commandMsg rf (la + 1)) (rs, ts) = Some (rs, ts1)"
    "ready rf (rme rs) (la + 1) ts1" "map applyErr (tsrvs ts1) = map applyErr (tsrvs ts)"
    "\<forall>k. logs (tsrvs ts1 ! nat (rme rs)) k =
       (if k = la + 1 then Some (amCommand (commandMsg rf (la + 1))) else logs (tsrvs ts ! nat (rme rs)) k)"
    using applierMsg_ready [OF Suc.prems lt] by blast
  have "d = nat (commitIndex rf - (la + 1))" using Suc.hyps(2) by linarith
  from Suc.hyps(1) [OF this t1(2)] Suc.prems(2) obtain ts' where
    "for_each (map (commandMsg rf) [la + 1 + 1..commitIndex rf]) applierMsg (rs, ts1) = Some (rs, ts')"
    "map applyErr (tsrvs ts') = map applyErr (tsrvs ts1)"
    "\<forall>k. logs (tsrvs ts' ! nat (rme rs)) k =
       (if la + 1 < k \<and> k \<le> commitIndex rf then Some (amCommand (commandMsg rf k))
        else logs (tsrvs ts1 ! nat (rme rs)) k)" by auto
  then show ?case using t1 lt by (intro exI [of _ ts']) (auto simp: upto_rec1 [of "la + 1"])
qed

text \<open>
  What \<open>applyCommitted\<close> sends, the service and the tester accept: when no server has applied another
  command at an index and this server has applied up to \<open>lastApplied\<close>, running the service over the
  messages raises no error and leaves the tester with exactly the committed commands of the log added.
\<close>

lemma applier_accepts_committed:
  assumes "raft_wf rf" "commitIndex rf \<le> lastLogIndex rf" "applyCommitted rf = (rf', msgs)"
    "ready rf (rme rs) (lastApplied rf) ts"
  shows "\<exists>ts'. for_each msgs applierMsg (rs, ts) = Some (rs, ts') \<and>
    map applyErr (tsrvs ts') = map applyErr (tsrvs ts) \<and>
    (\<forall>k. lastApplied rf < k \<and> k \<le> commitIndex rf \<longrightarrow>
       logs (tsrvs ts' ! nat (rme rs)) k = map_option Command (entryAt rf k))"
proof -
  have msgs: "msgs = map (commandMsg rf) [lastApplied rf + 1..commitIndex rf]"
    using assms(1-3) applyLoop_msgs [of rf "[]"] by (simp add: applyCommitted_def raft_wf_def)
  have "0 \<le> lastApplied rf" using assms(1) by (auto simp: raft_wf_def)
  from applier_ready [OF assms(4) this] obtain ts' where ts':
    "for_each msgs applierMsg (rs, ts) = Some (rs, ts')" "map applyErr (tsrvs ts') = map applyErr (tsrvs ts)"
    "\<forall>k. logs (tsrvs ts' ! nat (rme rs)) k =
       (if lastApplied rf < k \<and> k \<le> commitIndex rf then Some (amCommand (commandMsg rf k))
        else logs (tsrvs ts ! nat (rme rs)) k)" unfolding msgs by blast
  have "Some (amCommand (commandMsg rf k)) = map_option Command (entryAt rf k)"
    if "lastApplied rf < k" "k \<le> commitIndex rf" for k
    using that assms(1,2) by (simp add: entryAt_def commandMsg_def raft_wf_def lastLogIndex_def)
  with ts' show ?thesis by auto
qed

theorem applier_accepts_committed_witness:
  "\<exists>ts'. for_each (snd (applyCommitted ((newRaft 3 0 MakePersister 0)\<lparr>
      log := [\<lparr>eTerm = 0, Command = None\<rparr>, \<lparr>eTerm = 1, Command = Some (5::nat)\<rparr>], commitIndex := 1\<rparr>)))
      applierMsg (\<lparr>rme = 0, rlastApplied = 0, rlog = Map.empty, rraft = newRaft 3 0 MakePersister 0\<rparr>,
        \<lparr>tsrvs = [newRaftServer], maxIndex = 0\<rparr>) =
      Some (\<lparr>rme = 0, rlastApplied = 0, rlog = Map.empty, rraft = newRaft 3 0 MakePersister 0\<rparr>, ts') \<and>
      logs (tsrvs ts' ! 0) 1 = Some (Some 5)"
proof -
  let ?rf = "(newRaft 3 0 MakePersister 0)\<lparr>
      log := [\<lparr>eTerm = 0, Command = None\<rparr>, \<lparr>eTerm = 1, Command = Some (5::nat)\<rparr>], commitIndex := 1\<rparr>"
  let ?rs = "\<lparr>rme = 0, rlastApplied = 0, rlog = Map.empty, rraft = newRaft 3 0 MakePersister 0\<rparr> :: nat rfsrv"
  let ?ts = "\<lparr>tsrvs = [newRaftServer], maxIndex = 0\<rparr> :: nat tester"
  obtain rf' msgs where eq: "applyCommitted ?rf = (rf', msgs)" by fastforce
  have wf: "raft_wf ?rf" "commitIndex ?rf \<le> lastLogIndex ?rf"
    by (simp_all add: raft_wf_def newRaft_def lastLogIndex_def)
  have rd: "ready ?rf (rme ?rs) (lastApplied ?rf) ?ts"
    by (simp add: ready_def disagrees_def newRaftServer_def newRaft_def)
  from applier_accepts_committed [OF wf eq rd] eq show ?thesis
    by (auto simp: newRaft_def entryAt_def)
qed

subsection \<open>The check for one leader\<close>

definition leadsAt :: "(bool \<times> int \<times> bool) list \<Rightarrow> int \<Rightarrow> nat \<Rightarrow> bool" where
  "leadsAt reads t k \<longleftrightarrow> k < length reads \<and> reads ! k = (True, t, True)"

lemma leadersByTerm_eq:
  "leadersByTerm i reads m t = m t @ filter (\<lambda>k. leadsAt reads t (k - i)) [i..<i + length reads]"
proof (induction i reads m arbitrary: rule: leadersByTerm.induct)
  case (2 i conn term' leader rest m)
  let ?r = "(conn, term', leader) # rest"
  have shift: "filter (\<lambda>k. leadsAt rest t (k - Suc i)) [Suc i..<Suc i + length rest] =
      filter (\<lambda>k. leadsAt ?r t (k - i)) [Suc i..<Suc i + length rest]"
    by (rule filter_cong) (auto simp: leadsAt_def nth_Cons' Suc_diff_le)
  have "[i..<i + length ?r] = i # [Suc i..<Suc i + length rest]" by (subst upt_rec) simp
  moreover have "leadsAt ?r t 0 \<longleftrightarrow> conn \<and> leader \<and> term' = t" by (auto simp: leadsAt_def)
  ultimately show ?case using "2.IH" shift by auto
qed simp

lemma leaderTerms_set: "set (leaderTerms reads) = {t. \<exists>k. leadsAt reads t k}"
  by (force simp: leaderTerms_def leadsAt_def in_set_conv_nth)

lemma cstep_leaders_mono: "cstep n snaps s t \<Longrightarrow> leaders s \<subseteq> leaders t"
  by (induction rule: cstep.induct) auto

lemma csteps_leaders_mono: "(cstep n snaps)\<^sup>*\<^sup>* s t \<Longrightarrow> leaders s \<subseteq> leaders t"
  by (induction rule: rtranclp_induct) (auto dest: cstep_leaders_mono)

lemma sorted_le_last: "x \<in> set xs \<Longrightarrow> sorted xs \<Longrightarrow> x \<le> last xs"
  by (induction xs rule: rev_induct) (auto simp: sorted_append)

text \<open>
  C27. \<open>checkOneLeader\<close> never finds two leaders of a term in a run of the servers, even though it reads
  the servers one after the other while the run goes on; when it returns a server, that server
  was connected and led the highest term any connected server led.
\<close>

theorem checkOneLeader_correct:
  assumes "\<forall>i<n. reachable n snaps (ss i) \<and> (cstep n snaps)\<^sup>*\<^sup>* (ss i) s" "reachable n snaps s"
    "reads = map (\<lambda>i. (conn i, GetState (nodes (ss i) i))) [0..<n]"
  shows "(case checkLeaderRound reads of
      MultipleLeaders t \<Rightarrow> False
    | NoLeaderYet \<Rightarrow> \<forall>i<n. \<not> (conn i \<and> snd (GetState (nodes (ss i) i)))
    | OneLeader k \<Rightarrow> k < n \<and> conn k \<and> snd (GetState (nodes (ss k) k)) \<and>
        (\<forall>i<n. conn i \<and> snd (GetState (nodes (ss i) i)) \<longrightarrow>
           fst (GetState (nodes (ss i) i)) \<le> fst (GetState (nodes (ss k) k))))"
proof -
  have leads: "leadsAt reads t k \<longleftrightarrow> k < n \<and> conn k \<and> GetState (nodes (ss k) k) = (t, True)" for t k
    by (auto simp: leadsAt_def assms(3))
  have uniq: "k = l" if "leadsAt reads t k" "leadsAt reads t l" for t k l
  proof -
    have "(t, j) \<in> leaders s" if "leadsAt reads t j" for j
      using that leads assms(1) reachable_cluster_inv csteps_leaders_mono
      by (fastforce simp: cluster_inv_def leaders_inv_def GetState_def)
    with that leaders_unique [OF reachable_cluster_inv [OF assms(2)]] show ?thesis by blast
  qed
  let ?m = "leadersByTerm 0 reads (\<lambda>_. [])"
  have m: "?m t = filter (leadsAt reads t) [0..<length reads]" for t
    using leadersByTerm_eq [of 0 reads "\<lambda>_. []" t] by simp
  have small: "\<not> 1 < length (?m t)" for t
  proof
    assume len: "1 < length (?m t)"
    have d: "distinct (?m t)" by (simp add: m)
    have mem: "leadsAt reads t k" if "k \<in> set (?m t)" for k using that by (simp add: m)
    have "?m t ! 0 = ?m t ! 1" using len by (intro uniq [of t] mem nth_mem) auto
    then show False using len nth_eq_iff_index_eq [OF d, of 0 1] by (cases "?m t = []") auto
  qed
  then have none: "filter (\<lambda>t. 1 < length (?m t)) (leaderTerms reads) = []" by simp
  show ?thesis
  proof (cases "leaderTerms reads = []")
    case True
    then have no: "\<not> leadsAt reads t k" for t k using leaderTerms_set [of reads] by auto
    have "\<not> (conn i \<and> snd (GetState (nodes (ss i) i)))" if "i < n" for i
      using no [of "fst (GetState (nodes (ss i) i))" i] that
      by (cases "GetState (nodes (ss i) i)") (auto simp: leads)
    then show ?thesis using True none by (auto simp: checkLeaderRound_def Let_def)
  next
    case False
    let ?t = "last (leaderTerms reads)"
    have "?t \<in> set (leaderTerms reads)" using False by simp
    then obtain k where k: "leadsAt reads ?t k" using leaderTerms_set by blast
    then have "k \<in> set (?m ?t)" by (simp add: m leadsAt_def)
    then have "hd (?m ?t) \<in> set (?m ?t)" by (cases "?m ?t") auto
    then have hd: "leadsAt reads ?t (hd (?m ?t))" by (simp add: m)
    have "t \<le> ?t" if "leadsAt reads t i" for t i
    proof -
      have "t \<in> set (leaderTerms reads)" using that leaderTerms_set by blast
      moreover have "sorted (leaderTerms reads)" by (simp add: leaderTerms_def)
      ultimately show ?thesis by (rule sorted_le_last)
    qed
    then have top: "fst (GetState (nodes (ss i) i)) \<le> ?t" if "i < n" "conn i" "snd (GetState (nodes (ss i) i))" for i
      using that by (cases "GetState (nodes (ss i) i)") (auto simp: leads)
    have "checkLeaderRound reads = OneLeader (hd (?m ?t))"
      using False none by (simp add: checkLeaderRound_def Let_def)
    then show ?thesis using hd top by (simp add: leads)
  qed
qed

theorem checkOneLeader_correct_witness:
  "\<exists>(s :: nat cluster) k. reachable 2 False s \<and>
     checkLeaderRound (map (\<lambda>i. (True, GetState (nodes s i))) [0..<2]) = OneLeader k \<and>
     1 \<le> fst (GetState (nodes s k))"
proof -
  obtain s :: "nat cluster" where s: "reachable 2 False s" "GetState (nodes s 0) = (1, True)"
    using run_leader by blast
  have run: "\<forall>i<2. reachable 2 False s \<and> (cstep 2 False)\<^sup>*\<^sup>* s s" using s(1) by simp
  note v = checkOneLeader_correct [OF run s(1) refl, of "\<lambda>_. True"]
  show ?thesis
  proof (cases "checkLeaderRound (map (\<lambda>i. (True, GetState (nodes s i))) [0..<2])")
    case (OneLeader k)
    then have "\<forall>i<2. snd (GetState (nodes s i)) \<longrightarrow> fst (GetState (nodes s i)) \<le> fst (GetState (nodes s k))"
      using v by simp
    then have "1 \<le> fst (GetState (nodes s k))" using s(2) by force
    with s(1) OneLeader show ?thesis by blast
  next
    case NoLeaderYet
    then have "\<forall>i<2. \<not> snd (GetState (nodes s i))" using v by simp
    then show ?thesis using s(2) by force
  next
    case (MultipleLeaders t)
    then show ?thesis using v by simp
  qed
qed

end
