(* ===== verification/RaftWatch.thy ===== *)
theory RaftWatch
  imports RaftCommit RaftHarness
begin

text \<open>
  A group of Raft servers under the tester, without snapshots: the commands that a server sends on its apply channel wait
  in its queue until its \<open>applier\<close> reports them to the tester (\<open>raft1/server.go\<close>, \<open>raft1/test.go\<close>),
  one at a time and interleaved with everything else the group does. A crash empties the queue; the tester
  keeps what it was told (\<open>mksrv\<close> makes no new \<open>raftServer\<close> on a restart).
\<close>

record 'c watch =
  wcl :: "'c cluster"
  wq :: "nat \<Rightarrow> 'c ApplyMsg list"
  wts :: "'c tester"

definition makeTest :: "nat \<Rightarrow> 'c tester" where
  "makeTest n = \<lparr>tsrvs = replicate n newRaftServer, maxIndex = 0\<rparr>"

definition service :: "'c watch \<Rightarrow> nat \<Rightarrow> 'c rfsrv" where
  "service w i = \<lparr>rme = int i, rlastApplied = 0, rlog = Map.empty, rraft = nodes (wcl w) i\<rparr>"

inductive wstep :: "nat \<Rightarrow> 'c watch \<Rightarrow> 'c watch \<Rightarrow> bool" for n where
  w_apply: "i < n \<Longrightarrow> applyCommitted (nodes (wcl w) i) = (rf', msgs) \<Longrightarrow>
    wstep n w (w\<lparr>wcl := (wcl w)\<lparr>nodes := (nodes (wcl w))(i := rf')\<rparr>, wq := (wq w)(i := wq w i @ msgs)\<rparr>)"
| w_check: "i < n \<Longrightarrow> wq w i = m # ms \<Longrightarrow> applierMsg m (service w i, wts w) = Some (rs', ts') \<Longrightarrow>
    wstep n w (w\<lparr>wq := (wq w)(i := ms), wts := ts'\<rparr>)"
| w_crash: "cstep n False (wcl w) t \<Longrightarrow> i < n \<Longrightarrow> epoch t i = Suc (epoch (wcl w) i) \<Longrightarrow>
    wstep n w (w\<lparr>wcl := t, wq := (wq w)(i := [])\<rparr>)"
| w_other: "cstep n False (wcl w) t \<Longrightarrow> epoch t = epoch (wcl w) \<Longrightarrow>
    \<forall>i<n. lastApplied (nodes t i) = lastApplied (nodes (wcl w) i) \<Longrightarrow> wstep n w (w\<lparr>wcl := t\<rparr>)"

inductive wreach :: "nat \<Rightarrow> 'c watch \<Rightarrow> bool" for n where
  wr_init: "wreach n \<lparr>wcl = init_cluster n t0, wq = (\<lambda>_. []), wts = makeTest n\<rparr>"
| wr_step: "wreach n w \<Longrightarrow> wstep n w w' \<Longrightarrow> wreach n w'"

subsection \<open>What the group agreed on\<close>

definition agreed :: "nat \<Rightarrow> 'c hist \<Rightarrow> int \<Rightarrow> 'c option \<Rightarrow> bool" where
  "agreed n h k c \<longleftrightarrow> (\<exists>U K LL. committed n h U K \<and> ll h U = Some LL \<and> 0 < k \<and> nat k \<le> K \<and> Command (LL ! nat k) = c)"

lemma agreed_unique:
  assumes h: "hreach n s h" and a: "agreed n h k c" "agreed n h k c'"
  shows "c = c'"
proof -
  obtain U K LL where U: "committed n h U K" "ll h U = Some LL" "nat k \<le> K" "Command (LL ! nat k) = c"
    using a(1) by (auto simp: agreed_def)
  obtain V J MM where V: "committed n h V J" "ll h V = Some MM" "nat k \<le> J" "Command (MM ! nat k) = c'"
    using a(2) by (auto simp: agreed_def)
  have "LL ! nat k = MM ! nat k"
  proof (cases "U \<le> V")
    case True
    show ?thesis using holds_nth [OF committed_holds_eq [OF h U(1,2) True V(2)] U(3)] .
  next
    case False
    then show ?thesis using holds_nth [OF committed_holds_eq [OF h V(1,2) _ U(2)] V(3)] by simp
  qed
  then show ?thesis using U(4) V(4) by simp
qed

lemma agreed_mono:
  assumes "agreed n h k c" "extends (ll h) (ll h')" "acks h \<subseteq> acks h'"
  shows "agreed n h' k c"
proof -
  obtain U K LL where U: "committed n h U K" "ll h U = Some LL" "0 < k" "nat k \<le> K" "Command (LL ! nat k) = c"
    using assms(1) by (auto simp: agreed_def)
  obtain xs where xs: "ll h' U = Some (LL @ xs)" using assms(2) U(2) unfolding extends_def by blast
  have "nat k < length LL" using U(1,2,4) by (auto simp: committed_def)
  then have "Command ((LL @ xs) ! nat k) = c" using U(5) by (simp add: nth_append)
  then show ?thesis using committed_mono [OF U(1) assms(2,3)] xs U(3,4) unfolding agreed_def by blast
qed

lemma agreed_safe:
  assumes "safe n h T (log rf) m" "0 < k" "nat k \<le> m" "snapshotIndex rf = 0"
  shows "agreed n h k (amCommand (commandMsg rf k))"
proof -
  obtain U K LL where U: "committed n h U K" "ll h U = Some LL" "m \<le> K" "holds LL m (log rf)"
    using assms(1-3) by (auto simp: safe_def)
  then show ?thesis unfolding agreed_def
    using holds_nth [OF U(4), of "nat k"] assms by (auto simp: commandMsg_def intro!: exI [of _ U] exI [of _ K])
qed

lemma apply_agreed:
  assumes "hreach n s h" "i < n" "applyCommitted (nodes s i) = (rf', ms)" "m \<in> set ms"
  shows "agreed n h (CommandIndex m) (amCommand m) \<and> CommandValid m"
proof -
  have r: "reachable n False s" by (rule hreach_reachable [OF assms(1)])
  note M = reachable_apply_msgs [OF r assms(2,3)]
  obtain k where k: "m = commandMsg (nodes s i) k" "0 < k" "k \<le> commitIndex (nodes s i)" using M assms(4) by auto
  from agreed_safe [OF commit_invD(1) [OF hreach_commit_inv [OF assms(1)] assms(2)] k(2)] k(3)
  have "agreed n h k (amCommand m)" using k(1) reachable_snapshotIndex [OF r assms(2)] by (simp add: nat_mono)
  then show ?thesis using k(1) by (simp add: commandMsg_def)
qed

subsection \<open>The tester sees no error\<close>

definition queue_ok :: "'c ApplyMsg list \<Rightarrow> int \<Rightarrow> (int \<rightharpoonup> 'c option) \<Rightarrow> bool" where
  "queue_ok q la lg \<longleftrightarrow> (\<exists>a. 0 \<le> a \<and> a \<le> la \<and> map CommandIndex q = [a + 1..la] \<and> (0 < a \<longrightarrow> lg a \<noteq> None))"

definition watch_inv :: "nat \<Rightarrow> 'c watch \<Rightarrow> 'c hist \<Rightarrow> bool" where
  "watch_inv n w h \<longleftrightarrow> hreach n (wcl w) h \<and> length (tsrvs (wts w)) = n \<and>
     (\<forall>rs \<in> set (tsrvs (wts w)). applyErr rs = None \<and> (\<forall>k c. logs rs k = Some c \<longrightarrow> agreed n h k c)) \<and>
     (\<forall>i<n. (\<forall>m \<in> set (wq w i). agreed n h (CommandIndex m) (amCommand m) \<and> CommandValid m) \<and>
        queue_ok (wq w i) (lastApplied (nodes (wcl w) i)) (logs (tsrvs (wts w) ! i)))"

lemma watch_invD:
  assumes "watch_inv n w h"
  shows "hreach n (wcl w) h" "length (tsrvs (wts w)) = n"
    and "rs \<in> set (tsrvs (wts w)) \<Longrightarrow> applyErr rs = None"
    and "rs \<in> set (tsrvs (wts w)) \<Longrightarrow> logs rs k = Some c \<Longrightarrow> agreed n h k c"
    and "i < n \<Longrightarrow> m \<in> set (wq w i) \<Longrightarrow> agreed n h (CommandIndex m) (amCommand m) \<and> CommandValid m"
    and "i < n \<Longrightarrow> queue_ok (wq w i) (lastApplied (nodes (wcl w) i)) (logs (tsrvs (wts w) ! i))"
  using assms unfolding watch_inv_def by blast+

text \<open>A step of the group in which each queue stays what the server has sent and not reported yet.\<close>

lemma watch_inv_cluster:
  assumes inv: "watch_inv n w h" and step: "cstep n False (wcl w) t"
    and q: "\<And>i m. i < n \<Longrightarrow> m \<in> set (q i) \<Longrightarrow> m \<in> set (wq w i) \<or> agreed n h (CommandIndex m) (amCommand m) \<and> CommandValid m"
      "\<And>i. i < n \<Longrightarrow> queue_ok (q i) (lastApplied (nodes t i)) (logs (tsrvs (wts w) ! i))"
  shows "watch_inv n (w\<lparr>wcl := t, wq := q\<rparr>) (remember n (wcl w) t h)"
proof -
  note D = watch_invD [OF inv]
  note mono = agreed_mono [OF _ hreach_extends [OF D(1) step] acks_mono]
  have "hreach n t (remember n (wcl w) t h)" by (rule h_step [OF D(1) step])
  moreover have "agreed n (remember n (wcl w) t h) (CommandIndex m) (amCommand m) \<and> CommandValid m"
    if "i < n" "m \<in> set (q i)" for i m
    using q(1) [OF that] D(5) [OF that(1)] mono by blast
  ultimately show ?thesis using D(2-4) q(2) mono unfolding watch_inv_def by simp
qed

lemma crash_nodes:
  assumes "cstep n False s t" "epoch t i = Suc (epoch s i)"
  shows "\<exists>rf now. nodes t = (nodes s)(i := Make n (int i) (Checkpoint (persister rf)) now) \<and>
    (rf = nodes s i \<or> (\<exists>u. rf = stepDown u (nodes s i)))"
  using assms by (induction rule: cstep.induct) (auto split: if_splits)

lemma watch_inv_check:
  assumes inv: "watch_inv n w h" and i: "i < n" and q: "wq w i = m # ms"
  shows "\<exists>ts'. applierMsg m (service w i, wts w) = Some (service w i, ts') \<and>
    watch_inv n (w\<lparr>wq := (wq w)(i := ms), wts := ts'\<rparr>) h"
proof -
  note D = watch_invD [OF inv]
  let ?ts = "wts w" let ?own = "tsrvs (wts w) ! i" let ?k = "CommandIndex m"
  have ag: "agreed n h ?k (amCommand m)" "CommandValid m" using D(5) [OF i, of m] q by auto
  obtain a where a: "0 \<le> a" "a \<le> lastApplied (nodes (wcl w) i)" "map CommandIndex (m # ms) = [a + 1..lastApplied (nodes (wcl w) i)]"
    "0 < a \<longrightarrow> logs ?own a \<noteq> None" using D(6) [OF i] q by (auto simp: queue_ok_def)
  have lt: "a < lastApplied (nodes (wcl w) i)" using a(3) by (cases "a + 1 \<le> lastApplied (nodes (wcl w) i)") auto
  then have k: "?k = a + 1" "map CommandIndex ms = [a + 1 + 1..lastApplied (nodes (wcl w) i)]"
    using a(3) by (simp_all add: upto_rec1 [of "a + 1"])
  have no: "\<not> disagrees ?k (amCommand m) ?ts"
    using D(4) agreed_unique [OF D(1) ag(1)] unfolding disagrees_def by blast
  obtain ts' err where r: "CheckLogs (int i) m ?ts = Some (ts', err, logs ?own (?k - 1) \<noteq> None)"
    "err \<noteq> None \<longleftrightarrow> disagrees ?k (amCommand m) ?ts"
    "tsrvs ts' = (tsrvs ?ts)[i := ?own\<lparr>logs := (logs ?own)(?k \<mapsto> amCommand m)\<rparr>]"
    using CheckLogs_result [of "int i" ?ts m] i D(2) by auto
  have step: "applierMsg m (service w i, ?ts) = Some (service w i, ts')"
    using ag(2) r(1,2) no a(1,4) k(1) by (auto simp: applierMsg_def service_def)
  have own: "?own \<in> set (tsrvs ?ts)" using i D(2) by simp
  have "applyErr rs = None \<and> (\<forall>k c. logs rs k = Some c \<longrightarrow> agreed n h k c)" if "rs \<in> set (tsrvs ts')" for rs
  proof -
    have "rs = ?own\<lparr>logs := (logs ?own)(?k \<mapsto> amCommand m)\<rparr> \<or> rs \<in> set (tsrvs ?ts)"
      using that in_list_update unfolding r(3) by fast
    then show ?thesis using D(3,4) own ag(1) by (auto split: if_splits)
  qed
  moreover have "queue_ok ms (lastApplied (nodes (wcl w) i)) (logs (tsrvs ts' ! i))"
    unfolding queue_ok_def using a(1) lt k i D(2) r(3) by (intro exI [of _ "a + 1"]) simp
  moreover have "queue_ok (wq w j) (lastApplied (nodes (wcl w) j)) (logs (tsrvs ts' ! j))" if "j < n" "j \<noteq> i" for j
    using D(6) [OF that(1)] that r(3) by simp
  ultimately have "watch_inv n (w\<lparr>wq := (wq w)(i := ms), wts := ts'\<rparr>) h"
    using D(1,2,5) r(3) q unfolding watch_inv_def by auto
  then show ?thesis using step by blast
qed


lemma watch_inv_step:
  assumes "wstep n w w'" "watch_inv n w h"
  shows "\<exists>h'. watch_inv n w' h'"
  using assms
proof (induction rule: wstep.induct)
  case (w_apply i w rf' msgs)
  note D = watch_invD [OF w_apply(3)]
  let ?s = "wcl w"
  have r: "reachable n False ?s" by (rule hreach_reachable [OF D(1)])
  have la: "lastApplied rf' = max (lastApplied (nodes ?s i)) (commitIndex (nodes ?s i))"
    using w_apply(2) by (auto simp: applyCommitted_def dest: applyLoop_frame)
  have idx: "map CommandIndex msgs = [lastApplied (nodes ?s i) + 1..commitIndex (nodes ?s i)]"
    by (simp add: reachable_apply_msgs(1) [OF r w_apply(1,2)] commandMsg_def comp_def)
  let ?la = "lastApplied (nodes ?s i)" let ?c = "commitIndex (nodes ?s i)"
  have join: "[a + 1..?la] @ [?la + 1..?c] = [a + 1..max ?la ?c]" if "0 \<le> a" "a \<le> ?la" for a
    using that upto_split1 [of "a + 1" "?la + 1" ?c] by (cases ?la ?c rule: linorder_cases) (simp_all add: max_def)
  have "queue_ok (wq w i @ msgs) (lastApplied rf') (logs (tsrvs (wts w) ! i))"
    using D(6) [OF w_apply(1)] idx la join unfolding queue_ok_def by fastforce
  then have "watch_inv n (w\<lparr>wcl := ?s\<lparr>nodes := (nodes ?s)(i := rf')\<rparr>, wq := (wq w)(i := wq w i @ msgs)\<rparr>)
      (remember n ?s (?s\<lparr>nodes := (nodes ?s)(i := rf')\<rparr>) h)"
    using apply_agreed [OF D(1) w_apply(1,2)] D(6)
    by (intro watch_inv_cluster [OF w_apply(3) cstep.apply_msgs [OF w_apply(1,2)]]) (auto split: if_splits)
  then show ?case by blast
next
  case (w_check i w m ms rs' ts')
  then show ?case using watch_inv_check [OF w_check(4,1,2)] by auto
next
  case (w_crash w t i)
  note D = watch_invD [OF w_crash(4)]
  let ?s = "wcl w"
  have i: "durable (nodes ?s i)" "snapshotIndex (nodes ?s i) = 0"
    using hreach_invs(1,2) [OF D(1)] w_crash(2) by (auto simp: cluster_inv_def nodes_inv_def node_ok_def plain_cluster_def plain_def)
  obtain rf now where rf: "nodes t = (nodes ?s)(i := Make n (int i) (Checkpoint (persister rf)) now)"
    "rf = nodes ?s i \<or> (\<exists>u. rf = stepDown u (nodes ?s i))" using crash_nodes [OF w_crash(1,3)] by blast
  have "lastApplied (nodes t i) = 0" using rf i Make_soft(2) [of rf n "int i" now] by auto
  then have "watch_inv n (w\<lparr>wcl := t, wq := (wq w)(i := [])\<rparr>) (remember n ?s t h)"
    using rf(1) D(6) by (intro watch_inv_cluster [OF w_crash(4,1)]) (auto simp: queue_ok_def split: if_splits)
  then show ?case by blast
next
  case (w_other w t)
  note D = watch_invD [OF w_other(4)]
  have "watch_inv n (w\<lparr>wcl := t, wq := wq w\<rparr>) (remember n (wcl w) t h)"
    using D(6) w_other(3) by (intro watch_inv_cluster [OF w_other(4,1)]) auto
  then show ?case by auto
qed

lemma wreach_inv: "wreach n w \<Longrightarrow> \<exists>h. watch_inv n w h"
proof (induction rule: wreach.induct)
  case (wr_init t0)
  have la: "lastApplied (nodes (init_cluster n t0) i) = 0" for i by (simp add: init_node newRaft_def)
  show ?case using h_init [of n t0] by (intro exI) (auto simp: watch_inv_def makeTest_def newRaftServer_def queue_ok_def la)
next
  case (wr_step w w')
  then show ?case using watch_inv_step by blast
qed

lemma wreach_agree:
  assumes "wreach n w"
  shows "agree (wts w)" "\<forall>rs \<in> set (tsrvs (wts w)). applyErr rs = None"
proof -
  obtain h where inv: "watch_inv n w h" using wreach_inv [OF assms] by blast
  note D = watch_invD [OF inv]
  show "agree (wts w)" unfolding agree_def using D(4) agreed_unique [OF D(1)] by blast
  show "\<forall>rs \<in> set (tsrvs (wts w)). applyErr rs = None" using D(3) by blast
qed

lemma wreach_nCommitted:
  assumes "wreach n w"
  shows "\<exists>cmd. nCommitted index (wts w) = Some (applied index (wts w), cmd) \<and>
    (\<forall>rs \<in> set (tsrvs (wts w)). \<forall>c. logs rs index = Some c \<longrightarrow> c = cmd)"
  by (rule nCommitted_correct [OF wreach_agree [OF assms]])

lemma queue_head_accepted:
  assumes "wreach n w" "i < n" "wq w i = m # ms"
  shows "\<exists>w'. wstep n w w' \<and> wq w' i = ms \<and> logs (tsrvs (wts w') ! i) (CommandIndex m) = Some (amCommand m)"
proof -
  obtain h where inv: "watch_inv n w h" using wreach_inv [OF assms(1)] by blast
  note D = watch_invD [OF inv]
  obtain ts' where ts': "applierMsg m (service w i, wts w) = Some (service w i, ts')"
    using watch_inv_check [OF inv assms(2,3)] by blast
  obtain ts1 err where r: "CheckLogs (int i) m (wts w) = Some (ts1, err, logs (tsrvs (wts w) ! i) (CommandIndex m - 1) \<noteq> None)"
    "tsrvs ts1 = (tsrvs (wts w))[i := (tsrvs (wts w) ! i)\<lparr>logs := (logs (tsrvs (wts w) ! i))(CommandIndex m \<mapsto> amCommand m)\<rparr>]"
    using CheckLogs_result [of "int i" "wts w" m] assms(2) D(2) by auto
  have "CommandValid m" using D(5) [OF assms(2), of m] assms(3) by simp
  then have "logs (tsrvs ts' ! i) (CommandIndex m) = Some (amCommand m)"
    using ts' r assms(2) D(2) by (auto simp: applierMsg_def service_def ApplyErr_def split: option.splits bind_splits if_splits)
  then show ?thesis using w_check [OF assms(2,3) ts'] by (intro exI [of _ "w\<lparr>wq := (wq w)(i := ms), wts := ts'\<rparr>"]) simp
qed



text \<open>A schedule without restarts and applying moves the watched group on.\<close>

fun plain_action :: "'c action \<Rightarrow> bool" where
  "plain_action (Apply i) = False"
| "plain_action (Restart i now) = False"
| "plain_action _ = True"

lemma handler_lastApplied:
  "RequestVote now args rf = Some (rf', reply) \<Longrightarrow> lastApplied rf' = lastApplied rf"
  "startElection now rf = Some (rf', args) \<Longrightarrow> lastApplied rf' = lastApplied rf"
  "Start cmd rf = (rf', q) \<Longrightarrow> lastApplied rf' = lastApplied rf"
  "updateCommitIndex rf = Some rf' \<Longrightarrow> lastApplied rf' = lastApplied rf"
  "handleAppendReply j a r rf = Some rf' \<Longrightarrow> lastApplied rf' = lastApplied rf"
  "AppendEntries now a rf = Some (rf', r) \<Longrightarrow> lastApplied rf' = lastApplied rf"
  "handleVoteReply args reply rf cnt = Some (rf', cnt') \<Longrightarrow> lastApplied rf' = lastApplied rf"
proof -
  show "RequestVote now args rf = Some (rf', reply) \<Longrightarrow> lastApplied rf' = lastApplied rf"
    by (auto simp: RequestVote_def Let_def split: if_splits bind_splits)
  show "startElection now rf = Some (rf', args) \<Longrightarrow> lastApplied rf' = lastApplied rf"
    by (auto simp: startElection_def Let_def split: bind_splits)
  show "Start cmd rf = (rf', q) \<Longrightarrow> lastApplied rf' = lastApplied rf"
    by (auto simp: Start_def Let_def split: if_splits)
  show "updateCommitIndex rf = Some rf' \<Longrightarrow> lastApplied rf' = lastApplied rf"
    by (auto simp: updateCommitIndex_def dest!: commitLoop_frame split: if_splits)
  show "handleAppendReply j a r rf = Some rf' \<Longrightarrow> lastApplied rf' = lastApplied rf"
    by (auto simp: handleAppendReply_def Let_def split: if_splits bind_splits)
  show "AppendEntries now a rf = Some (rf', r) \<Longrightarrow> lastApplied rf' = lastApplied rf"
    by (auto simp: AppendEntries_def Let_def split: if_splits bind_splits)
  show "handleVoteReply args reply rf cnt = Some (rf', cnt') \<Longrightarrow> lastApplied rf' = lastApplied rf"
    by (cases cnt) (auto simp: handleVoteReply_def becomeLeader_def Let_def split: if_splits bind_splits)
qed

lemma perform_frame:
  assumes "perform n a s = Some t" "plain_action a" "plain_cluster n s"
  shows "epoch t = epoch s \<and> (\<forall>i. lastApplied (nodes t i) = lastApplied (nodes s i))"
  using assms
proof (induction n a s rule: perform.induct)
  case (3 n k now s)
  then have c: "calls s ! k \<in> set (calls s)" "deliver s now (calls s ! k) = Some t" by (auto split: if_splits)
  then have "plain_call (calls s ! k)" using "3.prems"(3) by (simp add: plain_cluster_def)
  then show ?case using c(2)
    by (cases "calls s ! k") (auto dest: handler_lastApplied split: if_splits option.splits prod.splits)
qed (auto dest: handler_lastApplied split: if_splits option.splits prod.splits)

lemma wsteps_schedule:
  assumes "reachable n False (wcl w)" "for_each as (perform n) (wcl w) = Some t" "\<forall>a \<in> set as. plain_action a"
  shows "(wstep n)\<^sup>*\<^sup>* w (w\<lparr>wcl := t\<rparr>)"
  using assms
proof (induction as arbitrary: w)
  case (Cons a as)
  then obtain u where u: "perform n a (wcl w) = Some u" "for_each as (perform n) u = Some t" by (auto split: bind_splits)
  note f = perform_frame [OF u(1) _ reachable_plain [OF Cons.prems(1)]]
  have "wstep n w (w\<lparr>wcl := u\<rparr>)"
    using w_other [OF perform_cstep [OF u(1)]] f Cons.prems(3) by simp
  moreover have "(wstep n)\<^sup>*\<^sup>* (w\<lparr>wcl := u\<rparr>) ((w\<lparr>wcl := u\<rparr>)\<lparr>wcl := t\<rparr>)"
    using Cons.IH [of "w\<lparr>wcl := u\<rparr>"] reach_step [OF Cons.prems(1) perform_cstep [OF u(1)]] u(2) Cons.prems(3) by simp
  ultimately show ?case by (simp add: converse_rtranclp_into_rtranclp)
next
  case Nil
  then have "w\<lparr>wcl := t\<rparr> = w" by simp
  then show ?case by simp
qed

lemma wreach_steps: "(wstep n)\<^sup>*\<^sup>* w w' \<Longrightarrow> wreach n w \<Longrightarrow> wreach n w'"
  by (induction rule: rtranclp_induct) (auto intro: wr_step)

lemmas wreach_schedule = wreach_steps [OF wsteps_schedule]


end
