(* ===== verification/RaftOne.thy ===== *)
theory RaftOne
  imports RaftWatch
begin

text \<open>
  The agreement a test asks for: \<open>one\<close> and \<open>wait\<close> of \<open>raft1/test.go\<close>, running beside the group of servers of
  \<open>RaftWatch\<close>. Time is nondeterministic: a wait may end at any moment; the sleeps of \<open>wait\<close> are counted
  in milliseconds.
\<close>

subsection \<open>Looking for a leader\<close>

text \<open>
  One round of \<open>one\<close> over the servers, from the one after \<open>starts\<close>. \<open>ask\<close> is what \<open>Start\<close> of a server returns, nothing
  for a server that is not connected or has no process.
\<close>

fun oneTry :: "nat \<Rightarrow> (nat \<Rightarrow> (int \<times> bool) option) \<Rightarrow> nat \<Rightarrow> nat \<Rightarrow> int \<times> nat" where
  "oneTry n ask 0 starts = (-1, starts)"
| "oneTry n ask (Suc k) starts =
     (let s = (starts + 1) mod n
      in case ask s of
           Some (index1, True) \<Rightarrow> (index1, s)
         | _ \<Rightarrow> oneTry n ask k s)"

lemma oneTry_scan:
  assumes "0 < n"
  shows "(\<forall>j \<in> {1..k}. \<nexists>idx. ask ((starts + j) mod n) = Some (idx, True)) \<Longrightarrow>
      oneTry n ask k starts = (-1, if k = 0 then starts else (starts + k) mod n)"
    and "(\<exists>j \<in> {1..k}. \<exists>idx. ask ((starts + j) mod n) = Some (idx, True)) \<Longrightarrow>
      (\<exists>s idx. s < n \<and> oneTry n ask k starts = (idx, s) \<and> ask s = Some (idx, True))"
proof (induction k arbitrary: starts)
  case (Suc k)
  have all: "(\<forall>j \<in> {1..Suc k}. P j) \<longleftrightarrow> P 1 \<and> (\<forall>j \<in> {1..k}. P (Suc j))" for P :: "nat \<Rightarrow> bool"
  proof (intro iffI conjI ballI)
    fix j assume "P 1 \<and> (\<forall>j \<in> {1..k}. P (Suc j))" "j \<in> {1..Suc k}"
    then show "P j" by (cases j; cases "j = 1") auto
  qed auto
  have shift: "((starts + 1) mod n + j) mod n = (starts + Suc j) mod n" for starts j by (simp add: mod_add_left_eq)
  have skip: "oneTry n ask (Suc k) starts = oneTry n ask k ((starts + 1) mod n)"
    if "\<nexists>idx. ask ((starts + 1) mod n) = Some (idx, True)" for starts
    using that by (cases "ask ((starts + 1) mod n)") (auto simp: Let_def split: bool.splits)
  { case (1 starts)
    then have "oneTry n ask k ((starts + 1) mod n) = (-1, if k = 0 then (starts + 1) mod n else ((starts + 1) mod n + k) mod n)"
      unfolding all by (intro Suc.IH(1)) (simp only: shift, blast)
    then show ?case using skip [of starts] 1 unfolding all by (simp add: mod_add_left_eq)
  next
    case (2 starts)
    show ?case
    proof (cases "\<exists>idx. ask ((starts + 1) mod n) = Some (idx, True)")
      case True
      then show ?thesis using assms by (auto simp: Let_def intro!: exI [of _ "Suc starts mod n"])
    next
      case False
      have "\<exists>j \<in> {1..k}. \<exists>idx. ask ((starts + Suc j) mod n) = Some (idx, True)"
        using 2 False all [of "\<lambda>j. \<nexists>idx. ask ((starts + j) mod n) = Some (idx, True)"] by blast
      then show ?thesis using Suc.IH(2) [of "(starts + 1) mod n"] skip [OF False] unfolding shift by metis
    qed }
qed simp_all

lemma scan_all:
  assumes "s < n"
  shows "\<exists>j \<in> {1..n}. (starts + j) mod n = (s :: nat)"
proof -
  let ?j = "(s + n - starts mod n - 1) mod n + 1"
  let ?m = "s + n - starts mod n - 1"
  have "(starts + ?j) mod n = (starts + 1 + ?m mod n) mod n" by (simp add: ac_simps)
  also have "\<dots> = (starts + 1 + ?m) mod n" by (rule mod_add_right_eq)
  also have "\<dots> = (starts + (1 + ?m)) mod n" by (simp only: add.assoc)
  also have "\<dots> = (starts mod n + (1 + ?m)) mod n" by (rule mod_add_left_eq [symmetric])
  also have "starts mod n + (1 + ?m) = s + n" using assms mod_less_divisor [of n starts] by linarith
  finally show ?thesis using assms by (intro bexI [of _ ?j]) (auto simp: Suc_le_eq)
qed

text \<open>
  A round of \<open>one\<close> misses no leader: wherever the round starts, when some server would accept the command the round
  ends at a server that accepted it, with the index that server returned, and when none would, all servers have been asked and the index is -1.
\<close>

lemma one_round_finds_leader:
  assumes "0 < n"
  shows "if \<exists>s < n. \<exists>idx. ask s = Some (idx, True)
    then \<exists>s idx. s < n \<and> oneTry n ask n starts = (idx, s) \<and> ask s = Some (idx, True)
    else oneTry n ask n starts = (-1, starts mod n)"
proof (cases "\<exists>s < n. \<exists>idx. ask s = Some (idx, True)")
  case True
  then obtain s idx where s: "s < n" "ask s = Some (idx, True)" by blast
  then obtain j where "j \<in> {1..n}" "(starts + j) mod n = s" using scan_all by blast
  with s have "\<exists>j \<in> {1..n}. \<exists>idx. ask ((starts + j) mod n) = Some (idx, True)" by blast
  from oneTry_scan(2) [OF assms this] True show ?thesis by (simp only: if_True)
next
  case False
  moreover have "(starts + j) mod n < n" for j using assms by simp
  ultimately show ?thesis using oneTry_scan(1) [OF assms, of n ask starts] assms by auto
qed

theorem one_round_finds_leader_witness:
  "oneTry 3 (\<lambda>s. if s = 0 then None else Some (if s = 2 then (4, True) else (-1, False))) 3 2 = (4, 2)"
proof -
  let ?ask = "\<lambda>s :: nat. if s = 0 then None else Some (if s = 2 then (4 :: int, True) else (-1, False))"
  have "\<exists>s < 3. \<exists>idx. ?ask s = Some (idx, True)" by (intro exI [of _ 2]) simp
  then have "\<exists>s idx. s < 3 \<and> oneTry 3 ?ask 3 2 = (idx, s) \<and> ?ask s = Some (idx, True)"
    using one_round_finds_leader [of 3 ?ask 2] by (simp only: if_True zero_less_numeral simp_thms)
  then show ?thesis by (auto split: if_splits)
qed

subsection \<open>Waiting for commitment\<close>

text \<open>
  The loop of \<open>wait\<close>: \<open>count it\<close> is what \<open>nCommitted\<close> returns in iteration \<open>it\<close>, \<open>terms it\<close> the terms of the
  servers then, nothing for a server without a process. The result says whether a server moved on, and the time slept.
\<close>

fun waitLoop :: "nat \<Rightarrow> nat \<Rightarrow> nat \<Rightarrow> nat \<Rightarrow> int \<Rightarrow> int \<Rightarrow> (nat \<Rightarrow> (nat \<times> 'c option) option) \<Rightarrow> (nat \<Rightarrow> int option list) \<Rightarrow> (bool \<times> nat) option" where
  "waitLoop 0 it to slept n startTerm count terms = Some (False, slept)"
| "waitLoop (Suc k) it to slept n startTerm count terms =
     do {
       (nd, _) \<leftarrow> count it;
       if n \<le> int nd then Some (False, slept)
       else do {
         let to' = (if to < 1000 then 2 * to else to);
         moved \<leftarrow> (if startTerm > -1
           then for_each (terms it) (\<lambda>t m. if m then Some True else do { x \<leftarrow> t; Some (x > startTerm) }) False
           else Some False);
         if moved then Some (True, slept + to)
         else waitLoop k (Suc it) to' (slept + to) n startTerm count terms
       }
     }"

datatype 'c waitResult = Moved | Committed "'c option"

definition waitFor :: "int \<Rightarrow> int \<Rightarrow> (nat \<Rightarrow> (nat \<times> 'c option) option) \<Rightarrow> (nat \<times> 'c option) option \<Rightarrow> (nat \<Rightarrow> int option list) \<Rightarrow>
    'c waitResult option" where
  "waitFor n startTerm count final terms =
     do {
       (moved, _) \<leftarrow> waitLoop 30 0 10 0 n startTerm count terms;
       if moved then Some Moved
       else do { (nd, cmd) \<leftarrow> final; if int nd < n then None else Some (Committed cmd) }
     }"

lemma moved_scan:
  "None \<notin> set ts \<Longrightarrow> for_each ts (\<lambda>t m. if m then Some True else do { x \<leftarrow> t; Some (x > startTerm) }) m0 =
     Some (m0 \<or> (\<exists>t. Some t \<in> set ts \<and> startTerm < t))"
proof (induction ts arbitrary: m0)
  case (Cons a ts)
  then obtain x where "a = Some x" by (cases a) auto
  then show ?case using Cons by auto
qed simp

lemma waitLoop_outcome:
  assumes "\<forall>i. count i \<noteq> None \<and> None \<notin> set (terms i)"
  shows "\<exists>m t. waitLoop k it to slept n startTerm count terms = Some (m, t) \<and> slept \<le> t \<and> t \<le> slept + backoff k to \<and>
    (m \<longrightarrow> -1 < startTerm \<and> (\<exists>i t'. it \<le> i \<and> i < it + k \<and> Some t' \<in> set (terms i) \<and> startTerm < t')) \<and>
    (\<not> m \<longrightarrow> t = slept + backoff k to \<or> (\<exists>i nd c. it \<le> i \<and> i < it + k \<and> count i = Some (nd, c) \<and> n \<le> int nd))"
proof (induction k arbitrary: it to slept)
  case (Suc k)
  obtain nd c where c: "count it = Some (nd, c)" using assms by fastforce
  have ts: "None \<notin> set (terms it)" using assms by simp
  show ?case
  proof (cases "n \<le> int nd")
    case True
    then have "waitLoop (Suc k) it to slept n startTerm count terms = Some (False, slept)" using c by simp
    moreover have "\<exists>i nd c. it \<le> i \<and> i < it + Suc k \<and> count i = Some (nd, c) \<and> n \<le> int nd"
      using True c by (intro exI [of _ it] exI [of _ nd] exI [of _ c]) simp
    ultimately show ?thesis by (intro exI [of _ False] exI [of _ slept]) simp
  next
    case enough: False
    show ?thesis
    proof (cases "startTerm > -1 \<and> (\<exists>t. Some t \<in> set (terms it) \<and> startTerm < t)")
      case True
      then have "waitLoop (Suc k) it to slept n startTerm count terms = Some (True, slept + to)"
        using c enough moved_scan [OF ts, of startTerm False] by (simp add: Let_def)
      moreover have "\<exists>i t'. it \<le> i \<and> i < it + Suc k \<and> Some t' \<in> set (terms i) \<and> startTerm < t'"
        using True by (intro exI [of _ it]) simp
      ultimately show ?thesis using True by (intro exI [of _ True] exI [of _ "slept + to"]) simp
    next
      case False
      then have "-1 < startTerm \<Longrightarrow> for_each (terms it) (\<lambda>t m. if m then Some True else do { x \<leftarrow> t; Some (x > startTerm) }) False = Some False"
        using moved_scan [OF ts, of startTerm False] by simp
      then have eq: "waitLoop (Suc k) it to slept n startTerm count terms =
          waitLoop k (Suc it) (if to < 1000 then 2 * to else to) (slept + to) n startTerm count terms"
        using c enough by (simp add: Let_def)
      obtain m t where mt: "waitLoop k (Suc it) (if to < 1000 then 2 * to else to) (slept + to) n startTerm count terms = Some (m, t)"
        "slept + to \<le> t" "t \<le> slept + to + backoff k (if to < 1000 then 2 * to else to)"
        "m \<longrightarrow> -1 < startTerm \<and> (\<exists>i t'. Suc it \<le> i \<and> i < Suc it + k \<and> Some t' \<in> set (terms i) \<and> startTerm < t')"
        "\<not> m \<longrightarrow> t = slept + to + backoff k (if to < 1000 then 2 * to else to) \<or>
          (\<exists>i nd c. Suc it \<le> i \<and> i < Suc it + k \<and> count i = Some (nd, c) \<and> n \<le> int nd)"
        using Suc.IH [of "Suc it" "if to < 1000 then 2 * to else to" "slept + to"] by (elim exE conjE) (rule that)
      have "m \<longrightarrow> -1 < startTerm \<and> (\<exists>i t'. it \<le> i \<and> i < it + Suc k \<and> Some t' \<in> set (terms i) \<and> startTerm < t')"
        using mt(4) by (metis Suc_leD add_Suc_shift)
      moreover have "\<not> m \<longrightarrow> t = slept + backoff (Suc k) to \<or> (\<exists>i nd c. it \<le> i \<and> i < it + Suc k \<and> count i = Some (nd, c) \<and> n \<le> int nd)"
        using mt(5) by (metis Suc_leD add_Suc_shift backoff.simps(2) add.assoc)
      ultimately show ?thesis using mt(1-3) eq by (simp add: add.assoc)
    qed
  qed
qed (simp, blast)

text \<open>
  C40. \<open>wait\<close> ends: when every server has a process and the counts succeed, its loop sleeps at most 30710 ms. It
  gives up (the -1 of the code) only if a start term was given and a server has a later one; the value it returns is
  what the last count found, with at least \<open>n\<close> servers, and it ends the test exactly if that count found fewer.
\<close>

theorem wait_outcome:
  assumes "\<forall>i. count i \<noteq> None \<and> None \<notin> set (terms i)" "final = Some (nd, c)"
  shows "(\<exists>m t. waitLoop 30 0 10 0 n startTerm count terms = Some (m, t) \<and> t \<le> 30710) \<and>
    (case waitFor n startTerm count final terms of
       None \<Rightarrow> int nd < n
     | Some Moved \<Rightarrow> -1 < startTerm \<and> (\<exists>i < 30. \<exists>t. Some t \<in> set (terms i) \<and> startTerm < t)
     | Some (Committed c') \<Rightarrow> n \<le> int nd \<and> c' = c)"
  using waitLoop_outcome [OF assms(1), of 30 0 10 0 n startTerm] assms(2)
  by (fastforce simp: waitFor_def backoff_wait)

theorem wait_outcome_witness:
  "waitFor 2 1 (\<lambda>i. Some (if i < 3 then (1, Some (5::nat)) else (2, Some 5))) (Some (2, Some 5)) (\<lambda>i. [Some 1, Some 1]) = Some (Committed (Some 5)) \<and>
   waitFor 2 1 (\<lambda>i. Some (1, Some (5::nat))) (Some (1, Some 5)) (\<lambda>i. [Some 1, Some (if i < 3 then 1 else 2)]) = Some Moved \<and>
   (\<exists>m t. waitLoop 30 0 10 0 2 1 (\<lambda>i. Some (1, Some (5::nat))) (\<lambda>i. [Some 1, Some 1]) = Some (m, t) \<and> t \<le> 30710)"
proof (intro conjI)
  show "waitFor 2 1 (\<lambda>i. Some (if i < 3 then (1, Some (5::nat)) else (2, Some 5))) (Some (2, Some 5)) (\<lambda>i. [Some 1, Some 1]) = Some (Committed (Some 5))"
    by code_simp
  show "waitFor 2 1 (\<lambda>i. Some (1, Some (5::nat))) (Some (1, Some 5)) (\<lambda>i. [Some 1, Some (if i < 3 then 1 else 2)]) = Some Moved"
    by code_simp
  show "\<exists>m t. waitLoop 30 0 10 0 2 1 (\<lambda>i. Some (1, Some (5::nat))) (\<lambda>i. [Some 1, Some 1]) = Some (m, t) \<and> t \<le> 30710"
    using wait_outcome [of "\<lambda>i. Some (1, Some (5::nat))" "\<lambda>i. [Some 1, Some 1]" "Some (1, Some 5)" 1 "Some 5" 2 1] by simp
qed

subsection \<open>An agreement beside the group\<close>

datatype oneCtl =
    Try nat nat
  | Poll nat int
  | Agreed int
  | Finished
  | Failed

text \<open>
  \<open>one\<close> as steps between the steps of the group: \<open>Try starts k\<close> has \<open>k\<close> servers left in this round, \<open>Poll starts index\<close>
  counts who has committed \<open>index\<close>, \<open>Agreed index\<close> has returned \<open>index\<close>, \<open>Finished\<close> has returned -1 after the test ended, and
  \<open>Failed\<close> is \<open>Fatalf\<close>. A call of \<open>Start\<close> may be lost, before or after the server has executed it; a server
  that is not connected or has no process is passed over.
\<close>

definition started :: "nat \<Rightarrow> 'c raft \<Rightarrow> 'c watch \<Rightarrow> 'c watch" where
  "started i rf' w = w\<lparr>wcl := (wcl w)\<lparr>nodes := (nodes (wcl w))(i := rf')\<rparr>\<rparr>"

inductive ostep :: "nat \<Rightarrow> 'c option \<Rightarrow> int \<Rightarrow> bool \<Rightarrow> oneCtl \<times> 'c watch \<Rightarrow> oneCtl \<times> 'c watch \<Rightarrow> bool" for n cmd expected retry where
  o_pass: "ostep n cmd expected retry (Try s (Suc k), w) (Try ((s + 1) mod n) k, w)"
| o_lost: "i = (s + 1) mod n \<Longrightarrow> Start cmd (nodes (wcl w) i) = (rf', index1, trm, okay) \<Longrightarrow>
    ostep n cmd expected retry (Try s (Suc k), w) (Try i k, started i rf' w)"
| o_accepted: "i = (s + 1) mod n \<Longrightarrow> Start cmd (nodes (wcl w) i) = (rf', index1, trm, True) \<Longrightarrow>
    ostep n cmd expected retry (Try s (Suc k), w) (Poll i index1, started i rf' w)"
| o_round: "ostep n cmd expected retry (Try s 0, w) (Try s n, w)"
| o_agreed: "nCommitted index (wts w) = Some (nd, cmd1) \<Longrightarrow> 0 < nd \<Longrightarrow> expected \<le> int nd \<Longrightarrow> cmd1 = cmd \<Longrightarrow>
    ostep n cmd expected retry (Poll s index, w) (Agreed index, w)"
| o_mismatch: "nCommitted index (wts w) = None \<Longrightarrow> ostep n cmd expected retry (Poll s index, w) (Failed, w)"
| o_poll_end: "ostep n cmd expected retry (Poll s index, w) (if retry then Try s n else Failed, w)"
| o_timeout: "ostep n cmd expected retry (Try s n, w) (Failed, w)"
| o_finished: "ostep n cmd expected retry (Try s n, w) (Finished, w)"
| o_group: "wstep n w w' \<Longrightarrow> ostep n cmd expected retry (c, w) (c, w')"

lemma Start_step:
  assumes "i < n" "Start cmd (nodes (wcl w) i) = (rf', index1, trm, okay)"
  shows "wstep n w (started i rf' w)"
proof -
  have la: "lastApplied rf' = lastApplied (nodes (wcl w) i)" using assms(2) by (auto simp: Start_def persist_def Let_def split: if_splits)
  have "cstep n False (wcl w) ((wcl w)\<lparr>nodes := (nodes (wcl w))(i := rf')\<rparr>)" by (rule cstep.start [OF assms])
  then show ?thesis unfolding started_def by (rule w_other) (simp_all add: la)
qed

lemma ostep_wreach:
  assumes "ostep n cmd expected retry x y" "wreach n (snd x)" "0 < n"
  shows "wreach n (snd y)"
  using assms
proof (induction rule: ostep.induct)
  case (o_lost i s w rf' index1 trm okay k)
  have "i < n" using o_lost(1,4) by simp
  from wr_step [OF _ Start_step [OF this o_lost(2)]] o_lost(3) show ?case by simp
next
  case (o_accepted i s w rf' index1 trm k)
  have "i < n" using o_accepted(1,4) by simp
  from wr_step [OF _ Start_step [OF this o_accepted(2)]] o_accepted(3) show ?case by simp
next
  case (o_group w w' c)
  then show ?case by (auto intro: wr_step)
qed simp_all

lemma osteps_wreach:
  assumes "(ostep n cmd expected retry)\<^sup>*\<^sup>* x y" "wreach n (snd x)" "0 < n"
  shows "wreach n (snd y)"
  using assms by (induction rule: rtranclp_induct) (auto intro: ostep_wreach)

text \<open>What the tester has been told stays told.\<close>

lemma wstep_logs:
  assumes "wreach n w" "wstep n w w'" "j < n" "logs (tsrvs (wts w) ! j) k = Some c"
  shows "logs (tsrvs (wts w') ! j) k = Some c"
  using assms(2,1,3,4)
proof (induction rule: wstep.induct)
  case (w_check i w m ms rs' ts')
  obtain h where inv: "watch_inv n w h" using wreach_inv [OF w_check(4)] by blast
  note D = watch_invD [OF inv]
  have len: "length (tsrvs (wts w)) = n" by (rule D(2))
  have q: "agreed n h (CommandIndex m) (amCommand m)" "CommandValid m" using D(5) [OF w_check(1), of m] w_check(2) by auto
  obtain ts1 err where r: "CheckLogs (int i) m (wts w) = Some (ts1, err, logs (tsrvs (wts w) ! i) (CommandIndex m - 1) \<noteq> None)"
    "tsrvs ts1 = (tsrvs (wts w))[i := (tsrvs (wts w) ! i)\<lparr>logs := (logs (tsrvs (wts w) ! i))(CommandIndex m \<mapsto> amCommand m)\<rparr>]"
    using CheckLogs_result [of "int i" "wts w" m] w_check(1) len by auto
  have ts': "logs (tsrvs ts' ! j) = logs (tsrvs ts1 ! j)"
    using w_check(3,1) q(2) r len
    by (auto simp: applierMsg_def service_def ApplyErr_def nth_list_update goindex_def gostore_def split: option.splits bind_splits if_splits)
  show ?case
  proof (cases "j = i \<and> k = CommandIndex m")
    case True
    have "tsrvs (wts w) ! i \<in> set (tsrvs (wts w))" using w_check(1) len by simp
    then have "agreed n h k c" using D(4) w_check(6) True by blast
    then have "c = amCommand m" using agreed_unique [OF D(1) _ q(1)] True by blast
    then show ?thesis using True ts' r(2) w_check(1) len by simp
  next
    case False
    then show ?thesis using ts' r(2) w_check(1,6) len by (cases "j = i") auto
  qed
qed simp_all

lemma wsteps:
  assumes "(wstep n)\<^sup>*\<^sup>* w w'" "wreach n w"
  shows "wreach n w' \<and> (\<forall>j < n. \<forall>k c. logs (tsrvs (wts w) ! j) k = Some c \<longrightarrow> logs (tsrvs (wts w') ! j) k = Some c)"
  using assms
proof (induction rule: rtranclp_induct)
  case (step w1 w2)
  then show ?case using wr_step wstep_logs [of n w1 w2] by blast
qed simp

lemma applied_mono:
  assumes "length (tsrvs ts) = n" "length (tsrvs ts') = n"
    and "\<And>j c. j < n \<Longrightarrow> logs (tsrvs ts ! j) k = Some c \<Longrightarrow> logs (tsrvs ts' ! j) k = Some c"
  shows "applied k ts \<le> applied k ts'"
proof -
  have "applied k ts = card {j. j < n \<and> logs (tsrvs ts ! j) k \<noteq> None}" "applied k ts' = card {j. j < n \<and> logs (tsrvs ts' ! j) k \<noteq> None}"
    using assms(1,2) by (simp_all add: applied_def length_filter_conv_card)
  moreover have "{j. j < n \<and> logs (tsrvs ts ! j) k \<noteq> None} \<subseteq> {j. j < n \<and> logs (tsrvs ts' ! j) k \<noteq> None}" using assms(3) by auto
  ultimately show ?thesis by (simp add: card_mono)
qed

definition holding :: "int \<Rightarrow> 'c option \<Rightarrow> int \<Rightarrow> 'c watch \<Rightarrow> bool" where
  "holding index cmd expected w \<longleftrightarrow> 0 < applied index (wts w) \<and> expected \<le> int (applied index (wts w)) \<and>
     nCommitted index (wts w) = Some (applied index (wts w), cmd)"

lemma holding_server:
  assumes "wreach n w" "holding index cmd expected w"
  shows "\<exists>j < n. logs (tsrvs (wts w) ! j) index = Some cmd"
proof -
  obtain h where "watch_inv n w h" using wreach_inv [OF assms(1)] by blast
  then have len: "length (tsrvs (wts w)) = n" by (rule watch_invD(2))
  obtain rs c where rs: "rs \<in> set (tsrvs (wts w))" "logs rs index = Some c"
    using assms(2) by (fastforce simp: holding_def applied_def filter_empty_conv)
  moreover have "c = cmd" using wreach_nCommitted [OF assms(1), of index] assms(2) rs by (auto simp: holding_def)
  ultimately show ?thesis using len by (auto simp: in_set_conv_nth)
qed

lemma holding_lasts:
  assumes "wreach n w" "holding index cmd expected w" "(wstep n)\<^sup>*\<^sup>* w w'"
  shows "holding index cmd expected w'"
proof -
  note later = wsteps [OF assms(3,1)]
  obtain j where j: "j < n" "logs (tsrvs (wts w) ! j) index = Some cmd" using holding_server [OF assms(1,2)] by blast
  obtain h h' where "watch_inv n w h" "watch_inv n w' h'" using wreach_inv assms(1) later by metis
  then have len: "length (tsrvs (wts w)) = n" "length (tsrvs (wts w')) = n" using watch_invD(2) by blast+
  have "applied index (wts w) \<le> applied index (wts w')" using applied_mono [OF len] later by blast
  moreover obtain c where c: "nCommitted index (wts w') = Some (applied index (wts w'), c)"
    "\<forall>rs \<in> set (tsrvs (wts w')). \<forall>d. logs rs index = Some d \<longrightarrow> d = c" using wreach_nCommitted [of n w' index] later by blast
  moreover have "tsrvs (wts w') ! j \<in> set (tsrvs (wts w'))" "logs (tsrvs (wts w') ! j) index = Some cmd" using j len later by auto
  ultimately show ?thesis using assms(2) by (auto simp: holding_def)
qed

lemma holding_queue:
  assumes "wreach n w" "holding index cmd expected w" "j < n" "m \<in> set (wq w j)" "CommandIndex m = index"
  shows "amCommand m = cmd"
proof -
  obtain h where inv: "watch_inv n w h" using wreach_inv [OF assms(1)] by blast
  note D = watch_invD [OF inv]
  obtain i where i: "i < n" "logs (tsrvs (wts w) ! i) index = Some cmd" using holding_server [OF assms(1,2)] by blast
  then have "tsrvs (wts w) ! i \<in> set (tsrvs (wts w))" using D(2) by simp
  then have "agreed n h index cmd" using D(4) i(2) by blast
  moreover have "agreed n h index (amCommand m)" using D(5) [OF assms(3,4)] assms(5) by simp
  ultimately show ?thesis using agreed_unique [OF D(1)] by blast
qed

definition one_inv :: "nat \<Rightarrow> 'c option \<Rightarrow> int \<Rightarrow> oneCtl \<times> 'c watch \<Rightarrow> bool" where
  "one_inv n cmd expected = (\<lambda>(ctl, w). wreach n w \<and> (\<forall>index. ctl = Agreed index \<longrightarrow> holding index cmd expected w))"

lemma one_inv_step:
  assumes "ostep n cmd expected retry x y" "one_inv n cmd expected x" "0 < n"
  shows "one_inv n cmd expected y"
proof -
  have r: "wreach n (snd y)" using ostep_wreach [OF assms(1) _ assms(3)] assms(2) by (auto simp: one_inv_def)
  show ?thesis using assms(1,2) r
  proof (induction rule: ostep.induct)
    case (o_agreed index w nd cmd1 s)
    then show ?case using wreach_nCommitted [of n w index] by (auto simp: one_inv_def holding_def)
  next
    case (o_group w w' c)
    then show ?case using holding_lasts [of n w _ cmd expected w'] by (auto simp: one_inv_def)
  qed (auto simp: one_inv_def)
qed



lemma osteps_group:
  assumes "(wstep n)\<^sup>*\<^sup>* w w'"
  shows "(ostep n cmd expected retry)\<^sup>*\<^sup>* (c, w) (c, w')"
  using assms
proof (induction rule: rtranclp_induct)
  case (step w1 w2)
  show ?case by (rule rtranclp.rtrancl_into_rtrancl [OF step.IH o_group [OF step.hyps(2)]])
qed simp

lemma run_elect:
  "\<exists>u. for_each [Tick 0 1000 0, Elect 0 1000, Deliver 0 1000, Deliver 0 1000] (perform 2) (init_cluster 2 (\<lambda>_. 0)) = Some u \<and>
     snd (Start (Some (7 :: nat)) (nodes u 0)) = (1, 1, True)"
  by (simp add: run_simps)


end
