(* ===== verification/LabRpc.thy ===== *)
theory LabRpc
  imports Prelude "HOL-Library.Word"
begin

text \<open>
  The simulated network of \<open>labrpc/labrpc.go\<close>. The maps of \<open>Network\<close> are maps; a
  \<open>*Server\<close> is an address in the heap \<open>srvs\<close>, so that the test \<open>rn.servers[name] != server\<close>
  compares addresses. A server carries the state \<open>'st\<close> of the services behind it; a method of a
  service is a function on that state and the encoded arguments. \<open>log.Fatalf\<close> and
  panics are \<open>None\<close>. \<open>processReq\<close> is cut where other goroutines can run: its start, the
  goroutine that runs the handler, and its end; random numbers are arguments.
\<close>

subsection \<open>Messages, servers and services\<close>

record reqMsg =
  endname :: string
  svcMeth :: string
  rargs :: string

record replyMsg =
  ok :: bool
  reply :: string

abbreviation noReply :: replyMsg where "noReply \<equiv> \<lparr>ok = False, reply = []\<rparr>"

text \<open>What \<open>MakeService\<close> asks of a method through reflection before it makes it a handler.\<close>

record 'st Method =
  mName :: string
  PkgPath :: string
  NumIn :: nat
  In2IsPtr :: bool
  NumOut :: nat
  mFunc :: "string \<Rightarrow> 'st \<Rightarrow> ('st \<times> string) option"

record 'st Service =
  svcName :: string
  methods :: "string \<rightharpoonup> 'st Method"

record 'st Server =
  services :: "string \<rightharpoonup> 'st Service"
  scount :: int
  dispatchf :: "(string \<Rightarrow> string \<Rightarrow> 'st \<Rightarrow> 'st \<times> string \<times> bool) option"
  appState :: 'st

definition MakeService :: "string \<Rightarrow> 'st Method list \<Rightarrow> 'st Service" where
  "MakeService name ms =
     \<lparr>svcName = name,
      methods = foldl (\<lambda>m method.
        if PkgPath method \<noteq> [] \<or> NumIn method \<noteq> 3 \<or> \<not> In2IsPtr method \<or> NumOut method \<noteq> 0 then m
        else m(mName method \<mapsto> method)) Map.empty ms\<rparr>"

definition MakeServer :: "'st \<Rightarrow> 'st Server" where
  "MakeServer st = \<lparr>services = Map.empty, scount = 0, dispatchf = None, appState = st\<rparr>"

definition AddService :: "'st Service \<Rightarrow> 'st Server \<Rightarrow> 'st Server" where
  "AddService svc rs = rs\<lparr>services := (services rs)(svcName svc \<mapsto> svc)\<rparr>"

definition SetDispatch where
  "SetDispatch f rs = rs\<lparr>dispatchf := Some f\<rparr>"

definition svcDispatch :: "'st Service \<Rightarrow> string \<Rightarrow> reqMsg \<Rightarrow> 'st \<Rightarrow> ('st \<times> replyMsg) option" where
  "svcDispatch svc methname req st =
     (case methods svc methname of
        Some method \<Rightarrow> do {
          (st', b) \<leftarrow> mFunc method (rargs req) st;
          Some (st', \<lparr>ok = True, reply = b\<rparr>)
        }
      | None \<Rightarrow> None)"

text \<open>\<open>strings.LastIndex(s, ".")\<close>; the slices before and after the dot.\<close>

fun LastIndexDot :: "string \<Rightarrow> int" where
  "LastIndexDot [] = -1"
| "LastIndexDot (c # cs) =
     (if LastIndexDot cs \<noteq> -1 then LastIndexDot cs + 1
      else if c = CHR ''.'' then 0 else -1)"

definition dispatch :: "reqMsg \<Rightarrow> 'st Server \<Rightarrow> ('st Server \<times> replyMsg) option" where
  "dispatch req rs =
     (let rs1 = rs\<lparr>scount := scount rs + 1\<rparr>;
          dot = LastIndexDot (svcMeth req)
      in if dot < 0 then None
         else
           let serviceName = take (nat dot) (svcMeth req);
               methodName = drop (nat dot + 1) (svcMeth req);
               service = services rs1 serviceName
           in case dispatchf rs1 of
                Some f \<Rightarrow>
                  (case f (svcMeth req) (rargs req) (appState rs1) of
                     (st', rep, b) \<Rightarrow> Some (rs1\<lparr>appState := st'\<rparr>, \<lparr>ok = b, reply = rep\<rparr>))
              | None \<Rightarrow>
                  (case service of
                     Some svc \<Rightarrow> do {
                       (st', r) \<leftarrow> svcDispatch svc methodName req (appState rs1);
                       Some (rs1\<lparr>appState := st'\<rparr>, r)
                     }
                   | None \<Rightarrow> None))"

definition Dispatch :: "string \<Rightarrow> string \<Rightarrow> string \<Rightarrow> 'st Server \<Rightarrow> ('st Server \<times> string \<times> bool) option" where
  "Dispatch meth clnt args rs =
     do {
       (rs', rep) \<leftarrow> dispatch \<lparr>endname = clnt, svcMeth = meth, rargs = args\<rparr> rs;
       Some (rs', reply rep, ok rep)
     }"

subsection \<open>The network\<close>

record 'st Network =
  reliable :: bool
  longDelays :: bool
  longReordering :: bool
  ends :: "string set"
  enabled :: "string \<rightharpoonup> bool"
  servers :: "string \<rightharpoonup> nat option"
  connections :: "string \<rightharpoonup> string option"
  ncount :: "32 word"
  nbytes :: "64 word"
  srvs :: "nat \<Rightarrow> 'st Server"

definition MakeNetwork :: "(nat \<Rightarrow> 'st Server) \<Rightarrow> 'st Network" where
  "MakeNetwork heap =
     \<lparr>reliable = True, longDelays = False, longReordering = False, ends = {}, enabled = Map.empty,
      servers = Map.empty, connections = Map.empty, ncount = 0, nbytes = 0, srvs = heap\<rparr>"

definition Reliable :: "bool \<Rightarrow> 'st Network \<Rightarrow> 'st Network" where
  "Reliable yes rn = rn\<lparr>reliable := yes\<rparr>"

definition IsReliable :: "'st Network \<Rightarrow> bool" where "IsReliable rn = reliable rn"

definition LongReordering :: "bool \<Rightarrow> 'st Network \<Rightarrow> 'st Network" where
  "LongReordering yes rn = rn\<lparr>longReordering := yes\<rparr>"

definition LongDelays :: "bool \<Rightarrow> 'st Network \<Rightarrow> 'st Network" where
  "LongDelays yes rn = rn\<lparr>longDelays := yes\<rparr>"

definition IsLongDelays :: "'st Network \<Rightarrow> bool" where "IsLongDelays rn = longDelays rn"

text \<open>A missing key of \<open>enabled\<close> reads false, of the other maps nil.\<close>

definition isEnabled :: "'st Network \<Rightarrow> string \<Rightarrow> bool" where
  "isEnabled rn e = (enabled rn e = Some True)"

definition serverOf :: "'st Network \<Rightarrow> string \<Rightarrow> nat option" where
  "serverOf rn name = (case servers rn name of None \<Rightarrow> None | Some p \<Rightarrow> p)"

definition readEndnameInfo :: "string \<Rightarrow> 'st Network \<Rightarrow> bool \<times> string option \<times> nat option \<times> bool \<times> bool" where
  "readEndnameInfo e rn =
     (let servername = (case connections rn e of None \<Rightarrow> None | Some n \<Rightarrow> n)
      in (isEnabled rn e, servername,
          (case servername of None \<Rightarrow> None | Some n \<Rightarrow> serverOf rn n),
          reliable rn, longReordering rn))"

definition isServerDead :: "string \<Rightarrow> string \<Rightarrow> nat \<Rightarrow> 'st Network \<Rightarrow> bool" where
  "isServerDead e servername server rn \<longleftrightarrow>
     \<not> isEnabled rn e \<or> serverOf rn servername \<noteq> Some server"

definition MakeEnd :: "string \<Rightarrow> 'st Network \<Rightarrow> 'st Network option" where
  "MakeEnd e rn =
     (if e \<in> ends rn then None
      else Some (rn\<lparr>ends := insert e (ends rn), enabled := (enabled rn)(e \<mapsto> False),
                    connections := (connections rn)(e \<mapsto> None)\<rparr>))"

definition LookupEnd :: "string \<Rightarrow> 'st Network \<Rightarrow> string option" where
  "LookupEnd e rn = (if e \<in> ends rn then Some e else None)"

definition DeleteEnd :: "string \<Rightarrow> 'st Network \<Rightarrow> 'st Network option" where
  "DeleteEnd e rn =
     (if e \<notin> ends rn then None
      else Some (rn\<lparr>ends := ends rn - {e}, enabled := (enabled rn)(e := None),
                    connections := (connections rn)(e := None)\<rparr>))"

definition AddServer :: "string \<Rightarrow> nat \<Rightarrow> 'st Network \<Rightarrow> 'st Network" where
  "AddServer name p rn = rn\<lparr>servers := (servers rn)(name \<mapsto> Some p)\<rparr>"

definition DeleteServer :: "string \<Rightarrow> 'st Network \<Rightarrow> 'st Network" where
  "DeleteServer name rn = rn\<lparr>servers := (servers rn)(name \<mapsto> None)\<rparr>"

definition Connect :: "string \<Rightarrow> string \<Rightarrow> 'st Network \<Rightarrow> 'st Network" where
  "Connect e name rn = rn\<lparr>connections := (connections rn)(e \<mapsto> Some name)\<rparr>"

definition Enable :: "string \<Rightarrow> bool \<Rightarrow> 'st Network \<Rightarrow> 'st Network" where
  "Enable e b rn = rn\<lparr>enabled := (enabled rn)(e \<mapsto> b)\<rparr>"

definition GetCount :: "string \<Rightarrow> 'st Network \<Rightarrow> int option" where
  "GetCount name rn = map_option (\<lambda>p. scount (srvs rn p)) (serverOf rn name)"

definition GetTotalCount :: "'st Network \<Rightarrow> int" where "GetTotalCount rn = sint (ncount rn)"

definition GetTotalBytes :: "'st Network \<Rightarrow> 64 word" where "GetTotalBytes rn = nbytes rn"

subsection \<open>Processing a request\<close>

text \<open>The loop of \<open>MakeNetwork\<close> counts a request before it starts \<open>processReq\<close> for it.\<close>

definition countReq :: "reqMsg \<Rightarrow> 'st Network \<Rightarrow> 'st Network" where
  "countReq req rn =
     rn\<lparr>ncount := ncount rn + 1, nbytes := nbytes rn + of_nat (length (rargs req))\<rparr>"

datatype procResult = ReplyNow replyMsg | RunHandler string nat bool bool

definition processStart :: "nat \<Rightarrow> reqMsg \<Rightarrow> 'st Network \<Rightarrow> procResult" where
  "processStart roll req rn =
     (case readEndnameInfo (endname req) rn of
        (True, Some servername, Some server, rel, longreordering) \<Rightarrow>
          if \<not> rel \<and> roll mod 1000 < 100 then ReplyNow noReply
          else RunHandler servername server rel longreordering
      | _ \<Rightarrow> ReplyNow noReply)"

text \<open>The goroutine that runs the handler.\<close>

definition runHandler :: "reqMsg \<Rightarrow> nat \<Rightarrow> 'st Network \<Rightarrow> ('st Network \<times> replyMsg) option" where
  "runHandler req server rn =
     do {
       (rs', r) \<leftarrow> dispatch req (srvs rn server);
       Some (rn\<lparr>srvs := (srvs rn)(server := rs')\<rparr>, r)
     }"

text \<open>
  The end: \<open>got\<close> is the handler's reply, or nothing where the wait was given up because the
  server was dead. A delay of the reply changes nothing but time.
\<close>

definition processEnd ::
  "nat \<Rightarrow> reqMsg \<Rightarrow> string \<Rightarrow> nat \<Rightarrow> bool \<Rightarrow> replyMsg option \<Rightarrow> 'st Network \<Rightarrow> 'st Network \<times> replyMsg" where
  "processEnd roll req servername server rel got rn =
     (let serverDead = isServerDead (endname req) servername server rn
      in case got of
           None \<Rightarrow> (rn, noReply)
         | Some r \<Rightarrow>
             if serverDead then (rn, noReply)
             else if \<not> rel \<and> roll mod 1000 < 100 then (rn, noReply)
             else (rn\<lparr>nbytes := nbytes rn + of_nat (length (reply r))\<rparr>, r))"

text \<open>
  The two sides of \<open>ClientEnd.Call\<close>: with a forwarding function \<open>callf\<close>, and what the caller
  makes of the reply of the network. \<open>enc\<close> and \<open>dec\<close> are \<open>Marshall\<close> and \<open>Unmarshall\<close>.
\<close>

definition callForward ::
  "('a \<Rightarrow> string) \<Rightarrow> (string \<Rightarrow> 'b option) \<Rightarrow> (string \<Rightarrow> string \<Rightarrow> string \<Rightarrow> string \<times> bool) \<Rightarrow> string \<Rightarrow> string \<Rightarrow> 'a
    \<Rightarrow> ('b option) option" where
  "callForward enc dec callf e meth args =
     (case callf e meth (enc args) of (rep, b) \<Rightarrow>
        if \<not> b then Some None
        else case dec rep of None \<Rightarrow> None | Some v \<Rightarrow> Some (Some v))"

definition callReply :: "(string \<Rightarrow> 'b option) \<Rightarrow> replyMsg \<Rightarrow> ('b option) option" where
  "callReply dec rep =
     (if ok rep then (case dec (reply rep) of None \<Rightarrow> None | Some v \<Rightarrow> Some (Some v)) else Some None)"

subsection \<open>Routing\<close>

lemma LastIndexDot_none: "LastIndexDot cs = -1 \<longleftrightarrow> CHR ''.'' \<notin> set cs"
proof (induction cs)
  case (Cons c cs)
  have "LastIndexDot cs \<ge> -1" by (induction cs) auto
  then show ?case using Cons by auto
qed simp

lemma LastIndexDot_split:
  "CHR ''.'' \<notin> set m \<Longrightarrow> LastIndexDot (svc @ CHR ''.'' # m) = int (length svc)"
proof (induction svc)
  case Nil
  then show ?case using LastIndexDot_none [of m] by simp
qed simp

text \<open>
  A request for \<open>Service.Method\<close> reaches exactly that method of that service: the server counts
  the request, the method runs once on the server's state with the encoded arguments, and the
  reply carries what it returned; the other services and the registration are untouched.
\<close>

lemma dispatch_routes:
  assumes "CHR ''.'' \<notin> set m" "svcMeth req = svc @ CHR ''.'' # m" "dispatchf rs = None"
    "services rs svc = Some service" "methods service m = Some mth"
    "mFunc mth (rargs req) (appState rs) = Some (st', b)"
  shows "dispatch req rs = Some (rs\<lparr>scount := scount rs + 1, appState := st'\<rparr>, \<lparr>ok = True, reply = b\<rparr>)"
  using assms LastIndexDot_split [OF assms(1), of svc]
  by (simp add: dispatch_def svcDispatch_def Let_def)

theorem dispatch_routes_witness:
  "let mth = \<lparr>mName = ''Get'', PkgPath = [], NumIn = 3, In2IsPtr = True, NumOut = 0,
                 mFunc = (\<lambda>a st. Some (st + 1, a @ a))\<rparr>;
       rs = AddService (MakeService ''KVServer'' [mth]) (MakeServer (5 :: nat))
   in dispatch \<lparr>endname = ''c'', svcMeth = ''KVServer.Get'', rargs = ''x''\<rparr> rs =
        Some (rs\<lparr>scount := 1, appState := 6\<rparr>, \<lparr>ok = True, reply = ''xx''\<rparr>)"
proof -
  define mth :: "nat Method" where "mth = \<lparr>mName = ''Get'', PkgPath = [], NumIn = 3, In2IsPtr = True, NumOut = 0,
                 mFunc = (\<lambda>a st. Some (st + 1, a @ a))\<rparr>"
  define rs where "rs = AddService (MakeService ''KVServer'' [mth]) (MakeServer (5 :: nat))"
  have "dispatch \<lparr>endname = ''c'', svcMeth = ''KVServer.Get'', rargs = ''x''\<rparr> rs =
      Some (rs\<lparr>scount := scount rs + 1, appState := 6\<rparr>, \<lparr>ok = True, reply = ''xx''\<rparr>)"
    by (rule dispatch_routes [of "''Get''" _ "''KVServer''" _ "MakeService ''KVServer'' [mth]" mth])
      (simp_all add: rs_def mth_def AddService_def MakeServer_def MakeService_def)
  moreover have "scount rs = 0" by (simp add: rs_def AddService_def MakeServer_def)
  ultimately show ?thesis by (simp add: rs_def mth_def Let_def)
qed

subsection \<open>Delivery\<close>

definition live :: "string \<Rightarrow> string \<Rightarrow> nat \<Rightarrow> 'st Network \<Rightarrow> bool" where
  "live e name p rn \<longleftrightarrow>
     isEnabled rn e \<and> connections rn e = Some (Some name) \<and> serverOf rn name = Some p"

text \<open>
  On a reliable network a call from an enabled end that is connected to a live server is never
  lost: it is handed to that server whatever the random numbers, and when the server is still alive
  at the end the caller gets exactly the handler's reply. From an end that is disabled or
  not connected to a live server it is never handed to any server, and a server that was
  deleted, replaced or cut off while it ran the handler never gets its reply through.
\<close>

lemma delivery:
  "(live (endname req) name p rn \<and> reliable rn \<longrightarrow>
      processStart roll req rn = RunHandler name p True (longReordering rn) \<and>
      snd (processEnd roll req name p True (Some r) rn) = r) \<and>
   ((\<nexists>name p. live (endname req) name p rn) \<longrightarrow> processStart roll req rn = ReplyNow noReply) \<and>
   (isServerDead (endname req) name p rn \<longrightarrow> processEnd roll req name p rel got rn = (rn, noReply))"
proof -
  have "processStart roll req rn = ReplyNow noReply" if "\<nexists>name p. live (endname req) name p rn"
    using that
    by (auto simp: processStart_def readEndnameInfo_def live_def Let_def split: option.splits bool.splits)
  moreover have "processEnd roll req name p rel got rn = (rn, noReply)" if "isServerDead (endname req) name p rn"
    using that by (simp add: processEnd_def split: option.splits)
  moreover have "processStart roll req rn = RunHandler name p True (longReordering rn) \<and>
      snd (processEnd roll req name p True (Some r) rn) = r" if "live (endname req) name p rn" "reliable rn"
    using that by (simp add: processStart_def processEnd_def readEndnameInfo_def live_def isServerDead_def)
  ultimately show ?thesis by blast
qed

theorem delivery_witness:
  "let rn = Enable ''e'' True (Connect ''e'' ''s'' (AddServer ''s'' 7 (MakeNetwork (\<lambda>_. MakeServer (0 :: nat)))))
   in processStart 3 \<lparr>endname = ''e'', svcMeth = ''A.B'', rargs = []\<rparr> rn = RunHandler ''s'' 7 True False \<and>
      processStart 3 \<lparr>endname = ''e'', svcMeth = ''A.B'', rargs = []\<rparr> (DeleteServer ''s'' rn) = ReplyNow noReply"
proof -
  let ?req = "\<lparr>endname = ''e'', svcMeth = ''A.B'', rargs = []\<rparr> :: reqMsg"
  define rn where "rn = Enable ''e'' True (Connect ''e'' ''s'' (AddServer ''s'' 7 (MakeNetwork (\<lambda>_. MakeServer (0 :: nat)))))"
  have "live (endname ?req) ''s'' 7 rn" "reliable rn" "longReordering rn = False"
    by (simp_all add: rn_def live_def isEnabled_def serverOf_def Enable_def Connect_def AddServer_def MakeNetwork_def)
  moreover have "\<nexists>name p. live (endname ?req) name p (DeleteServer ''s'' rn)"
    by (auto simp: rn_def live_def serverOf_def Enable_def Connect_def AddServer_def MakeNetwork_def
        DeleteServer_def split: option.splits)
  ultimately show ?thesis
    using delivery [of ?req "''s''" 7 rn 3] delivery [of ?req "''s''" 7 "DeleteServer ''s'' rn" 3]
    unfolding rn_def [symmetric] Let_def by simp
qed

subsection \<open>At most once\<close>

text \<open>
  The calls in progress on a network whose ends and servers change at any moment. \<open>runs\<close> counts
  how often the handler ran for a call.
\<close>

datatype hstate = NotStarted | Started | Finished replyMsg

record rpc =
  creq :: reqMsg
  plan :: "(string \<times> nat \<times> bool) option"
  handler :: hstate
  answer :: "replyMsg option"
  runs :: nat

record 'st rpcsys =
  net :: "'st Network"
  rpcs :: "rpc list"

inductive admin :: "'st Network \<Rightarrow> 'st Network \<Rightarrow> bool" where
  "admin rn (Reliable b rn)"
| "admin rn (LongReordering b rn)"
| "admin rn (LongDelays b rn)"
| "MakeEnd e rn = Some rn' \<Longrightarrow> admin rn rn'"
| "DeleteEnd e rn = Some rn' \<Longrightarrow> admin rn rn'"
| "admin rn (AddServer name p rn)"
| "admin rn (DeleteServer name rn)"
| "admin rn (Connect e name rn)"
| "admin rn (Enable e b rn)"

inductive rstep :: "'st rpcsys \<Rightarrow> 'st rpcsys \<Rightarrow> bool" where
  send: "rstep s (s\<lparr>net := countReq req (net s),
      rpcs := rpcs s @ [\<lparr>creq = req, plan = None, handler = NotStarted, answer = None, runs = 0\<rparr>]\<rparr>)"
| refuse: "i < length (rpcs s) \<Longrightarrow> c = rpcs s ! i \<Longrightarrow> plan c = None \<Longrightarrow> answer c = None \<Longrightarrow>
    processStart roll (creq c) (net s) = ReplyNow r \<Longrightarrow>
    rstep s (s\<lparr>rpcs := (rpcs s)[i := c\<lparr>answer := Some r\<rparr>]\<rparr>)"
| launch: "i < length (rpcs s) \<Longrightarrow> c = rpcs s ! i \<Longrightarrow> plan c = None \<Longrightarrow> answer c = None \<Longrightarrow>
    processStart roll (creq c) (net s) = RunHandler name p rel lr \<Longrightarrow>
    rstep s (s\<lparr>rpcs := (rpcs s)[i := c\<lparr>plan := Some (name, p, rel), handler := Started\<rparr>]\<rparr>)"
| handle: "i < length (rpcs s) \<Longrightarrow> c = rpcs s ! i \<Longrightarrow> handler c = Started \<Longrightarrow> plan c = Some (name, p, rel) \<Longrightarrow>
    runHandler (creq c) p (net s) = Some (rn, r) \<Longrightarrow>
    rstep s (s\<lparr>net := rn, rpcs := (rpcs s)[i := c\<lparr>handler := Finished r, runs := runs c + 1\<rparr>]\<rparr>)"
| give_up: "i < length (rpcs s) \<Longrightarrow> c = rpcs s ! i \<Longrightarrow> plan c = Some (name, p, rel) \<Longrightarrow> answer c = None \<Longrightarrow>
    isServerDead (endname (creq c)) name p (net s) \<Longrightarrow>
    processEnd roll (creq c) name p rel None (net s) = (rn, a) \<Longrightarrow>
    rstep s (s\<lparr>net := rn, rpcs := (rpcs s)[i := c\<lparr>answer := Some a\<rparr>]\<rparr>)"
| finish: "i < length (rpcs s) \<Longrightarrow> c = rpcs s ! i \<Longrightarrow> plan c = Some (name, p, rel) \<Longrightarrow> answer c = None \<Longrightarrow>
    handler c = Finished r \<Longrightarrow> processEnd roll (creq c) name p rel (Some r) (net s) = (rn, a) \<Longrightarrow>
    rstep s (s\<lparr>net := rn, rpcs := (rpcs s)[i := c\<lparr>answer := Some a\<rparr>]\<rparr>)"
| change: "admin (net s) rn \<Longrightarrow> rstep s (s\<lparr>net := rn\<rparr>)"

definition rpc_ok :: "rpc \<Rightarrow> bool" where
  "rpc_ok c \<longleftrightarrow>
     (plan c = None \<longrightarrow> handler c = NotStarted) \<and>
     runs c = (case handler c of Finished r \<Rightarrow> 1 | _ \<Rightarrow> 0) \<and>
     (\<forall>a. answer c = Some a \<and> ok a \<longrightarrow> handler c = Finished a)"

lemma processStart_refuses: "processStart roll req rn = ReplyNow r \<Longrightarrow> r = noReply"
  by (auto simp: processStart_def split: prod.splits option.splits bool.splits if_splits)

lemma processEnd_reply:
  "processEnd roll req name p rel got rn = (rn', a) \<Longrightarrow> ok a \<Longrightarrow> got = Some a"
  by (auto simp: processEnd_def Let_def split: option.splits if_splits)

lemma rstep_ok:
  assumes "rstep s t" "\<forall>c \<in> set (rpcs s). rpc_ok c"
  shows "\<forall>c \<in> set (rpcs t). rpc_ok c"
proof -
  have upd: "\<forall>d \<in> set ((rpcs s)[i := c]). rpc_ok d" if "rpc_ok c" for i c
    using assms(2) that set_update_subset_insert [of "rpcs s" i c] by auto
  have nth: "rpc_ok (rpcs s ! i)" if "i < length (rpcs s)" for i using assms(2) that by simp
  from assms(1) show ?thesis
  proof cases
    case (send req)
    then show ?thesis using assms(2) by (auto simp: rpc_ok_def)
  next
    case (refuse i c roll r)
    then have "rpc_ok (c\<lparr>answer := Some r\<rparr>)"
      using nth processStart_refuses [OF refuse(6)] by (auto simp: rpc_ok_def)
    then show ?thesis unfolding refuse(1) using upd by simp
  next
    case (launch i c roll name p rel lr)
    then have "rpc_ok (c\<lparr>plan := Some (name, p, rel), handler := Started\<rparr>)"
      using nth by (auto simp: rpc_ok_def)
    then show ?thesis unfolding launch(1) using upd by simp
  next
    case (handle i c name p rel rn r)
    then have "rpc_ok (c\<lparr>handler := Finished r, runs := runs c + 1\<rparr>)"
      using nth by (auto simp: rpc_ok_def)
    then show ?thesis unfolding handle(1) using upd by simp
  next
    case (give_up i c name p rel roll rn a)
    then have "rpc_ok (c\<lparr>answer := Some a\<rparr>)"
      using nth processEnd_reply [OF give_up(7)] by (auto simp: rpc_ok_def)
    then show ?thesis unfolding give_up(1) using upd by simp
  next
    case (finish i c name p rel r roll rn a)
    then have "rpc_ok (c\<lparr>answer := Some a\<rparr>)"
      using nth processEnd_reply [OF finish(7)] by (auto simp: rpc_ok_def)
    then show ?thesis unfolding finish(1) using upd by simp
  next
    case (change rn)
    then show ?thesis using assms(2) by simp
  qed
qed



end
