(* ===== verification/TesterGroup.thy ===== *)
theory TesterGroup
  imports LabRpc Persister
begin

text \<open>
  The server groups and clients of the tester: \<open>tester1/group.go\<close>, \<open>tester1/srv.go\<close>,
  \<open>tester1/clnts.go\<close> and the part of \<open>tester1/daemonclnt.go\<close>, \<open>tester1/daemonsrv.go\<close> that
  moves a persister in and out of a server process. A group owns one network end per ordered pair
  of servers; connecting, disconnecting and partitioning enable and disable those ends. Results of
  \<open>Randstring\<close> are arguments, a daemon process is the persister it holds, and what it answers to
  forwarded calls is an argument. Indices out of range and \<open>log.Fatalf\<close> are \<open>None\<close>.
\<close>

subsection \<open>A server of a group\<close>

definition ServerName :: "int \<Rightarrow> nat \<Rightarrow> string" where
  "ServerName gid i = ''server-'' @ Itoa gid @ ''-'' @ Itoa (int i)"

record 'b tServer =
  endNames :: "string list option"
  saved :: "'b persister option"
  dc :: "'b persister option"

definition makeServer :: "string list \<Rightarrow> int \<Rightarrow> nat \<Rightarrow> 'st Network \<Rightarrow> ('b tServer \<times> 'st Network) option" where
  "makeServer rand gid nsrv nw =
     do {
       nw' \<leftarrow> for_each [0..<nsrv] (\<lambda>j nw. do {
         e \<leftarrow> goindex rand (int j);
         nw1 \<leftarrow> MakeEnd e nw;
         Some (Connect e (ServerName gid j) nw1)
       }) nw;
       Some (\<lparr>endNames = Some (take nsrv rand), saved = None, dc = None\<rparr>, nw')
     }"

definition startServer :: "string list \<Rightarrow> int \<Rightarrow> 'b tServer \<Rightarrow> 'st Network \<Rightarrow> ('b tServer \<times> 'st Network) option" where
  "startServer rand gid s nw =
     do {
       (srv, nw') \<leftarrow> makeServer rand gid (case endNames s of None \<Rightarrow> 0 | Some es \<Rightarrow> length es) nw;
       Some (srv\<lparr>saved := Some (case saved s of None \<Rightarrow> MakePersister | Some p \<Rightarrow> p)\<rparr>, nw')
     }"

definition endAt :: "'b tServer \<Rightarrow> nat \<Rightarrow> string option" where
  "endAt s j = (case endNames s of None \<Rightarrow> None | Some es \<Rightarrow> goindex es (int j))"

text \<open>
  The state of a running process that the tester sees: \<open>dc.init\<close> with \<open>DaemonSrv.Init\<close>, and
  \<open>checkpointPersister\<close> with \<open>DaemonSrv.CheckpointPersister\<close>.
\<close>

definition daemonInit :: "'b persister \<Rightarrow> 'b persister" where
  "daemonInit p = Save (ReadRaftState p) (ReadSnapshot p) MakePersister"

definition checkpointPersister :: "'b persister \<Rightarrow> 'b persister" where
  "checkpointPersister d =
     (let p = Checkpoint d in Save (ReadRaftState p) (ReadSnapshot p) MakePersister)"

definition stateSize :: "'b persister \<Rightarrow> nat \<times> nat" where
  "stateSize d = (RaftStateSize d, SnapshotSize d)"

definition shutdownServer :: "'b tServer \<Rightarrow> 'b tServer" where
  "shutdownServer s =
     (case dc s of
        None \<Rightarrow> s
      | Some d \<Rightarrow> s\<lparr>saved := Some (checkpointPersister d), dc := None\<rparr>)"

definition snapshotSizeS :: "'b tServer \<Rightarrow> nat option" where
  "snapshotSizeS s =
     (case dc s of Some d \<Rightarrow> Some (snd (stateSize d)) | None \<Rightarrow> map_option SnapshotSize (saved s))"

definition raftSizeS :: "'b tServer \<Rightarrow> nat option" where
  "raftSizeS s =
     (case dc s of Some d \<Rightarrow> Some (fst (stateSize d)) | None \<Rightarrow> map_option RaftStateSize (saved s))"

subsection \<open>A group of servers\<close>

record 'b ServerGrp =
  gsrvs :: "'b tServer list"
  servernames :: "string list"
  ggid :: int
  connected :: "bool list"

definition makeSrvGrp :: "(nat \<Rightarrow> string list) \<Rightarrow> int \<Rightarrow> nat \<Rightarrow> 'st Network \<Rightarrow> ('b ServerGrp \<times> 'st Network) option" where
  "makeSrvGrp rand gid n nw =
     do {
       (ss, nw') \<leftarrow> for_each [0..<n] (\<lambda>i (ss, nw). do {
         (s, nw1) \<leftarrow> makeServer (rand i) gid n nw;
         Some (ss @ [s], nw1)
       }) ([], nw);
       Some (\<lparr>gsrvs = ss, servernames = map (ServerName gid) [0..<n], ggid = gid,
              connected = replicate n False\<rparr>, nw')
     }"

definition N :: "'b ServerGrp \<Rightarrow> nat" where "N sg = length (gsrvs sg)"

definition SrvName :: "nat \<Rightarrow> 'b ServerGrp \<Rightarrow> string option" where
  "SrvName i sg = goindex (servernames sg) (int i)"

definition SrvNamesTo :: "nat list \<Rightarrow> 'b ServerGrp \<Rightarrow> string list option" where
  "SrvNamesTo to sg =
     for_each to (\<lambda>i ns. do { m \<leftarrow> goindex (servernames sg) (int i); Some (ns @ [m]) }) []"

definition all :: "'b ServerGrp \<Rightarrow> nat list" where "all sg = [0..<length (gsrvs sg)]"

definition IsConnected :: "nat \<Rightarrow> 'b ServerGrp \<Rightarrow> bool option" where
  "IsConnected i sg = goindex (connected sg) (int i)"

text \<open>\<open>Server.connect\<close> and \<open>Server.disconnect\<close> switch the outgoing ends of a server.\<close>

definition connectS :: "'b ServerGrp \<Rightarrow> nat list \<Rightarrow> 'b tServer \<Rightarrow> 'st Network \<Rightarrow> 'st Network option" where
  "connectS sg to s =
     for_each to (\<lambda>j nw. do {
       c \<leftarrow> IsConnected j sg;
       if c then do { e \<leftarrow> endAt s j; Some (Enable e True nw) } else Some nw
     })"

definition disconnectS :: "nat list \<Rightarrow> 'b tServer \<Rightarrow> 'st Network \<Rightarrow> 'st Network option" where
  "disconnectS from' s nw =
     (case endNames s of
        None \<Rightarrow> Some nw
      | Some es \<Rightarrow>
          for_each from' (\<lambda>j nw. do { e \<leftarrow> goindex es (int j); Some (Enable e False nw) }) nw)"

definition connect :: "nat \<Rightarrow> nat list \<Rightarrow> 'b ServerGrp \<times> 'st Network \<Rightarrow> ('b ServerGrp \<times> 'st Network) option" where
  "connect i to = (\<lambda>(sg0, nw0). do {
     cs \<leftarrow> gostore (connected sg0) (int i) True;
     let sg = sg0\<lparr>connected := cs\<rparr>;
     s \<leftarrow> goindex (gsrvs sg) (int i);
     nw1 \<leftarrow> connectS sg to s nw0;
     nw2 \<leftarrow> for_each to (\<lambda>j nw. do {
       c \<leftarrow> IsConnected j sg;
       if c then do { t \<leftarrow> goindex (gsrvs sg) (int j); e \<leftarrow> endAt t i; Some (Enable e True nw) }
       else Some nw
     }) nw1;
     Some (sg, nw2)
   })"

definition disconnect :: "nat \<Rightarrow> nat list \<Rightarrow> 'b ServerGrp \<times> 'st Network \<Rightarrow> ('b ServerGrp \<times> 'st Network) option" where
  "disconnect i from' = (\<lambda>(sg0, nw0). do {
     cs \<leftarrow> gostore (connected sg0) (int i) False;
     let sg = sg0\<lparr>connected := cs\<rparr>;
     s \<leftarrow> goindex (gsrvs sg) (int i);
     nw1 \<leftarrow> disconnectS from' s nw0;
     nw2 \<leftarrow> for_each from' (\<lambda>j nw. do {
       t \<leftarrow> goindex (gsrvs sg) (int j);
       case endNames t of
         None \<Rightarrow> Some nw
       | Some es \<Rightarrow> do { e \<leftarrow> goindex es (int i); Some (Enable e False nw) }
     }) nw1;
     Some (sg, nw2)
   })"

definition ConnectOne :: "nat \<Rightarrow> 'b ServerGrp \<times> 'st Network \<Rightarrow> ('b ServerGrp \<times> 'st Network) option" where
  "ConnectOne i st = connect i (all (fst st)) st"

definition ConnectAll :: "'b ServerGrp \<times> 'st Network \<Rightarrow> ('b ServerGrp \<times> 'st Network) option" where
  "ConnectAll st = for_each (all (fst st)) ConnectOne st"

definition DisconnectAll :: "nat \<Rightarrow> 'b ServerGrp \<times> 'st Network \<Rightarrow> ('b ServerGrp \<times> 'st Network) option" where
  "DisconnectAll i st = disconnect i (all (fst st)) st"

definition ShutdownServer :: "nat \<Rightarrow> 'b ServerGrp \<times> 'st Network \<Rightarrow> ('b ServerGrp \<times> 'st Network) option" where
  "ShutdownServer i st =
     do {
       (sg, nw) \<leftarrow> disconnect i (all (fst st)) st;
       let nw' = DeleteServer (ServerName (ggid sg) i) nw;
       s \<leftarrow> goindex (gsrvs sg) (int i);
       ss \<leftarrow> gostore (gsrvs sg) (int i) (shutdownServer s);
       Some (sg\<lparr>gsrvs := ss\<rparr>, nw')
     }"

definition Kill :: "nat list \<Rightarrow> 'b ServerGrp \<times> 'st Network \<Rightarrow> ('b ServerGrp \<times> 'st Network) option" where
  "Kill is = for_each is ShutdownServer"

definition Shutdown :: "'b ServerGrp \<times> 'st Network \<Rightarrow> ('b ServerGrp \<times> 'st Network) option" where
  "Shutdown st = Kill (all (fst st)) st"

text \<open>
  Starting a server: the random end names, whether the process starts, the address of the new
  \<open>labrpc\<close> server and the function that forwards calls to the process.
\<close>

record 'st launch =
  rand :: "string list"
  starts :: bool
  addr :: nat
  app0 :: 'st
  forward :: "string \<Rightarrow> string \<Rightarrow> 'st \<Rightarrow> 'st \<times> string \<times> bool"

definition StartServer :: "'st launch \<Rightarrow> nat \<Rightarrow> 'b ServerGrp \<times> 'st Network \<Rightarrow> (('b ServerGrp \<times> 'st Network) \<times> bool) option" where
  "StartServer l i = (\<lambda>(sg, nw). do {
     s \<leftarrow> goindex (gsrvs sg) (int i);
     (srv, nw1) \<leftarrow> startServer (rand l) (ggid sg) s nw;
     ss \<leftarrow> gostore (gsrvs sg) (int i) srv;
     if \<not> starts l then Some ((sg\<lparr>gsrvs := ss\<rparr>, nw1), False)
     else do {
       p \<leftarrow> saved srv;
       ss' \<leftarrow> gostore ss (int i) (srv\<lparr>dc := Some (daemonInit p)\<rparr>);
       let labsrv = SetDispatch (forward l) (MakeServer (app0 l));
       Some ((sg\<lparr>gsrvs := ss'\<rparr>,
              AddServer (ServerName (ggid sg) i) (addr l) (nw1\<lparr>srvs := (srvs nw1)(addr l := labsrv)\<rparr>)), True)
     }
   })"

definition StartSrvs :: "(nat \<Rightarrow> 'st launch) \<Rightarrow> nat list \<Rightarrow> 'b ServerGrp \<times> 'st Network \<Rightarrow> ('b ServerGrp \<times> 'st Network) option" where
  "StartSrvs ls is = for_each is (\<lambda>i st. map_option fst (StartServer (ls i) i st))"

definition StartServers :: "(nat \<Rightarrow> 'st launch) \<Rightarrow> 'b ServerGrp \<times> 'st Network \<Rightarrow> ('b ServerGrp \<times> 'st Network) option" where
  "StartServers ls st = do { st' \<leftarrow> StartSrvs ls (all (fst st)) st; ConnectAll st' }"

definition maxSize :: "('b tServer \<Rightarrow> nat option) \<Rightarrow> 'b ServerGrp \<Rightarrow> nat option" where
  "maxSize sz sg =
     for_each (gsrvs sg) (\<lambda>s m. do { n \<leftarrow> sz s; Some (if m < n then n else m) }) 0"

definition RaftSize :: "'b ServerGrp \<Rightarrow> nat option" where "RaftSize = maxSize raftSizeS"

definition SnapshotSizeG :: "'b ServerGrp \<Rightarrow> nat option" where "SnapshotSizeG = maxSize snapshotSizeS"

definition RpcCount :: "nat \<Rightarrow> 'b ServerGrp \<Rightarrow> 'st Network \<Rightarrow> int option" where
  "RpcCount i sg nw = GetCount (ServerName (ggid sg) i) nw"

subsection \<open>Partitions\<close>

definition MakePartition :: "nat \<Rightarrow> 'b ServerGrp \<Rightarrow> (nat list \<times> nat list) option" where
  "MakePartition l sg =
     (let n = length (gsrvs sg); n1 = n div 2 + 1; n2 = n div 2 in
      do {
        (p1, p2, j) \<leftarrow> for_each [0..<n] (\<lambda>i (p1, p2, j).
          if i \<noteq> l then
            if j < n1 then do { p1' \<leftarrow> gostore p1 (int j) i; Some (p1', p2, j + 1) }
            else do { p2' \<leftarrow> gostore p2 (int j - int n1) i; Some (p1, p2', j + 1) }
          else Some (p1, p2, j)) (replicate n1 0, replicate n2 0, 0);
        p2' \<leftarrow> gostore p2 (int n2 - 1) l;
        Some (p1, p2')
      })"

definition Partition :: "nat list \<Rightarrow> nat list \<Rightarrow> 'b ServerGrp \<times> 'st Network \<Rightarrow> ('b ServerGrp \<times> 'st Network) option" where
  "Partition p1 p2 st =
     do {
       st1 \<leftarrow> for_each p1 (\<lambda>i st. do { st' \<leftarrow> disconnect i p2 st; connect i p1 st' }) st;
       for_each p2 (\<lambda>i st. do { st' \<leftarrow> disconnect i p1 st; connect i p2 st' }) st1
     }"

subsection \<open>Groups\<close>

type_synonym 'b Groups = "int \<rightharpoonup> 'b ServerGrp"

definition MakeGroup :: "(nat \<Rightarrow> string list) \<Rightarrow> int \<Rightarrow> nat \<Rightarrow> 'b Groups \<times> 'st Network \<Rightarrow> ('b Groups \<times> 'st Network) option" where
  "MakeGroup rs gid nsrv = (\<lambda>(gs, nw). do {
     (sg, nw') \<leftarrow> makeSrvGrp rs gid nsrv nw;
     Some (gs(gid \<mapsto> sg), nw')
   })"

definition lookupGroup :: "int \<Rightarrow> 'b Groups \<Rightarrow> 'b ServerGrp option" where "lookupGroup gid gs = gs gid"

definition deleteGroup :: "int \<Rightarrow> 'b Groups \<Rightarrow> 'b Groups" where "deleteGroup gid gs = gs(gid := None)"

text \<open>\<open>MakeGroupStart\<close> and \<open>ExitGroup\<close> of \<open>tester1/config.go\<close>; a nil group panics.\<close>

definition MakeGroupStart ::
  "(nat \<Rightarrow> string list) \<Rightarrow> (nat \<Rightarrow> 'st launch) \<Rightarrow> int \<Rightarrow> nat \<Rightarrow> 'b Groups \<times> 'st Network \<Rightarrow> ('b Groups \<times> 'st Network) option" where
  "MakeGroupStart rs ls gid nsrv st = do {
     (gs, nw) \<leftarrow> MakeGroup rs gid nsrv st;
     sg \<leftarrow> lookupGroup gid gs;
     (sg', nw') \<leftarrow> StartServers ls (sg, nw);
     Some (gs(gid \<mapsto> sg'), nw')
   }"

definition ExitGroup :: "int \<Rightarrow> 'b Groups \<times> 'st Network \<Rightarrow> ('b Groups \<times> 'st Network) option" where
  "ExitGroup gid = (\<lambda>(gs, nw). do {
     sg \<leftarrow> lookupGroup gid gs;
     (sg', nw') \<leftarrow> Shutdown (sg, nw);
     Some (deleteGroup gid (gs(gid \<mapsto> sg')), nw')
   })"

text \<open>\<open>Groups.cleanup\<close> shuts the groups down in the order \<open>gids\<close> in which the map is ranged over.\<close>

definition cleanupGroups :: "int list \<Rightarrow> 'b Groups \<times> 'st Network \<Rightarrow> ('b Groups \<times> 'st Network) option" where
  "cleanupGroups gids = for_each gids (\<lambda>gid (gs, nw). do {
     sg \<leftarrow> gs gid;
     (sg', nw') \<leftarrow> Shutdown (sg, nw);
     Some (gs(gid \<mapsto> sg'), nw')
   })"

subsection \<open>Clients\<close>

text \<open>
  \<open>srvs\<close> is nil for a client that may reach every server. The map from servers to ends is an association
  list, ranged over in any order.
\<close>

record Clnt =
  cends :: "(string \<times> string) list"
  csrvs :: "string list option"

definition makeClntTo :: "string list option \<Rightarrow> Clnt" where
  "makeClntTo ss = \<lparr>cends = [], csrvs = ss\<rparr>"

definition allowedL :: "string \<Rightarrow> Clnt \<Rightarrow> bool" where
  "allowedL server c = (case csrvs c of None \<Rightarrow> True | Some ss \<Rightarrow> list_ex (\<lambda>m. m = server) ss)"

definition makeEnd :: "string \<Rightarrow> string \<Rightarrow> Clnt \<times> 'st Network \<Rightarrow> ((Clnt \<times> 'st Network) \<times> string) option" where
  "makeEnd name server = (\<lambda>(c, nw).
     case map_of (cends c) server of
       Some e \<Rightarrow> Some ((c, nw), e)
     | None \<Rightarrow> do {
         nw1 \<leftarrow> MakeEnd name nw;
         let nw2 = Connect name server nw1;
         let nw3 = (if allowedL server c then Enable name True nw2 else Enable name False nw2);
         Some ((c\<lparr>cends := (server, name) # cends c\<rparr>, nw3), name)
       })"

definition enableEnds :: "bool \<Rightarrow> (string \<times> string) list \<Rightarrow> 'st Network \<Rightarrow> 'st Network" where
  "enableEnds b es nw = foldl (\<lambda>nw (_, e). Enable e b nw) nw es"

definition ConnectAllC :: "Clnt \<times> 'st Network \<Rightarrow> Clnt \<times> 'st Network" where
  "ConnectAllC = (\<lambda>(c, nw). (c\<lparr>csrvs := None\<rparr>, enableEnds True (cends c) nw))"

definition ConnectTo :: "string list \<Rightarrow> Clnt \<times> 'st Network \<Rightarrow> Clnt \<times> 'st Network" where
  "ConnectTo ss = (\<lambda>(c0, nw).
     let c = c0\<lparr>csrvs := Some ss\<rparr>
     in (c, enableEnds True (filter (\<lambda>(srv, _). allowedL srv c) (cends c)) nw))"

definition Disconnect :: "string \<Rightarrow> Clnt \<times> 'st Network \<Rightarrow> Clnt \<times> 'st Network" where
  "Disconnect srv = (\<lambda>(c, nw). (c, enableEnds False (filter (\<lambda>(s, _). s = srv) (cends c)) nw))"

definition DisconnectAllC :: "Clnt \<times> 'st Network \<Rightarrow> Clnt \<times> 'st Network" where
  "DisconnectAllC = (\<lambda>(c, nw). (c\<lparr>csrvs := Some []\<rparr>, enableEnds False (cends c) nw))"

definition removeC :: "Clnt \<Rightarrow> 'st Network \<Rightarrow> 'st Network option" where
  "removeC c nw = for_each (cends c) (\<lambda>(_, e) nw. DeleteEnd e nw) nw"

text \<open>The clients of a test, by address.\<close>

type_synonym Clnts = "(nat \<times> Clnt) list"

definition MakeClientTo :: "nat \<Rightarrow> string list option \<Rightarrow> Clnts \<Rightarrow> Clnts" where
  "MakeClientTo p ss cs = (p, makeClntTo ss) # cs"

definition MakeClient :: "nat \<Rightarrow> Clnts \<Rightarrow> Clnts" where "MakeClient p cs = MakeClientTo p None cs"

definition DeleteClient :: "nat \<Rightarrow> Clnts \<times> 'st Network \<Rightarrow> (Clnts \<times> 'st Network) option" where
  "DeleteClient p = (\<lambda>(cs, nw).
     case map_of cs p of
       None \<Rightarrow> Some (cs, nw)
     | Some c \<Rightarrow> do { nw' \<leftarrow> removeC c nw; Some (filter (\<lambda>(q, _). q \<noteq> p) cs, nw') })"

definition cleanupClnts :: "Clnts \<times> 'st Network \<Rightarrow> (Clnts \<times> 'st Network) option" where
  "cleanupClnts = (\<lambda>(cs, nw). do { nw' \<leftarrow> for_each cs (\<lambda>(_, c) nw. removeC c nw) nw; Some ([], nw') })"

subsection \<open>Links\<close>

text \<open>
  What a group means: which server can send to which. Server \<open>i\<close> reaches \<open>j\<close> when the end
  that \<open>i\<close> owns towards \<open>j\<close> is enabled.
\<close>

definition endN :: "'b ServerGrp \<Rightarrow> nat \<Rightarrow> nat \<Rightarrow> string" where
  "endN sg i j = the (endNames (gsrvs sg ! i)) ! j"

definition link :: "'b ServerGrp \<Rightarrow> 'st Network \<Rightarrow> nat \<Rightarrow> nat \<Rightarrow> bool" where
  "link sg nw i j = isEnabled nw (endN sg i j)"

definition grp_ok :: "'b ServerGrp \<Rightarrow> bool" where
  "grp_ok sg \<longleftrightarrow>
     length (connected sg) = length (gsrvs sg) \<and>
     (\<forall>i < length (gsrvs sg). \<exists>es. endNames (gsrvs sg ! i) = Some es \<and> length es = length (gsrvs sg)) \<and>
     (\<forall>i < length (gsrvs sg). \<forall>j < length (gsrvs sg). \<forall>i' < length (gsrvs sg). \<forall>j' < length (gsrvs sg).
        endN sg i j = endN sg i' j' \<longrightarrow> i = i' \<and> j = j')"

lemma grp_okD:
  assumes "grp_ok sg"
  shows "length (connected sg) = length (gsrvs sg)"
    and "i < length (gsrvs sg) \<Longrightarrow> j < length (gsrvs sg) \<Longrightarrow> endAt (gsrvs sg ! i) j = Some (endN sg i j)"
    and "i < length (gsrvs sg) \<Longrightarrow> endNames (gsrvs sg ! i) \<noteq> None"
    and "i < length (gsrvs sg) \<Longrightarrow> j < length (gsrvs sg) \<Longrightarrow> i' < length (gsrvs sg) \<Longrightarrow> j' < length (gsrvs sg) \<Longrightarrow>
      endN sg i j = endN sg i' j' \<longleftrightarrow> i = i' \<and> j = j'"
  using assms by (fastforce simp: grp_ok_def endAt_def endN_def)+

lemma endN_connected [simp]: "endN (sg\<lparr>connected := cs\<rparr>) = endN sg"
  by (simp add: endN_def fun_eq_iff)

lemma grp_ok_connected [simp]:
  "length cs = length (gsrvs sg) \<Longrightarrow> grp_ok sg \<Longrightarrow> grp_ok (sg\<lparr>connected := cs\<rparr>)"
  by (simp add: grp_ok_def)

lemma isEnabled_Enable [simp]: "isEnabled (Enable e b nw) e' = (if e' = e then b else isEnabled nw e')"
  by (simp add: isEnabled_def Enable_def)

text \<open>A loop that switches the ends of the servers in a list.\<close>

definition switched :: "bool \<Rightarrow> string set \<Rightarrow> 'st Network \<Rightarrow> 'st Network \<Rightarrow> bool" where
  "switched b E nw nw' \<longleftrightarrow>
     (\<exists>X. nw' = nw\<lparr>enabled := X\<rparr>) \<and> (\<forall>e. isEnabled nw' e = (if e \<in> E then b else isEnabled nw e))"

lemma switched_refl: "switched b {} nw nw"
  by (auto simp: switched_def intro: exI [of _ "enabled nw"])

lemma switched_Enable: "switched b E (Enable e b nw) nw' \<Longrightarrow> switched b (insert e E) nw nw'"
  by (auto simp: switched_def Enable_def isEnabled_def)

lemma switch_loop:
  assumes "\<And>j nw. j \<in> set js \<Longrightarrow> g j nw = Some (if c j then Enable (f j) b nw else nw)"
  shows "\<exists>nw'. for_each js g nw = Some nw' \<and> switched b (f ` {j \<in> set js. c j}) nw nw'"
  using assms
proof (induction js arbitrary: nw)
  case Nil
  show ?case by (simp add: switched_refl)
next
  case (Cons j js)
  let ?nw = "if c j then Enable (f j) b nw else nw"
  from Cons.IH [of ?nw] Cons.prems obtain nw' where
    nw': "for_each js g ?nw = Some nw'" "switched b (f ` {j \<in> set js. c j}) ?nw nw'" by auto
  moreover have "{i \<in> set (j # js). c i} = (if c j then insert j {i \<in> set js. c i} else {i \<in> set js. c i})" by auto
  ultimately have "switched b (f ` {i \<in> set (j # js). c i}) nw nw'"
    using switched_Enable [of b _ "f j" nw nw'] by (cases "c j") simp_all
  then show ?case using nw'(1) Cons.prems [of j nw] by simp
qed

text \<open>Only the \<open>connected\<close> flags and the \<open>enabled\<close> map of the network change.\<close>

definition moved :: "'b ServerGrp \<times> 'st Network \<Rightarrow> 'b ServerGrp \<times> 'st Network \<Rightarrow> bool" where
  "moved = (\<lambda>(sg, nw) (sg', nw'). sg' = sg\<lparr>connected := connected sg'\<rparr> \<and> nw' = nw\<lparr>enabled := enabled nw'\<rparr> \<and>
     length (connected sg') = length (connected sg))"

lemma moved_refl: "moved (sg, nw) (sg, nw)"
  by (simp add: moved_def)

lemma moved_trans:
  assumes "moved (sg, nw) (sg1, nw1)" "moved (sg1, nw1) (sg2, nw2)"
  shows "moved (sg, nw) (sg2, nw2)"
  using assms by (cases sg; cases nw; cases sg1; cases nw1; cases sg2; cases nw2) (simp add: moved_def)

lemma moved_same:
  assumes "moved (sg, nw) (sg', nw')"
  shows "gsrvs sg' = gsrvs sg" "ggid sg' = ggid sg" "servers nw' = servers nw" "connections nw' = connections nw"
    "ends nw' = ends nw" "srvs nw' = srvs nw" "reliable nw' = reliable nw"
  using assms by (cases sg; cases nw; cases sg'; cases nw'; simp add: moved_def)+

lemma connect_link:
  assumes ok: "grp_ok sg" and i: "i < length (gsrvs sg)" and to: "set to \<subseteq> {..<length (gsrvs sg)}"
  shows "\<exists>sg' nw'. connect i to (sg, nw) = Some (sg', nw') \<and> grp_ok sg' \<and> moved (sg, nw) (sg', nw') \<and>
    connected sg' = (connected sg)[i := True] \<and>
    (\<forall>a < length (gsrvs sg). \<forall>b < length (gsrvs sg). link sg' nw' a b \<longleftrightarrow>
       link sg nw a b \<or> a = i \<and> b \<in> set to \<and> connected sg' ! b \<or> b = i \<and> a \<in> set to \<and> connected sg' ! a)"
proof -
  let ?sg = "sg\<lparr>connected := (connected sg)[i := True]\<rparr>"
  let ?c = "\<lambda>j. connected ?sg ! j"
  note [simp] = grp_okD(1) [OF ok]
  have okk: "grp_ok ?sg" using ok by simp
  have at: "IsConnected j ?sg = Some (?c j)" "goindex (gsrvs sg) (int j) = Some (gsrvs sg ! j)"
    "endAt (gsrvs sg ! i) j = Some (endN sg i j)" "endAt (gsrvs sg ! j) i = Some (endN sg j i)"
    if "j \<in> set to" for j
    using that to i grp_okD(2) [OF ok] by (auto simp: IsConnected_def)
  have "\<exists>nw1. connectS ?sg to (gsrvs sg ! i) nw = Some nw1 \<and> switched True (endN sg i ` {j \<in> set to. ?c j}) nw nw1"
    unfolding connectS_def by (rule switch_loop) (use at in simp)
  then obtain nw1 where 1: "connectS ?sg to (gsrvs sg ! i) nw = Some nw1"
    "switched True (endN sg i ` {j \<in> set to. ?c j}) nw nw1" by blast
  have "\<exists>nw2. for_each to (\<lambda>j nw. do {
       c \<leftarrow> IsConnected j ?sg;
       if c then do { t \<leftarrow> goindex (gsrvs ?sg) (int j); e \<leftarrow> endAt t i; Some (Enable e True nw) }
       else Some nw }) nw1 = Some nw2 \<and> switched True ((\<lambda>j. endN sg j i) ` {j \<in> set to. ?c j}) nw1 nw2"
    by (rule switch_loop) (use at in simp)
  then obtain nw2 where 2: "for_each to (\<lambda>j nw. do {
       c \<leftarrow> IsConnected j ?sg;
       if c then do { t \<leftarrow> goindex (gsrvs ?sg) (int j); e \<leftarrow> endAt t i; Some (Enable e True nw) }
       else Some nw }) nw1 = Some nw2" "switched True ((\<lambda>j. endN sg j i) ` {j \<in> set to. ?c j}) nw1 nw2" by blast
  have "connect i to (sg, nw) = Some (?sg, nw2)"
    using 1(1) 2(1) i by (simp add: connect_def Let_def)
  moreover have "link ?sg nw2 a b \<longleftrightarrow>
      link sg nw a b \<or> a = i \<and> b \<in> set to \<and> ?c b \<or> b = i \<and> a \<in> set to \<and> ?c a"
    if "a < length (gsrvs sg)" "b < length (gsrvs sg)" for a b
    using that to i grp_okD(4) [OF ok] 1(2) 2(2)
    by (auto simp: link_def switched_def subset_iff image_iff)
  moreover have "moved (sg, nw) (?sg, nw2)" using 1(2) 2(2) by (auto simp: moved_def switched_def)
  ultimately show ?thesis using okk by (intro exI [of _ ?sg] exI [of _ nw2]) simp
qed

lemma disconnect_link:
  assumes ok: "grp_ok sg" and i: "i < length (gsrvs sg)" and to: "set to \<subseteq> {..<length (gsrvs sg)}"
  shows "\<exists>sg' nw'. disconnect i to (sg, nw) = Some (sg', nw') \<and> grp_ok sg' \<and> moved (sg, nw) (sg', nw') \<and>
    connected sg' = (connected sg)[i := False] \<and>
    (\<forall>a < length (gsrvs sg). \<forall>b < length (gsrvs sg). link sg' nw' a b \<longleftrightarrow>
       link sg nw a b \<and> \<not> (a = i \<and> b \<in> set to) \<and> \<not> (b = i \<and> a \<in> set to))"
proof -
  let ?sg = "sg\<lparr>connected := (connected sg)[i := False]\<rparr>"
  note [simp] = grp_okD(1) [OF ok]
  have okk: "grp_ok ?sg" using ok by simp
  have at: "goindex (the (endNames (gsrvs sg ! i))) (int j) = Some (endN sg i j)"
    "goindex (gsrvs sg) (int j) = Some (gsrvs sg ! j)"
    "\<exists>es. endNames (gsrvs sg ! j) = Some es \<and> goindex es (int i) = Some (endN sg j i)"
    if "j \<in> set to" for j
    using that to i grp_okD(2) [OF ok, of i j] grp_okD(2) [OF ok, of j i]
    by (auto simp: endAt_def split: option.splits)
  obtain es where es: "endNames (gsrvs sg ! i) = Some es" using grp_okD(3) [OF ok i] by auto
  have "\<exists>nw1. disconnectS to (gsrvs sg ! i) nw = Some nw1 \<and> switched False (endN sg i ` {j \<in> set to. True}) nw nw1"
    unfolding disconnectS_def es option.case by (rule switch_loop) (use at es in simp)
  then obtain nw1 where 1: "disconnectS to (gsrvs sg ! i) nw = Some nw1"
    "switched False (endN sg i ` {j \<in> set to. True}) nw nw1" by blast
  let ?loop = "\<lambda>j nw. do {
       t \<leftarrow> goindex (gsrvs ?sg) (int j);
       case endNames t of
         None \<Rightarrow> Some nw
       | Some es \<Rightarrow> do { e \<leftarrow> goindex es (int i); Some (Enable e False nw) } }"
  have "\<exists>nw2. for_each to ?loop nw1 = Some nw2 \<and> switched False ((\<lambda>j. endN sg j i) ` {j \<in> set to. True}) nw1 nw2"
    by (rule switch_loop) (use at in fastforce)
  then obtain nw2 where 2: "for_each to ?loop nw1 = Some nw2"
    "switched False ((\<lambda>j. endN sg j i) ` {j \<in> set to. True}) nw1 nw2" by blast
  have "disconnect i to (sg, nw) = Some (?sg, nw2)"
    using 1(1) 2(1) i by (simp add: disconnect_def Let_def)
  moreover have "link ?sg nw2 a b \<longleftrightarrow>
      link sg nw a b \<and> \<not> (a = i \<and> b \<in> set to) \<and> \<not> (b = i \<and> a \<in> set to)"
    if "a < length (gsrvs sg)" "b < length (gsrvs sg)" for a b
    using that to i grp_okD(4) [OF ok] 1(2) 2(2)
    by (auto simp: link_def switched_def subset_iff image_iff)
  moreover have "moved (sg, nw) (?sg, nw2)" using 1(2) 2(2) by (auto simp: moved_def switched_def)
  ultimately show ?thesis using okk by (intro exI [of _ ?sg] exI [of _ nw2]) simp
qed

subsection \<open>Partitioning\<close>

text \<open>One side of \<open>Partition\<close>: the servers of \<open>p\<close> are cut from \<open>q\<close> and joined to each other.\<close>

definition joined :: "nat set \<Rightarrow> nat set \<Rightarrow> nat set \<Rightarrow> 'b ServerGrp \<times> 'st Network \<Rightarrow> 'b ServerGrp \<times> 'st Network \<Rightarrow> bool" where
  "joined D p q = (\<lambda>(sg0, nw0) (sg, nw).
     grp_ok sg \<and> moved (sg0, nw0) (sg, nw) \<and>
     (\<forall>i \<in> D. connected sg ! i) \<and>
     (\<forall>a \<in> D. \<forall>b \<in> D. link sg nw a b) \<and>
     (\<forall>a \<in> D. \<forall>b \<in> q. \<not> link sg nw a b \<and> \<not> link sg nw b a) \<and>
     (\<forall>a < length (gsrvs sg0). a \<notin> p \<longrightarrow> connected sg ! a = connected sg0 ! a) \<and>
     (\<forall>a < length (gsrvs sg0). \<forall>b < length (gsrvs sg0).
        \<not> (a \<in> p \<and> b \<in> p \<union> q) \<and> \<not> (b \<in> p \<and> a \<in> p \<union> q) \<longrightarrow> link sg nw a b = link sg0 nw0 a b))"

lemma side_step:
  assumes J: "joined D (set p) (set q) st0 (sg, nw)" and i: "i \<in> set p" and D: "D \<subseteq> set p"
    and r: "set p \<subseteq> {..<length (gsrvs (fst st0))}" "set q \<subseteq> {..<length (gsrvs (fst st0))}"
    and dis: "set p \<inter> set q = {}"
  shows "\<exists>st'. (do { st \<leftarrow> disconnect i q (sg, nw); connect i p st }) = Some st' \<and>
    joined (insert i D) (set p) (set q) st0 st'"
proof -
  obtain sg0 nw0 where st0: "st0 = (sg0, nw0)" by (cases st0)
  let ?n = "length (gsrvs sg0)"
  have ok: "grp_ok sg" and mv: "moved (sg0, nw0) (sg, nw)" using J by (simp_all add: joined_def st0)
  have n: "length (gsrvs sg) = ?n" using moved_same(1) [OF mv] by simp
  have ir: "i < ?n" using i r st0 by auto
  obtain sg1 nw1 where 1: "disconnect i q (sg, nw) = Some (sg1, nw1)" "grp_ok sg1" "moved (sg, nw) (sg1, nw1)"
    "connected sg1 = (connected sg)[i := False]"
    "\<And>a b. a < ?n \<Longrightarrow> b < ?n \<Longrightarrow> link sg1 nw1 a b \<longleftrightarrow>
       link sg nw a b \<and> \<not> (a = i \<and> b \<in> set q) \<and> \<not> (b = i \<and> a \<in> set q)"
    using disconnect_link [OF ok, of i q nw] ir r n st0 by auto
  have n1: "length (gsrvs sg1) = ?n" using moved_same(1) [OF 1(3)] n by simp
  obtain sg2 nw2 where 2: "connect i p (sg1, nw1) = Some (sg2, nw2)" "grp_ok sg2" "moved (sg1, nw1) (sg2, nw2)"
    "connected sg2 = (connected sg1)[i := True]"
    "\<And>a b. a < ?n \<Longrightarrow> b < ?n \<Longrightarrow> link sg2 nw2 a b \<longleftrightarrow>
       link sg1 nw1 a b \<or> a = i \<and> b \<in> set p \<and> connected sg2 ! b \<or> b = i \<and> a \<in> set p \<and> connected sg2 ! a"
    using connect_link [OF 1(2), of i p nw1] ir r n1 st0 by auto
  have c: "connected sg2 ! a = (if a = i then True else connected sg ! a)" if "a < ?n" for a
    using that grp_okD(1) [OF ok] n by (simp add: 2(4) 1(4) nth_list_update)
  have lk: "link sg2 nw2 a b \<longleftrightarrow>
      link sg nw a b \<and> \<not> (a = i \<and> b \<in> set q) \<and> \<not> (b = i \<and> a \<in> set q) \<or>
      a = i \<and> b \<in> set p \<and> (b = i \<or> connected sg ! b) \<or> b = i \<and> a \<in> set p \<and> (a = i \<or> connected sg ! a)"
    if "a < ?n" "b < ?n" for a b
    using 2(5) [OF that] 1(5) [OF that] c [of a] c [of b] that by auto
  have pn: "\<And>a. a \<in> set p \<Longrightarrow> a < ?n" and qn: "\<And>a. a \<in> set q \<Longrightarrow> a < ?n" using r st0 by auto
  have "joined (insert i D) (set p) (set q) st0 (sg2, nw2)"
    unfolding joined_def st0 prod.case
  proof (intro conjI ballI allI impI)
    show "grp_ok sg2" by (rule 2(2))
    show "moved (sg0, nw0) (sg2, nw2)"
      using mv 1(3) 2(3) by (blast intro: moved_trans)
  next
    fix a assume "a \<in> insert i D"
    then show "connected sg2 ! a" using J D c [of a] pn [of a] ir by (auto simp: joined_def st0)
  next
    fix a b assume "a \<in> insert i D" "b \<in> insert i D"
    moreover have "a < ?n" "b < ?n" "a \<notin> set q" "b \<notin> set q" "a \<in> set p" "b \<in> set p"
      using calculation D pn i dis by auto
    moreover have "connected sg ! a" if "a \<noteq> i" using J calculation that by (simp add: joined_def st0)
    moreover have "connected sg ! b" if "b \<noteq> i" using J calculation that by (simp add: joined_def st0)
    moreover have "link sg nw a b" if "a \<noteq> i" "b \<noteq> i" using J calculation that by (simp add: joined_def st0)
    ultimately show "link sg2 nw2 a b" using lk [of a b] by blast
  next
    fix a b assume "a \<in> insert i D" "b \<in> set q"
    moreover have "a < ?n" "b < ?n" "b \<notin> set p" "b \<noteq> i" using calculation D pn qn i dis by auto
    moreover have "\<not> link sg nw a b \<and> \<not> link sg nw b a" if "a \<noteq> i"
      using J calculation that by (simp add: joined_def st0)
    ultimately show "\<not> link sg2 nw2 a b" "\<not> link sg2 nw2 b a"
      using lk [of a b] lk [of b a] by blast+
  next
    fix a assume "a < ?n" "a \<notin> set p"
    then show "connected sg2 ! a = connected sg0 ! a" using J c i by (auto simp: joined_def st0)
  next
    fix a b assume "a < ?n" "b < ?n" "\<not> (a \<in> set p \<and> b \<in> set p \<union> set q) \<and> \<not> (b \<in> set p \<and> a \<in> set p \<union> set q)"
    then show "link sg2 nw2 a b = link sg0 nw0 a b"
      using J lk [of a b] i by (auto simp: joined_def st0)
  qed
  then show ?thesis using 1(1) 2(1) by auto
qed

lemma side_loop:
  assumes "joined D (set p) (set q) st0 st" "set xs \<subseteq> set p" "D \<subseteq> set p"
    and "set p \<subseteq> {..<length (gsrvs (fst st0))}" "set q \<subseteq> {..<length (gsrvs (fst st0))}" "set p \<inter> set q = {}"
  shows "\<exists>st'. for_each xs (\<lambda>i st. do { st' \<leftarrow> disconnect i q st; connect i p st' }) st = Some st' \<and>
    joined (D \<union> set xs) (set p) (set q) st0 st'"
  using assms(1-3)
proof (induction xs arbitrary: D st)
  case (Cons x xs)
  obtain sg nw where st: "st = (sg, nw)" by (cases st)
  obtain st1 where 1: "(do { st' \<leftarrow> disconnect x q st; connect x p st' }) = Some st1"
    "joined (insert x D) (set p) (set q) st0 st1"
    using side_step [of D p q st0 sg nw x] Cons.prems assms(4-6) unfolding st by auto
  from Cons.IH [OF 1(2)] Cons.prems obtain st' where
    "for_each xs (\<lambda>i st. do { st' \<leftarrow> disconnect i q st; connect i p st' }) st1 = Some st'"
    "joined (insert x D \<union> set xs) (set p) (set q) st0 st'" by auto
  then show ?case using 1(1) by (intro exI [of _ st']) simp
qed simp

lemma Partition_links:
  assumes ok: "grp_ok sg" and r: "set p1 \<subseteq> {..<N sg}" "set p2 \<subseteq> {..<N sg}" and dis: "set p1 \<inter> set p2 = {}"
  shows "\<exists>sg' nw'. Partition p1 p2 (sg, nw) = Some (sg', nw') \<and> moved (sg, nw) (sg', nw') \<and> grp_ok sg' \<and>
    (\<forall>a \<in> set p1 \<union> set p2. connected sg' ! a \<and>
       (\<forall>b \<in> set p1 \<union> set p2. link sg' nw' a b \<longleftrightarrow> (a \<in> set p1 \<longleftrightarrow> b \<in> set p1))) \<and>
    (\<forall>a < N sg. \<forall>b < N sg. a \<notin> set p1 \<union> set p2 \<or> b \<notin> set p1 \<union> set p2 \<longrightarrow> link sg' nw' a b = link sg nw a b)"
proof -
  note r = r [unfolded N_def]
  have "joined {} (set p1) (set p2) (sg, nw) (sg, nw)" using ok by (simp add: joined_def moved_refl)
  from side_loop [OF this, of p1] r dis obtain sg1 nw1 where 1:
    "for_each p1 (\<lambda>i st. do { st' \<leftarrow> disconnect i p2 st; connect i p1 st' }) (sg, nw) = Some (sg1, nw1)"
    "joined (set p1) (set p1) (set p2) (sg, nw) (sg1, nw1)" by auto
  have ok1: "grp_ok sg1" and mv1: "moved (sg, nw) (sg1, nw1)" using 1(2) by (simp_all add: joined_def)
  have n1: "gsrvs sg1 = gsrvs sg" using moved_same(1) [OF mv1] .
  have "joined {} (set p2) (set p1) (sg1, nw1) (sg1, nw1)" using ok1 by (simp add: joined_def moved_refl)
  moreover have "set p2 \<inter> set p1 = {}" using dis by blast
  ultimately obtain sg2 nw2 where 2:
    "for_each p2 (\<lambda>i st. do { st' \<leftarrow> disconnect i p1 st; connect i p2 st' }) (sg1, nw1) = Some (sg2, nw2)"
    "joined (set p2) (set p2) (set p1) (sg1, nw1) (sg2, nw2)"
    using side_loop [of "{}" p2 p1 "(sg1, nw1)" "(sg1, nw1)" p2] r n1 by auto
  have mv2: "moved (sg1, nw1) (sg2, nw2)" using 2(2) by (simp add: joined_def)
  have same: "link sg2 nw2 a b" if "a \<in> set p1" "b \<in> set p1" for a b
  proof -
    have "link sg1 nw1 a b" using 1(2) that by (simp add: joined_def)
    moreover have "a \<notin> set p2" "b \<notin> set p2" "a < length (gsrvs sg1)" "b < length (gsrvs sg1)" using that r dis n1 by auto
    ultimately show ?thesis using 2(2) by (simp add: joined_def)
  qed
  have conn: "connected sg2 ! a" if "a \<in> set p1 \<union> set p2" for a
  proof (cases "a \<in> set p2")
    case False
    with that have "connected sg1 ! a" "a < length (gsrvs sg1)" using 1(2) r n1 by (auto simp: joined_def)
    then show ?thesis using 2(2) False by (simp add: joined_def)
  qed (use 2(2) in \<open>simp add: joined_def\<close>)
  have other: "link sg2 nw2 a b = link sg nw a b"
    if "a < length (gsrvs sg)" "b < length (gsrvs sg)" "a \<notin> set p1 \<union> set p2 \<or> b \<notin> set p1 \<union> set p2" for a b
  proof -
    have "link sg1 nw1 a b = link sg nw a b" using 1(2) that by (auto simp: joined_def)
    moreover have "link sg2 nw2 a b = link sg1 nw1 a b" using 2(2) that n1 by (auto simp: joined_def)
    ultimately show ?thesis by simp
  qed
  have "link sg2 nw2 a b \<longleftrightarrow> (a \<in> set p1 \<longleftrightarrow> b \<in> set p1)" if "a \<in> set p1 \<union> set p2" "b \<in> set p1 \<union> set p2" for a b
    using that same [of a b] 2(2) dis by (auto simp: joined_def)
  then show ?thesis
    using 1(1) 2 conn other moved_trans [OF mv1 mv2] unfolding N_def
    by (intro exI [of _ sg2] exI [of _ nw2]) (simp add: Partition_def joined_def)
qed

text \<open>The group's ends lead to its servers, and each server listed is up.\<close>

definition serving :: "'b ServerGrp \<Rightarrow> 'st Network \<Rightarrow> nat set \<Rightarrow> bool" where
  "serving sg nw S \<longleftrightarrow>
     (\<forall>i < N sg. \<forall>j < N sg. connections nw (endN sg i j) = Some (Some (ServerName (ggid sg) j))) \<and>
     (\<forall>j \<in> S. \<exists>p. serverOf nw (ServerName (ggid sg) j) = Some p)"

text \<open>
  C28. Partitioning a group cuts exactly the links between the two sides: for disjoint sides it does
  not panic, and afterwards, on a reliable network with all the servers of both sides up, a
  request of a server of one side is handed to its destination just in case that is on
  the same side; a request to the other side is answered with a failure and never reaches a server. Links
  to servers on neither side are as before.
\<close>

theorem Partition_correct:
  assumes "grp_ok sg" "set p1 \<union> set p2 \<subseteq> {..<N sg}" "set p1 \<inter> set p2 = {}"
    and "serving sg nw (set p1 \<union> set p2)" "reliable nw"
  shows "\<exists>sg' nw'. Partition p1 p2 (sg, nw) = Some (sg', nw') \<and>
    (\<forall>a \<in> set p1 \<union> set p2. \<forall>b \<in> set p1 \<union> set p2. \<forall>roll req. endname req = endN sg' a b \<longrightarrow>
       (if a \<in> set p1 \<longleftrightarrow> b \<in> set p1
        then \<exists>p. serverOf nw' (ServerName (ggid sg) b) = Some p \<and>
          processStart roll req nw' = RunHandler (ServerName (ggid sg) b) p True (longReordering nw')
        else processStart roll req nw' = ReplyNow noReply)) \<and>
    (\<forall>a < N sg. \<forall>b < N sg. a \<notin> set p1 \<union> set p2 \<or> b \<notin> set p1 \<union> set p2 \<longrightarrow> link sg' nw' a b = link sg nw a b)"
proof -
  obtain sg' nw' where P: "Partition p1 p2 (sg, nw) = Some (sg', nw')" "moved (sg, nw) (sg', nw')"
    "\<And>a b. a \<in> set p1 \<union> set p2 \<Longrightarrow> b \<in> set p1 \<union> set p2 \<Longrightarrow> link sg' nw' a b \<longleftrightarrow> (a \<in> set p1 \<longleftrightarrow> b \<in> set p1)"
    "\<forall>a < N sg. \<forall>b < N sg. a \<notin> set p1 \<union> set p2 \<or> b \<notin> set p1 \<union> set p2 \<longrightarrow> link sg' nw' a b = link sg nw a b"
    using Partition_links [OF assms(1) _ _ assms(3), of nw] assms(2) by (metis le_sup_iff)
  note same = moved_same [OF P(2)]
  have "if a \<in> set p1 \<longleftrightarrow> b \<in> set p1
        then \<exists>p. serverOf nw' (ServerName (ggid sg) b) = Some p \<and>
          processStart roll req nw' = RunHandler (ServerName (ggid sg) b) p True (longReordering nw')
        else processStart roll req nw' = ReplyNow noReply"
    if ab: "a \<in> set p1 \<union> set p2" "b \<in> set p1 \<union> set p2" and e: "endname req = endN sg' a b" for a b roll req
  proof -
    have "a < N sg" "b < N sg" using ab assms(2) by auto
    then have c: "connections nw' (endname req) = Some (Some (ServerName (ggid sg) b))"
      using assms(4) same by (simp add: serving_def e endN_def)
    moreover have "\<exists>p. serverOf nw' (ServerName (ggid sg) b) = Some p"
      using assms(4) ab(2) same(3) unfolding serving_def serverOf_def by simp
    then obtain p where "serverOf nw' (ServerName (ggid sg) b) = Some p" by blast
    moreover have "isEnabled nw' (endname req) \<longleftrightarrow> (a \<in> set p1 \<longleftrightarrow> b \<in> set p1)"
      using P(3) [OF ab] by (simp add: link_def e)
    ultimately show ?thesis using assms(5) same by (simp add: processStart_def readEndnameInfo_def Let_def)
  qed
  then show ?thesis using P(1,4) by blast
qed

subsection \<open>Minority partitions\<close>

lemma partition_loop:
  assumes "n1 + n2 \<ge> n" "k \<le> n" "l < n"
  shows "for_each [0..<k] (\<lambda>i (p1, p2, j).
          if i \<noteq> l then
            if j < n1 then do { p1' \<leftarrow> gostore p1 (int j) i; Some (p1', p2, j + 1) }
            else do { p2' \<leftarrow> gostore p2 (int j - int n1) i; Some (p1, p2', j + 1) }
          else Some (p1, p2, j)) (replicate n1 0, replicate n2 0, 0) =
    (let L = filter (\<lambda>i. i \<noteq> l) [0..<k] in
     Some (take n1 L @ replicate (n1 - length L) 0, drop n1 L @ replicate (n2 - (length L - n1)) 0, length L))"
  using assms(2)
proof (induction k)
  case (Suc k)
  let ?L = "filter (\<lambda>i. i \<noteq> l) [0..<k]"
  have len: "length ?L \<le> k" using length_filter_le [of "\<lambda>i. i \<noteq> l" "[0..<k]"] by simp
  have rep: "(xs @ replicate (Suc m) 0)[length xs := k] = xs @ k # replicate m (0 :: nat)" for xs m
    by simp
  show ?case
  proof (cases "k = l")
    case True
    then show ?thesis using Suc by (simp add: for_each_append Let_def)
  next
    case False
    show ?thesis
    proof (cases "length ?L < n1")
      case True
      then obtain m where m: "n1 - length ?L = Suc m" by (cases "n1 - length ?L") auto
      have "n1 - Suc (length ?L) = m" using m by simp
      then show ?thesis using Suc False True rep [of ?L m]
        by (simp add: for_each_append Let_def m gostore_def)
    next
      case lt: False
      have "length ?L - n1 < n2" using len Suc.prems assms(1,3) lt by simp
      then obtain m where m: "n2 - (length ?L - n1) = Suc m" by (cases "n2 - (length ?L - n1)") auto
      have m': "n2 - Suc (length ?L - n1) = m" "Suc (length ?L) - n1 = Suc (length ?L - n1)" using m lt by simp_all
      have nat: "nat (int (length ?L) - int n1) = length (drop n1 ?L)" using lt by simp
      have "int (length ?L) - int n1 < 1 + (int (length (drop n1 ?L)) + int m)" using lt by simp
      then show ?thesis using Suc False lt rep [of "drop n1 ?L" m] m
        by (simp add: for_each_append Let_def gostore_def m' nat del: length_drop)
    qed
  qed
qed simp

lemma others_length: "l < n \<Longrightarrow> length (filter (\<lambda>i. i \<noteq> l) [0..<n]) = n - 1"
proof (induction n)
  case (Suc n)
  have "filter (\<lambda>i. i \<noteq> n) [0..<n] = [0..<n]" by (simp add: filter_id_conv)
  then show ?case using Suc by (cases "l = n") auto
qed simp

text \<open>
  In a group of an odd number of at least three servers, \<open>MakePartition\<close> splits all the servers
  into two disjoint sides, the larger without and the smaller with the given leader, so that
  partitioning the group leaves the leader able to reach fewer than half of the servers while the others
  all reach each other.
\<close>

lemma MakePartition_isolates_leader:
  assumes ok: "grp_ok sg" and odd: "odd (N sg)" "3 \<le> N sg" and l: "l < N sg"
  shows "\<exists>p1 p2 sg' nw'. MakePartition l sg = Some (p1, p2) \<and> set p1 \<union> set p2 = {..<N sg} \<and>
    distinct (p1 @ p2) \<and> l \<in> set p2 \<and> length p1 = N sg div 2 + 1 \<and> length p2 = N sg div 2 \<and>
    Partition p1 p2 (sg, nw) = Some (sg', nw') \<and>
    2 * card {b \<in> {..<N sg}. link sg' nw' l b} < N sg \<and>
    (\<forall>a \<in> set p1. \<forall>b < N sg. link sg' nw' a b \<longleftrightarrow> b \<in> set p1)"
proof -
  obtain m where n: "N sg = 2 * m + 1" using odd(1) by (auto elim: oddE)
  have m: "m \<ge> 1" using odd(2) n by simp
  let ?L = "filter (\<lambda>i. i \<noteq> l) [0..<N sg]"
  let ?p1 = "take (m + 1) ?L" and ?p2 = "drop (m + 1) ?L @ [l]"
  have len: "length ?L = 2 * m" using others_length [OF l] n by simp
  have half: "N sg div 2 = m" using n by simp
  obtain k where k: "m = Suc k" using m by (cases m) auto
  have "(drop (m + 1) ?L @ replicate (m - (2 * m - (m + 1))) 0)[m - 1 := l] = ?p2"
    using len k by (simp add: list_update_append)
  then have mk: "MakePartition l sg = Some (?p1, ?p2)"
    using partition_loop [of "N sg" "m + 1" m "N sg" l] l n m len
    unfolding MakePartition_def N_def [symmetric] Let_def half
    by (simp add: gostore_def nat_diff_distrib)
  have dL: "distinct ?L" by simp
  have split: "set ?p1 \<union> set (drop (m + 1) ?L) = set ?L"
    by (subst set_append [symmetric], subst append_take_drop_id) (rule refl)
  have cut: "set ?p1 \<inter> set (drop (m + 1) ?L) = {}" by (rule set_take_disj_set_drop_if_distinct [OF dL]) simp
  have un: "set ?p1 \<union> set ?p2 = {..<N sg}" using split l by auto
  have "l \<notin> set ?p1" "l \<notin> set (drop (m + 1) ?L)" using split by auto
  then have di: "distinct (?p1 @ ?p2)" using cut dL by (simp add: Int_commute)
  have dj: "set ?p1 \<inter> set ?p2 = {}" using di by auto
  have "set ?p1 \<subseteq> {..<N sg}" "set ?p2 \<subseteq> {..<N sg}" using un by blast+
  note P = Partition_links [OF ok this dj, of nw, unfolded un]
  obtain sg' nw' where P: "Partition ?p1 ?p2 (sg, nw) = Some (sg', nw')"
    "\<And>a b. a < N sg \<Longrightarrow> b < N sg \<Longrightarrow> link sg' nw' a b \<longleftrightarrow> (a \<in> set ?p1 \<longleftrightarrow> b \<in> set ?p1)"
    using P by (auto simp: un)
  have "{b \<in> {..<N sg}. link sg' nw' l b} = set ?p2" using P(2) [OF l] un dj by auto
  moreover have "card (set ?p2) \<le> m" using card_length [of ?p2] len k by simp
  ultimately have "2 * card {b \<in> {..<N sg}. link sg' nw' l b} < N sg" using n by simp
  moreover have "link sg' nw' a b \<longleftrightarrow> b \<in> set ?p1" if "a \<in> set ?p1" "b < N sg" for a b
    using P(2) [of a b] that un by blast
  ultimately show ?thesis using mk un di P(1) half len m
    by (intro exI [of _ ?p1] exI [of _ ?p2] exI [of _ sg'] exI [of _ nw']) auto
qed

text \<open>
  For an even number of servers a slot of the smaller side keeps its initial value, so server 0 is put on
  both sides.
\<close>

lemma MakePartition_even:
  "MakePartition 3 \<lparr>gsrvs = replicate 4 s, servernames = [], ggid = 0, connected = []\<rparr> = Some ([0, 1, 2], [0, 3])"
  by code_simp

subsection \<open>Starting, stopping and restarting a server\<close>

definition fresh_ends :: "string list \<Rightarrow> int \<Rightarrow> 'st Network \<Rightarrow> 'st Network \<Rightarrow> bool" where
  "fresh_ends es gid nw nw' \<longleftrightarrow>
     distinct es \<and> set es \<inter> ends nw = {} \<and> ends nw' = ends nw \<union> set es \<and>
     servers nw' = servers nw \<and> srvs nw' = srvs nw \<and> reliable nw' = reliable nw \<and>
     (\<forall>e. e \<notin> set es \<longrightarrow> isEnabled nw' e = isEnabled nw e \<and> connections nw' e = connections nw e) \<and>
     (\<forall>j < length es. \<not> isEnabled nw' (es ! j) \<and> connections nw' (es ! j) = Some (Some (ServerName gid j)))"

lemma fresh_ends_snoc:
  assumes "fresh_ends es gid nw nw1" "MakeEnd e nw1 = Some nw2"
  shows "fresh_ends (es @ [e]) gid nw (Connect e (ServerName gid (length es)) nw2)"
  using assms
  by (auto simp: fresh_ends_def MakeEnd_def Connect_def isEnabled_def nth_append less_Suc_eq split: if_splits)

lemma makeServer_loop:
  assumes "for_each [0..<k] (\<lambda>j nw. do {
         e \<leftarrow> goindex rs (int j);
         nw1 \<leftarrow> MakeEnd e nw;
         Some (Connect e (ServerName gid j) nw1)
       }) nw = Some nw'"
  shows "k \<le> length rs \<and> fresh_ends (take k rs) gid nw nw'"
  using assms
proof (induction k arbitrary: nw')
  case 0
  then show ?case by (simp add: fresh_ends_def)
next
  case (Suc k)
  then obtain nw1 e nw2 where 1: "for_each [0..<k] (\<lambda>j nw. do {
         e \<leftarrow> goindex rs (int j); nw1 \<leftarrow> MakeEnd e nw; Some (Connect e (ServerName gid j) nw1) }) nw = Some nw1"
    "goindex rs (int k) = Some e" "MakeEnd e nw1 = Some nw2" "nw' = Connect e (ServerName gid k) nw2"
    by (auto simp: for_each_append split: bind_splits)
  from Suc.IH [OF 1(1)] have "k \<le> length rs" "fresh_ends (take k rs) gid nw nw1" by simp_all
  moreover have "k < length rs" "e = rs ! k" using 1(2) by (simp_all add: goindex_Some_iff)
  ultimately show ?case
    using fresh_ends_snoc [of "take k rs" gid nw nw1 e nw2] 1(3,4) by (simp add: take_Suc_conv_app_nth)
qed

lemma makeServer_spec:
  assumes "makeServer rs gid n nw = Some (s, nw')"
  shows "\<exists>es. endNames s = Some es \<and> length es = n \<and> fresh_ends es gid nw nw' \<and> saved s = None \<and> dc s = None"
  using assms makeServer_loop [of n rs gid nw nw'] by (auto simp: makeServer_def split: bind_splits)

text \<open>A group and its network: every end of the group exists and leads to the right server.\<close>

definition grp_net :: "'b ServerGrp \<times> 'st Network \<Rightarrow> bool" where
  "grp_net = (\<lambda>(sg, nw). grp_ok sg \<and>
     (\<forall>i < N sg. \<forall>j < N sg. endN sg i j \<in> ends nw \<and>
        connections nw (endN sg i j) = Some (Some (ServerName (ggid sg) j))))"

lemma moved_grp_net:
  assumes "grp_net (sg, nw)" "moved (sg, nw) (sg', nw')" "grp_ok sg'"
  shows "grp_net (sg', nw')"
  using assms(1,3) moved_same [OF assms(2)] by (simp add: grp_net_def N_def endN_def)

text \<open>Replacing a server by one with fresh ends keeps the group sound.\<close>

lemma replace_grp_net:
  assumes g: "grp_net (sg, nw)" and i: "i < N sg" and f: "fresh_ends es (ggid sg) nw nw'"
    and s: "endNames s = Some es" "length es = N sg"
  shows "grp_net (sg\<lparr>gsrvs := (gsrvs sg)[i := s]\<rparr>, nw')"
proof -
  let ?sg = "sg\<lparr>gsrvs := (gsrvs sg)[i := s]\<rparr>"
  have ok: "grp_ok sg" using g by (simp add: grp_net_def)
  have e: "endN ?sg a b = (if a = i then es ! b else endN sg a b)" if "a < N sg" for a b
    using that i s by (auto simp: endN_def N_def)
  have old: "endN sg a b \<in> ends nw" "endN sg a b \<notin> set es" if "a < N sg" "b < N sg" for a b
    using g f that by (auto simp: grp_net_def fresh_ends_def)
  have new: "es ! b \<in> ends nw'" "es ! b \<notin> ends nw" if "b < N sg" for b
  proof -
    have "es ! b \<in> set es" using that s by simp
    then show "es ! b \<in> ends nw'" "es ! b \<notin> ends nw" using f unfolding fresh_ends_def by blast+
  qed
  have inj: "a = a' \<and> b = b'"
    if "a < N sg" "b < N sg" "a' < N sg" "b' < N sg" "endN ?sg a b = endN ?sg a' b'" for a b a' b'
  proof -
    have "es ! b \<noteq> endN sg a' b'" "endN sg a b \<noteq> es ! b'" using old new that(1-4) by metis+
    moreover have "es ! b = es ! b' \<longleftrightarrow> b = b'" using that f s by (simp add: fresh_ends_def nth_eq_iff_index_eq)
    ultimately show ?thesis
      using that e grp_okD(4) [OF ok, of a b a' b'] by (auto simp: N_def split: if_splits)
  qed
  have "grp_ok ?sg"
    using ok i s inj unfolding grp_ok_def N_def by (auto simp: nth_list_update)
  moreover have "endN ?sg a b \<in> ends nw' \<and> connections nw' (endN ?sg a b) = Some (Some (ServerName (ggid sg) b))"
    if "a < N sg" "b < N sg" for a b
    using that e [of a b] old [of a b] new [of b] f s g by (auto simp: fresh_ends_def grp_net_def)
  ultimately show ?thesis by (simp add: grp_net_def N_def)
qed

lemma makeServer_total:
  assumes "distinct rs" "n \<le> length rs" "set rs \<inter> ends nw = {}"
  shows "\<exists>s nw'. makeServer rs gid n nw = Some (s, nw')"
proof -
  have "\<exists>nw'. for_each [0..<k] (\<lambda>j nw. do {
         e \<leftarrow> goindex rs (int j); nw1 \<leftarrow> MakeEnd e nw; Some (Connect e (ServerName gid j) nw1) }) nw = Some nw'"
    if "k \<le> n" for k using that
  proof (induction k)
    case (Suc k)
    then obtain nw1 where 1: "for_each [0..<k] (\<lambda>j nw. do {
         e \<leftarrow> goindex rs (int j); nw1 \<leftarrow> MakeEnd e nw; Some (Connect e (ServerName gid j) nw1) }) nw = Some nw1"
      by auto
    have "ends nw1 = ends nw \<union> set (take k rs)" using makeServer_loop [OF 1] by (simp add: fresh_ends_def)
    moreover have "rs ! k \<notin> set (take k rs)"
      using assms(1,2) Suc.prems by (auto simp: in_set_conv_nth nth_eq_iff_index_eq)
    moreover have "rs ! k \<in> set rs" using assms(2) Suc.prems by simp
    ultimately have "rs ! k \<notin> ends nw1" using assms(3) by auto
    then show ?case using 1 assms(2) Suc.prems by (simp add: for_each_append MakeEnd_def)
  qed simp
  then show ?thesis using assms(2) by (fastforce simp: makeServer_def)
qed

lemma ShutdownServer_spec:
  assumes g: "grp_net (sg, nw)" and i: "i < N sg"
  shows "\<exists>sg' nw'. ShutdownServer i (sg, nw) = Some (sg', nw') \<and> grp_net (sg', nw') \<and> N sg' = N sg \<and>
    ggid sg' = ggid sg \<and> ends nw' = ends nw \<and> gsrvs sg' ! i = shutdownServer (gsrvs sg ! i) \<and>
    connected sg' = (connected sg)[i := False] \<and> serverOf nw' (ServerName (ggid sg) i) = None \<and>
    (\<forall>a < N sg. \<forall>b < N sg. link sg' nw' a b \<longleftrightarrow> link sg nw a b \<and> a \<noteq> i \<and> b \<noteq> i)"
proof -
  have ok: "grp_ok sg" using g by (simp add: grp_net_def)
  have i': "i < length (gsrvs sg)" "set (all sg) \<subseteq> {..<length (gsrvs sg)}" using i by (auto simp: N_def all_def)
  obtain sg1 nw1 where 1: "disconnect i (all sg) (sg, nw) = Some (sg1, nw1)" "grp_ok sg1" "moved (sg, nw) (sg1, nw1)"
    "connected sg1 = (connected sg)[i := False]"
    "\<And>a b. a < length (gsrvs sg) \<Longrightarrow> b < length (gsrvs sg) \<Longrightarrow> link sg1 nw1 a b \<longleftrightarrow>
       link sg nw a b \<and> \<not> (a = i \<and> b \<in> set (all sg)) \<and> \<not> (b = i \<and> a \<in> set (all sg))"
    using disconnect_link [OF ok i', of nw] by auto
  note same = moved_same [OF 1(3)]
  have g1: "grp_net (sg1, nw1)" using moved_grp_net [OF g 1(3,2)] .
  let ?s = "shutdownServer (gsrvs sg ! i)"
  let ?sg = "sg1\<lparr>gsrvs := (gsrvs sg1)[i := ?s]\<rparr>"
  let ?nw = "DeleteServer (ServerName (ggid sg) i) nw1"
  have en: "endNames ?s = endNames (gsrvs sg ! i)" by (simp add: shutdownServer_def split: option.splits)
  have e: "endN ?sg = endN sg1"
    using i' same en by (auto simp: endN_def fun_eq_iff nth_list_update split: if_splits)
  have ens: "endNames (gsrvs ?sg ! a) = endNames (gsrvs sg1 ! a)" for a
    using i' same en by (cases "a = i") auto
  have "grp_net (?sg, ?nw)"
    using g1 e ens by (simp add: grp_net_def grp_ok_def N_def DeleteServer_def)
  moreover have "ShutdownServer i (sg, nw) = Some (?sg, ?nw)"
    using 1(1) i' same by (simp add: ShutdownServer_def Let_def)
  moreover have "link ?sg ?nw a b = link sg1 nw1 a b" for a b
    by (simp add: link_def e isEnabled_def DeleteServer_def)
  moreover have "serverOf ?nw (ServerName (ggid sg) i) = None" by (simp add: serverOf_def DeleteServer_def)
  ultimately show ?thesis using 1(4,5) same i' i
    by (intro exI [of _ ?sg] exI [of _ ?nw]) (auto simp: N_def all_def DeleteServer_def)
qed

lemma StartServer_spec:
  fixes sg :: "'b ServerGrp"
  assumes g: "grp_net (sg, nw)" and i: "i < N sg" and l: "starts l"
    and f: "distinct (rand l)" "N sg \<le> length (rand l)" "set (rand l) \<inter> ends nw = {}"
  shows "\<exists>sg' nw'. StartServer l i (sg, nw) = Some ((sg', nw'), True) \<and> grp_net (sg', nw') \<and>
    N sg' = N sg \<and> connected sg' = connected sg \<and>
    dc (gsrvs sg' ! i) = Some (daemonInit (case saved (gsrvs sg ! i) of None \<Rightarrow> MakePersister | Some p \<Rightarrow> p)) \<and>
    serverOf nw' (ServerName (ggid sg) i) = Some (addr l) \<and>
    (\<forall>b < N sg. \<not> link sg' nw' i b) \<and>
    (\<forall>a < N sg. \<forall>b < N sg. a \<noteq> i \<longrightarrow> link sg' nw' a b = link sg nw a b)"
proof -
  have i': "i < length (gsrvs sg)" using i by (simp add: N_def)
  obtain es0 where es0: "endNames (gsrvs sg ! i) = Some es0" "length es0 = N sg"
    using g i' by (auto simp: grp_net_def grp_ok_def N_def)
  obtain s :: "'b tServer" and nw1 where m: "makeServer (rand l) (ggid sg) (N sg) nw = Some (s, nw1)"
    using makeServer_total [OF f] by blast
  obtain es where es: "endNames s = Some es" "length es = N sg" "fresh_ends es (ggid sg) nw nw1"
    using makeServer_spec [OF m] by blast
  define p where "p = (case saved (gsrvs sg ! i) of None \<Rightarrow> MakePersister | Some p \<Rightarrow> p)"
  let ?s = "s\<lparr>saved := Some p, dc := Some (daemonInit p)\<rparr>"
  let ?sg = "sg\<lparr>gsrvs := (gsrvs sg)[i := ?s]\<rparr>"
  let ?nw = "AddServer (ServerName (ggid sg) i) (addr l)
    (nw1\<lparr>srvs := (srvs nw1)(addr l := SetDispatch (forward l) (MakeServer (app0 l)))\<rparr>)"
  have st: "startServer (rand l) (ggid sg) (gsrvs sg ! i) nw = Some (s\<lparr>saved := Some p\<rparr>, nw1)"
    using m es0 by (simp add: startServer_def p_def)
  have "StartServer l i (sg, nw) = Some ((?sg, ?nw), True)"
    using st l i' by (simp add: StartServer_def Let_def)
  moreover have "grp_net (?sg, nw1)" by (rule replace_grp_net [OF g i es(3)]) (simp_all add: es)
  then have "grp_net (?sg, ?nw)" by (simp add: grp_net_def AddServer_def)
  moreover have en: "endN ?sg a b = (if a = i then es ! b else endN sg a b)" for a b
    using i' es by (simp add: endN_def nth_list_update)
  moreover have ie: "isEnabled (AddServer x y (nw1\<lparr>srvs := Z\<rparr>)) e = isEnabled nw1 e" for x y Z e
    by (simp add: isEnabled_def AddServer_def)
  have "\<not> link ?sg ?nw i b" if "b < N sg" for b
    using es that by (simp add: link_def en ie fresh_ends_def)
  moreover have "link ?sg ?nw a b = link sg nw a b" if "a < N sg" "b < N sg" "a \<noteq> i" for a b
  proof -
    have "endN sg a b \<notin> set es" using g es(3) that by (auto simp: grp_net_def fresh_ends_def)
    then show ?thesis using es(3) that by (simp add: link_def en ie fresh_ends_def)
  qed
  moreover have "serverOf ?nw (ServerName (ggid sg) i) = Some (addr l)" by (simp add: serverOf_def AddServer_def)
  ultimately show ?thesis using i'
    by (intro exI [of _ ?sg] exI [of _ ?nw]) (simp add: N_def p_def)
qed

text \<open>
  C29. Crashing and restarting a server. Shutting a running server down cuts every link to and from it and
  takes it off the network; starting it again gives a process whose persister holds exactly the Raft
  state and snapshot the old process had saved, registered under the same server name but still
  unreachable on its own links; connecting it then restores its links to and from itself and every server
  that is connected.
\<close>

theorem restart_keeps_state:
  assumes g: "grp_net (sg, nw)" and i: "i < N sg" and d: "dc (gsrvs sg ! i) = Some d"
    and l: "starts l" "distinct (rand l)" "N sg \<le> length (rand l)" "set (rand l) \<inter> ends nw = {}"
  shows "\<exists>sg1 nw1 sg2 nw2 sg3 nw3 d'.
    ShutdownServer i (sg, nw) = Some (sg1, nw1) \<and>
    (\<forall>j < N sg. \<not> link sg1 nw1 i j \<and> \<not> link sg1 nw1 j i) \<and> serverOf nw1 (ServerName (ggid sg) i) = None \<and>
    StartServer l i (sg1, nw1) = Some ((sg2, nw2), True) \<and>
    dc (gsrvs sg2 ! i) = Some d' \<and> ReadRaftState d' = ReadRaftState d \<and> ReadSnapshot d' = ReadSnapshot d \<and>
    serverOf nw2 (ServerName (ggid sg) i) = Some (addr l) \<and>
    (\<forall>j < N sg. \<not> link sg2 nw2 i j \<and> \<not> link sg2 nw2 j i) \<and>
    ConnectOne i (sg2, nw2) = Some (sg3, nw3) \<and>
    (\<forall>j < N sg. j = i \<or> connected sg ! j \<longrightarrow> link sg3 nw3 i j \<and> link sg3 nw3 j i)"
proof -
  obtain sg1 nw1 where 1: "ShutdownServer i (sg, nw) = Some (sg1, nw1)" "grp_net (sg1, nw1)" "N sg1 = N sg"
    "ggid sg1 = ggid sg" "ends nw1 = ends nw" "gsrvs sg1 ! i = shutdownServer (gsrvs sg ! i)"
    "connected sg1 = (connected sg)[i := False]" "serverOf nw1 (ServerName (ggid sg) i) = None"
    "\<And>a b. a < N sg \<Longrightarrow> b < N sg \<Longrightarrow> link sg1 nw1 a b \<longleftrightarrow> link sg nw a b \<and> a \<noteq> i \<and> b \<noteq> i"
    using ShutdownServer_spec [OF g i] by blast
  obtain sg2 nw2 where 2: "StartServer l i (sg1, nw1) = Some ((sg2, nw2), True)" "grp_net (sg2, nw2)" "N sg2 = N sg"
    "connected sg2 = connected sg1" "serverOf nw2 (ServerName (ggid sg) i) = Some (addr l)"
    "dc (gsrvs sg2 ! i) = Some (daemonInit (case saved (gsrvs sg1 ! i) of None \<Rightarrow> MakePersister | Some p \<Rightarrow> p))"
    "\<And>b. b < N sg \<Longrightarrow> \<not> link sg2 nw2 i b"
    "\<And>a b. a < N sg \<Longrightarrow> b < N sg \<Longrightarrow> a \<noteq> i \<Longrightarrow> link sg2 nw2 a b = link sg1 nw1 a b"
    using StartServer_spec [OF 1(2), of i l] i l 1(3-5) by auto
  let ?d = "daemonInit (checkpointPersister d)"
  have d': "dc (gsrvs sg2 ! i) = Some ?d" using 2(6) 1(6) d by (simp add: shutdownServer_def)
  have rd: "ReadRaftState ?d = ReadRaftState d" "ReadSnapshot ?d = ReadSnapshot d"
    by (simp_all add: daemonInit_def checkpointPersister_def Let_def)
  have ok2: "grp_ok sg2" using 2(2) by (simp add: grp_net_def)
  have n2: "length (gsrvs sg2) = N sg" using 2(3) by (simp add: N_def)
  have nc: "length (connected sg) = N sg" using grp_okD(1) [of sg] g by (simp add: grp_net_def N_def)
  have "i < length (gsrvs sg2)" "set (all sg2) \<subseteq> {..<length (gsrvs sg2)}" using n2 i by (auto simp: all_def)
  from connect_link [OF ok2 this, of nw2] obtain sg3 nw3 where 3:
    "connect i (all sg2) (sg2, nw2) = Some (sg3, nw3)" "connected sg3 = (connected sg2)[i := True]"
    "\<And>a b. a < N sg \<Longrightarrow> b < N sg \<Longrightarrow> link sg3 nw3 a b \<longleftrightarrow> link sg2 nw2 a b \<or>
       a = i \<and> b \<in> set (all sg2) \<and> connected sg3 ! b \<or> b = i \<and> a \<in> set (all sg2) \<and> connected sg3 ! a"
    unfolding n2 by blast
  have c3: "connected sg3 ! j \<longleftrightarrow> j = i \<or> connected sg ! j" if "j < N sg" for j
    using that i nc by (auto simp: 3(2) 2(4) 1(7) nth_list_update)
  have "\<not> link sg2 nw2 j i" if "j < N sg" for j
    using 2(7) 2(8) [of j i] 1(9) [of j i] that i by (cases "j = i") auto
  moreover have "link sg3 nw3 i j \<and> link sg3 nw3 j i" if "j < N sg" "j = i \<or> connected sg ! j" for j
    using 3(3) [of i j] 3(3) [of j i] that i c3 [of j] n2 by (simp add: all_def)
  moreover have "ConnectOne i (sg2, nw2) = Some (sg3, nw3)" using 3(1) by (simp add: ConnectOne_def)
  ultimately show ?thesis using 1(1,8,9) 2(1,5,7) d' rd i by blast
qed

text \<open>A running group of three servers.\<close>

definition demoSrv :: "char \<Rightarrow> nat tServer" where
  "demoSrv a = \<lparr>endNames = Some [[a, CHR ''0''], [a, CHR ''1''], [a, CHR ''2'']], saved = None,
     dc = Some \<lparr>raftstate = [7], snapshot = [8]\<rparr>\<rparr>"

definition demoGrp :: "nat ServerGrp" where
  "demoGrp = \<lparr>gsrvs = [demoSrv CHR ''a'', demoSrv CHR ''b'', demoSrv CHR ''c''],
     servernames = map (ServerName 0) [0, 1, 2], ggid = 0, connected = [True, True, True]\<rparr>"

definition demoNet :: "nat Network" where
  "demoNet = (MakeNetwork (\<lambda>_. MakeServer 0))\<lparr>
     ends := {[a, b] | a b. a \<in> {CHR ''a'', CHR ''b'', CHR ''c''} \<and> b \<in> {CHR ''0'', CHR ''1'', CHR ''2''}},
     connections := (\<lambda>e. Some (Some (ServerName 0 (if e ! 1 = CHR ''0'' then 0 else if e ! 1 = CHR ''1'' then 1 else 2)))),
     servers := (\<lambda>_. Some (Some 5))\<rparr>"

lemma demo_N [simp]: "N demoGrp = 3" by (simp add: N_def demoGrp_def)

lemma less_three: "i < (3 :: nat) \<longleftrightarrow> i = 0 \<or> i = 1 \<or> i = 2" by auto

lemma demo_grp_net: "grp_net (demoGrp, demoNet)"
proof -
  have e: "endN demoGrp i j = [''abc'' ! i, ''012'' ! j]" if "i < 3" "j < 3" for i j
    using that by (auto simp: demoGrp_def demoSrv_def endN_def less_three)
  have "i = i' \<and> j = j'" if "i < 3" "j < 3" "i' < 3" "j' < 3" "endN demoGrp i j = endN demoGrp i' j'" for i j i' j'
    using that e nth_eq_iff_index_eq [of "''abc''" i i'] nth_eq_iff_index_eq [of "''012''" j j'] by simp
  moreover have "\<exists>es. endNames (gsrvs demoGrp ! i) = Some es \<and> length es = 3" if "i < 3" for i
    using that by (auto simp: demoGrp_def demoSrv_def less_three)
  moreover have "length (gsrvs demoGrp) = 3" "length (connected demoGrp) = 3" by (simp_all add: demoGrp_def)
  ultimately have "grp_ok demoGrp" unfolding grp_ok_def by presburger
  moreover have "endN demoGrp i j \<in> ends demoNet \<and>
      connections demoNet (endN demoGrp i j) = Some (Some (ServerName (ggid demoGrp) j))" if "i < 3" "j < 3" for i j
    using that by (auto simp: demoGrp_def demoSrv_def demoNet_def endN_def less_three)
  ultimately show ?thesis by (simp add: grp_net_def)
qed

lemma demo_grp_ok: "grp_ok demoGrp"
  using demo_grp_net by (simp add: grp_net_def)

theorem Partition_correct_witness:
  "\<exists>sg' nw'. Partition [0, 1] [2] (demoGrp, demoNet) = Some (sg', nw') \<and>
     processStart 0 \<lparr>endname = endN sg' 0 2, svcMeth = ''Raft.AppendEntries'', rargs = []\<rparr> nw' = ReplyNow noReply \<and>
     (\<exists>p. processStart 0 \<lparr>endname = endN sg' 0 1, svcMeth = ''Raft.AppendEntries'', rargs = []\<rparr> nw' =
        RunHandler (ServerName 0 1) p True (longReordering nw'))"
proof -
  have "serving demoGrp demoNet (set [0, 1] \<union> set [2])" "reliable demoNet"
    using demo_grp_net by (simp_all add: serving_def grp_net_def demoNet_def serverOf_def MakeNetwork_def)
  from Partition_correct [OF demo_grp_ok _ _ this] obtain sg' nw' where
    P: "Partition [0, 1] [2] (demoGrp, demoNet) = Some (sg', nw')"
    "\<forall>a \<in> set [0, 1] \<union> set [2]. \<forall>b \<in> set [0, 1] \<union> set [2]. \<forall>roll req. endname req = endN sg' a b \<longrightarrow>
       (if a \<in> set [0, 1] \<longleftrightarrow> b \<in> set [0, 1 :: nat]
        then \<exists>p. serverOf nw' (ServerName (ggid demoGrp) b) = Some p \<and>
          processStart roll req nw' = RunHandler (ServerName (ggid demoGrp) b) p True (longReordering nw')
        else processStart roll req nw' = ReplyNow noReply)" by auto
  have "ggid demoGrp = 0" by (simp add: demoGrp_def)
  then show ?thesis
    using P(1) P(2) [rule_format, of 0 2 "\<lparr>endname = endN sg' 0 2, svcMeth = ''Raft.AppendEntries'', rargs = []\<rparr>" 0]
      P(2) [rule_format, of 0 1 "\<lparr>endname = endN sg' 0 1, svcMeth = ''Raft.AppendEntries'', rargs = []\<rparr>" 0]
    by (intro exI [of _ sg'] exI [of _ nw']) auto
qed

theorem MakePartition_isolates_leader_witness:
  "\<exists>p1 p2 sg' nw'. MakePartition 0 demoGrp = Some (p1, p2) \<and> 0 \<in> set p2 \<and>
     Partition p1 p2 (demoGrp, demoNet) = Some (sg', nw') \<and> 2 * card {b \<in> {..<N demoGrp}. link sg' nw' 0 b} < 3"
  using MakePartition_isolates_leader [OF demo_grp_ok, of 0 demoNet] by auto

theorem restart_keeps_state_witness:
  "\<exists>sg1 nw1 sg2 nw2 d'. ShutdownServer 1 (demoGrp, demoNet) = Some (sg1, nw1) \<and>
     StartServer \<lparr>rand = [''x'', ''y'', ''z''], starts = True, addr = 6, app0 = 0, forward = (\<lambda>m a s. (s, a, True))\<rparr> 1
       (sg1, nw1) = Some ((sg2, nw2), True) \<and>
     dc (gsrvs sg2 ! 1) = Some d' \<and> ReadRaftState d' = [7] \<and> ReadSnapshot d' = [8]"
proof -
  let ?l = "\<lparr>rand = [''x'', ''y'', ''z''], starts = True, addr = 6, app0 = 0, forward = (\<lambda>m a s. (s, a, True))\<rparr> :: nat launch"
  have "dc (gsrvs demoGrp ! 1) = Some \<lparr>raftstate = [7], snapshot = [8]\<rparr>"
    by (simp add: demoGrp_def demoSrv_def)
  moreover have "starts ?l" "distinct (rand ?l)" "N demoGrp \<le> length (rand ?l)" "set (rand ?l) \<inter> ends demoNet = {}"
    by (auto simp: demoNet_def)
  ultimately have "\<exists>sg1 nw1 sg2 nw2 sg3 nw3 d'. ShutdownServer 1 (demoGrp, demoNet) = Some (sg1, nw1) \<and>
      StartServer ?l 1 (sg1, nw1) = Some ((sg2, nw2), True) \<and> dc (gsrvs sg2 ! 1) = Some d' \<and>
      ReadRaftState d' = ReadRaftState \<lparr>raftstate = [7], snapshot = [8]\<rparr> \<and>
      ReadSnapshot d' = ReadSnapshot \<lparr>raftstate = [7], snapshot = [8]\<rparr>"
    using restart_keeps_state [OF demo_grp_net, of 1 "\<lparr>raftstate = [7], snapshot = [8]\<rparr>" ?l] by fastforce
  then show ?thesis by (simp add: ReadRaftState_def ReadSnapshot_def)
qed

text \<open>
  A new group is sound: the network refuses an end name twice, so the ends that \<open>makeSrvGrp\<close> got are
  all different, lead to the right servers and are all disabled.
\<close>

definition rows_ok :: "nat \<Rightarrow> int \<Rightarrow> 'b tServer list \<Rightarrow> 'st Network \<Rightarrow> bool" where
  "rows_ok n gid ss nw \<longleftrightarrow>
     (\<forall>i < length ss. \<exists>es. endNames (ss ! i) = Some es \<and> length es = n \<and> distinct es \<and> set es \<subseteq> ends nw \<and>
        (\<forall>j < n. \<not> isEnabled nw (es ! j) \<and> connections nw (es ! j) = Some (Some (ServerName gid j)))) \<and>
     (\<forall>i < length ss. \<forall>k < i. set (the (endNames (ss ! i))) \<inter> set (the (endNames (ss ! k))) = {})"

lemma rows_ok_snoc:
  assumes r: "rows_ok n gid ss nw" and s: "endNames s = Some es" "length es = n" and f: "fresh_ends es gid nw nw'"
  shows "rows_ok n gid (ss @ [s]) nw'"
proof -
  have old: "\<exists>es'. endNames (ss ! i) = Some es' \<and> length es' = n \<and> distinct es' \<and> set es' \<subseteq> ends nw' \<and>
      set es' \<inter> set es = {} \<and>
      (\<forall>j < n. \<not> isEnabled nw' (es' ! j) \<and> connections nw' (es' ! j) = Some (Some (ServerName gid j)))"
    if "i < length ss" for i
  proof -
    obtain es' where e: "endNames (ss ! i) = Some es'" "length es' = n" "distinct es'" "set es' \<subseteq> ends nw"
      "\<forall>j < n. \<not> isEnabled nw (es' ! j) \<and> connections nw (es' ! j) = Some (Some (ServerName gid j))"
      using r \<open>i < length ss\<close> by (auto simp: rows_ok_def)
    have dj: "set es' \<inter> set es = {}" using e(4) f by (auto simp: fresh_ends_def)
    have "es' ! j \<notin> set es" if "j < n" for j using dj nth_mem [of j es'] that e(2) by blast
    then show ?thesis using e f dj by (auto simp: fresh_ends_def)
  qed
  have "set es \<subseteq> ends nw'" "distinct es"
    "\<forall>j < n. \<not> isEnabled nw' (es ! j) \<and> connections nw' (es ! j) = Some (Some (ServerName gid j))"
    using f s by (auto simp: fresh_ends_def)
  moreover have "set es \<inter> set (the (endNames (ss ! k))) = {}" if "k < length ss" for k using old [OF that] by auto
  ultimately show ?thesis using r s old
    unfolding rows_ok_def by (auto simp: nth_append less_Suc_eq) blast+
qed

lemma makeSrvGrp_net:
  assumes "makeSrvGrp rs gid n nw = Some (sg, nw')"
  shows "grp_net (sg, nw') \<and> N sg = n \<and> (\<forall>i < n. \<forall>j < n. \<not> link sg nw' i j)"
proof -
  let ?step = "\<lambda>i (ss, nw). do { (s, nw1) \<leftarrow> makeServer (rs i) gid n nw; Some (ss @ [s], nw1) }"
  have loop: "rows_ok n gid ss nw' \<and> length ss = k"
    if "for_each [0..<k] ?step ([], nw) = Some (ss, nw')" for k ss nw' using that
  proof (induction k arbitrary: ss nw')
    case 0
    then show ?case by (simp add: rows_ok_def)
  next
    case (Suc k)
    then obtain ss1 nw1 s where 1: "for_each [0..<k] ?step ([], nw) = Some (ss1, nw1)"
      "makeServer (rs k) gid n nw1 = Some (s, nw')" "ss = ss1 @ [s]"
      by (auto simp: for_each_append split: bind_splits prod.splits)
    then show ?case
      using Suc.IH [OF 1(1)] makeServer_spec [OF 1(2)] rows_ok_snoc [of n gid ss1 nw1 s _ nw'] by auto
  qed
  obtain ss where ss: "for_each [0..<n] ?step ([], nw) = Some (ss, nw')"
    "sg = \<lparr>gsrvs = ss, servernames = map (ServerName gid) [0..<n], ggid = gid, connected = replicate n False\<rparr>"
    using assms by (auto simp: makeSrvGrp_def split: bind_splits prod.splits)
  have r: "rows_ok n gid ss nw'" and len: "length ss = n" using loop [OF ss(1)] by simp_all
  have row: "\<exists>es. endNames (ss ! i) = Some es \<and> length es = n \<and> distinct es \<and> set es \<subseteq> ends nw' \<and>
     (\<forall>j < n. \<not> isEnabled nw' (es ! j) \<and> connections nw' (es ! j) = Some (Some (ServerName gid j)))"
    if "i < n" for i using r that len by (simp add: rows_ok_def)
  have mem: "endN sg i j \<in> set (the (endNames (ss ! i)))" if "i < n" "j < n" for i j
    using row [OF that(1)] that by (auto simp: endN_def ss(2))
  have apart: "set (the (endNames (ss ! i))) \<inter> set (the (endNames (ss ! k))) = {}" if "i < n" "k < n" "i \<noteq> k" for i k
  proof -
    have "\<forall>i < n. \<forall>k < i. set (the (endNames (ss ! i))) \<inter> set (the (endNames (ss ! k))) = {}"
      using r len by (simp add: rows_ok_def)
    then show ?thesis using that by (metis Int_commute linorder_neqE_nat)
  qed
  have inj: "i = i' \<and> j = j'" if "i < n" "j < n" "i' < n" "j' < n" "endN sg i j = endN sg i' j'" for i j i' j'
  proof -
    have "i = i'" using apart [of i i'] mem [of i j] mem [of i' j'] that by auto
    then show ?thesis using row [of i] that by (auto simp: endN_def ss(2) nth_eq_iff_index_eq)
  qed
  have "grp_ok sg" unfolding grp_ok_def using row inj len by (auto simp: ss(2)) blast+
  moreover have "endN sg i j \<in> ends nw' \<and> connections nw' (endN sg i j) = Some (Some (ServerName gid j)) \<and>
      \<not> isEnabled nw' (endN sg i j)" if "i < n" "j < n" for i j
    using row [OF that(1)] that(2) by (auto simp: endN_def ss(2))
  ultimately show ?thesis using len by (simp add: grp_net_def N_def ss(2) link_def)
qed

subsection \<open>What a client reaches\<close>

lemma isEnabled_enableEnds:
  "isEnabled (enableEnds b es nw) e = (if e \<in> snd ` set es then b else isEnabled nw e)"
proof (induction es arbitrary: nw)
  case (Cons x es)
  then show ?case by (cases x) (auto simp: enableEnds_def image_iff)
qed (simp add: enableEnds_def)

text \<open>A client that is cut off: none of its ends is enabled, and none it will make can be.\<close>

definition cut_off :: "Clnt \<times> 'st Network \<Rightarrow> bool" where
  "cut_off = (\<lambda>(c, nw). csrvs c = Some [] \<and> (\<forall>(s, e) \<in> set (cends c). \<not> isEnabled nw e))"

lemma DisconnectAll_cuts_off: "cut_off (DisconnectAllC (c, nw))"
  by (force simp: cut_off_def DisconnectAllC_def isEnabled_enableEnds)

lemma cut_off_call:
  assumes "cut_off (c, nw)" "makeEnd name server (c, nw) = Some (st', e)" "endname req = e"
  shows "cut_off st' \<and> processStart roll req (snd st') = ReplyNow noReply"
proof (cases "map_of (cends c) server")
  case None
  then have "e = name" "cut_off st'" "\<not> isEnabled (snd st') e"
    using assms(1,2)
    by (auto simp: makeEnd_def cut_off_def allowedL_def Enable_def MakeEnd_def Connect_def isEnabled_def Let_def
        split: if_splits)
  then show ?thesis using assms(3) by (simp add: processStart_def readEndnameInfo_def Let_def)
next
  case (Some x)
  then have "st' = (c, nw)" "e = x" using assms(2) by (auto simp: makeEnd_def)
  moreover have "\<not> isEnabled nw x" using map_of_SomeD [OF Some] assms(1) by (auto simp: cut_off_def)
  ultimately show ?thesis using assms(1,3) by (simp add: processStart_def readEndnameInfo_def Let_def)
qed

text \<open>
  \<open>ConnectTo\<close> enables ends but disables none: a client that was connected to every server keeps
  reaching, through an end it has made, a server outside the list it is then connected to.
\<close>

lemma ConnectTo_keeps_others:
  "isEnabled nw e \<Longrightarrow> isEnabled (snd (ConnectTo ss (c, nw))) e"
  by (simp add: ConnectTo_def isEnabled_enableEnds Let_def)

end
