(* ===== verification/Annotation.thy ===== *)
theory Annotation
  imports Prelude
begin

text \<open>
  The annotations of a test: \<open>tester1/annotation.go\<close>, and the part of it that server processes reach
  over RPC, \<open>tester1/annotator.go\<close>. The global variables \<open>annotation\<close> and \<open>finfo\<close> are the
  state \<open>annWorld\<close>; \<open>timestamp()\<close> is an argument of the operations, as is the order
  in which \<open>finalize\<close> meets the tags of its map. A panic is \<open>None\<close>.
\<close>

subsection \<open>The state\<close>

record pAnnotation =
  Tag :: string
  Start :: int
  End :: int
  Description :: string
  Details :: string
  BackgroundColor :: string

record Continuous =
  cstart :: int
  cdesp :: string
  cdetails :: string
  cbgcolor :: string

record annState =
  annotations :: "pAnnotation list"
  continuous :: "string \<rightharpoonup> Continuous"
  finalized :: bool

record CheckerBegin =
  ckts :: int
  ckdetails :: string

record FrameworkInfo =
  nservers :: nat
  fconnected :: "bool list"
  crashed :: "bool list"
  ckbegin :: CheckerBegin

record annWorld =
  ann :: annState
  finfo :: "FrameworkInfo option"

definition COLOR_INFO :: string where "COLOR_INFO = ''#FAFAFA''"
definition COLOR_NEUTRAL :: string where "COLOR_NEUTRAL = ''#FFECB3''"
definition COLOR_SUCCESS :: string where "COLOR_SUCCESS = ''#C8E6C9''"
definition COLOR_FAILURE :: string where "COLOR_FAILURE = ''#FFCDD2''"
definition COLOR_FAULT :: string where "COLOR_FAULT = ''#B3E5FC''"
definition COLOR_USER :: string where "COLOR_USER = ''#FFF176''"

definition TAG_CHECKER :: string where "TAG_CHECKER = ''$ Checker''"
definition TAG_PARTITION :: string where "TAG_PARTITION = ''$ Failure''"
definition TAG_INFO :: string where "TAG_INFO = ''$ Test Info''"

definition mkAnnotation :: annState where
  "mkAnnotation = \<lparr>annotations = [], continuous = Map.empty, finalized = False\<rparr>"

definition mkFrameworkInfo :: "nat \<Rightarrow> FrameworkInfo" where
  "mkFrameworkInfo n = \<lparr>nservers = n, fconnected = replicate n True, crashed = replicate n False,
     ckbegin = \<lparr>ckts = 0, ckdetails = []\<rparr>\<rparr>"

subsection \<open>Operations on the annotations\<close>

definition annotatePointColor :: "int \<Rightarrow> string \<Rightarrow> string \<Rightarrow> string \<Rightarrow> string \<Rightarrow> annState \<Rightarrow> annState" where
  "annotatePointColor t tag desp details bgcolor an =
     an\<lparr>annotations := annotations an @
       [\<lparr>Tag = tag, Start = t, End = 0, Description = desp, Details = details, BackgroundColor = bgcolor\<rparr>]\<rparr>"

definition annotateIntervalColor :: "int \<Rightarrow> string \<Rightarrow> int \<Rightarrow> string \<Rightarrow> string \<Rightarrow> string \<Rightarrow> annState \<Rightarrow> annState" where
  "annotateIntervalColor t tag start desp details bgcolor an =
     an\<lparr>annotations := annotations an @
       [\<lparr>Tag = tag, Start = start, End = t, Description = desp, Details = details, BackgroundColor = bgcolor\<rparr>]\<rparr>"

definition concretize :: "int \<Rightarrow> string \<Rightarrow> Continuous \<Rightarrow> pAnnotation" where
  "concretize t tag cont = \<lparr>Tag = tag, Start = cstart cont, End = t, Description = cdesp cont,
     Details = cdetails cont, BackgroundColor = cbgcolor cont\<rparr>"

definition annotateContinuousColor :: "int \<Rightarrow> string \<Rightarrow> string \<Rightarrow> string \<Rightarrow> string \<Rightarrow> annState \<Rightarrow> annState" where
  "annotateContinuousColor t tag desp details bgcolor an =
     (let new = \<lparr>cstart = t, cdesp = desp, cdetails = details, cbgcolor = bgcolor\<rparr>
      in case continuous an tag of
           None \<Rightarrow> an\<lparr>continuous := (continuous an)(tag \<mapsto> new)\<rparr>
         | Some cont \<Rightarrow> an\<lparr>annotations := annotations an @ [concretize t tag cont],
             continuous := (continuous an)(tag \<mapsto> new)\<rparr>)"

text \<open>Without an on-going annotation the zero value of \<open>Continuous\<close> is ended.\<close>

definition zeroContinuous :: Continuous where
  "zeroContinuous = \<lparr>cstart = 0, cdesp = [], cdetails = [], cbgcolor = []\<rparr>"

definition annotateContinuousEnd :: "int \<Rightarrow> string \<Rightarrow> annState \<Rightarrow> annState" where
  "annotateContinuousEnd t tag an =
     (let cont = (case continuous an tag of Some c \<Rightarrow> c | None \<Rightarrow> zeroContinuous)
      in an\<lparr>annotations := annotations an @ [concretize t tag cont],
            continuous := (continuous an)(tag := None)\<rparr>)"

text \<open>\<open>tags\<close> is the order of the iteration over the map.\<close>

definition finalize :: "int \<Rightarrow> string list \<Rightarrow> annState \<Rightarrow> pAnnotation list \<times> annState" where
  "finalize t tags an =
     (annotations an @ map (\<lambda>tag. concretize t tag (the (continuous an tag))) tags, an\<lparr>finalized := True\<rparr>)"

definition clear :: "annState \<Rightarrow> annState" where
  "clear an = an\<lparr>annotations := [], continuous := Map.empty, finalized := False\<rparr>"

definition endAnnotation :: "int \<Rightarrow> string \<Rightarrow> pAnnotation" where
  "endAnnotation t e = \<lparr>Tag = TAG_INFO, Start = t, End = 0, Description = e, Details = e, BackgroundColor = COLOR_INFO\<rparr>"

definition FinalizeAnnotations :: "int \<Rightarrow> int \<Rightarrow> string list \<Rightarrow> string \<Rightarrow> annState \<Rightarrow> pAnnotation list \<times> annState" where
  "FinalizeAnnotations t t' tags e an =
     (case finalize t tags an of (as, an') \<Rightarrow> (as @ [endAnnotation t' e], an'))"

definition SetAnnotationFinalized :: "annState \<Rightarrow> annState" where
  "SetAnnotationFinalized an = an\<lparr>finalized := True\<rparr>"

definition isFinalized :: "annState \<Rightarrow> bool" where "isFinalized an = finalized an"

text \<open>\<open>cleanup\<close>: the annotations handed to the visualiser, if any. \<open>enabled\<close> is \<open>VIS_ENABLE\<close>.\<close>

definition cleanup ::
  "string \<Rightarrow> int \<Rightarrow> int \<Rightarrow> string list \<Rightarrow> bool \<Rightarrow> string \<Rightarrow> annState \<Rightarrow> annState \<times> pAnnotation list option" where
  "cleanup enabled t t' tags failed e an =
     (if enabled = ''never'' \<or> (\<not> failed \<and> enabled \<noteq> ''always'') \<or> isFinalized an then (clear an, None)
      else case finalize t tags an of (as, an') \<Rightarrow>
        if as = [] then (an', None) else (an', Some (as @ [endAnnotation t' e])))"

subsection \<open>Faults\<close>

text \<open>The verb \<open>%v\<close> of a slice of numbers.\<close>

fun joinInts :: "int list \<Rightarrow> string" where
  "joinInts [] = []"
| "joinInts [i] = Itoa i"
| "joinInts (i # j # is) = Itoa i @ '' '' @ joinInts (j # is)"

definition showInts :: "int list \<Rightarrow> string" where
  "showInts is = ''['' @ joinInts is @ '']''"

fun faultLoop :: "bool list \<Rightarrow> nat \<Rightarrow> bool list \<Rightarrow> int list \<times> int list \<times> string \<Rightarrow> (int list \<times> int list \<times> string) option" where
  "faultLoop cr i [] st = Some st"
| "faultLoop cr i (connected # cs) (cn, crashes, b) =
     do {
       x \<leftarrow> goindex cr (int i);
       faultLoop cr (Suc i) cs
         (if x then (cn, crashes @ [int i], b)
          else if connected then (cn @ [int i], crashes, b)
          else (cn, crashes, b @ ''['' @ Itoa (int i) @ ''] ''))
     }"

definition annotateFault :: "int \<Rightarrow> FrameworkInfo \<Rightarrow> annState \<Rightarrow> annState option" where
  "annotateFault t fi an =
     (if replicate (nservers fi) True = fconnected fi \<and> replicate (nservers fi) False = crashed fi
      then Some (annotateContinuousEnd t TAG_PARTITION an)
      else do {
        (cn, crashes, b) \<leftarrow> faultLoop (crashed fi) 0 (fconnected fi) ([], [], ''partition = '');
        let text = b @ (if cn \<noteq> [] then showInts cn else []) @
          (if crashes \<noteq> [] then '' / crash = '' @ showInts crashes else []);
        Some (annotateContinuousColor t TAG_PARTITION text text COLOR_FAULT an)
      })"

text \<open>Go's \<open>copy\<close>: as many elements as both slices have.\<close>

definition gocopy :: "'a list \<Rightarrow> 'a list \<Rightarrow> 'a list" where
  "gocopy dst src = take (length dst) src @ drop (length src) dst"

definition AnnotateConnection :: "int \<Rightarrow> bool list \<Rightarrow> annWorld \<Rightarrow> annWorld option" where
  "AnnotateConnection t connection w =
     do {
       fi \<leftarrow> finfo w;
       if fconnected fi = connection then Some w
       else do {
         let fi' = fi\<lparr>fconnected := gocopy (fconnected fi) connection\<rparr>;
         an \<leftarrow> annotateFault t fi' (ann w);
         Some (w\<lparr>ann := an, finfo := Some fi'\<rparr>)
       }
     }"

definition AnnotateTwoPartitions :: "int \<Rightarrow> int list \<Rightarrow> int list \<Rightarrow> annWorld \<Rightarrow> annWorld" where
  "AnnotateTwoPartitions t p1 p2 w =
     (let text = ''partition = '' @ showInts p1 @ '' '' @ showInts p2
      in w\<lparr>ann := annotateContinuousColor t TAG_PARTITION text text COLOR_FAULT (ann w)\<rparr>)"

definition AnnotateClearFailure :: "int \<Rightarrow> annWorld \<Rightarrow> annWorld option" where
  "AnnotateClearFailure t w =
     do {
       fi \<leftarrow> finfo w;
       Some (w\<lparr>ann := annotateContinuousEnd t TAG_PARTITION (ann w),
         finfo := Some (fi\<lparr>crashed := map (\<lambda>_. False) (crashed fi), fconnected := map (\<lambda>_. True) (fconnected fi)\<rparr>)\<rparr>)
     }"

text \<open>The loop of \<open>AnnotateShutdown\<close> with \<open>v\<close> true, and of \<open>AnnotateRestart\<close> with \<open>v\<close> false.\<close>

definition markLoop :: "bool \<Rightarrow> int list \<Rightarrow> bool list \<Rightarrow> (bool \<times> bool list) option" where
  "markLoop v servers cr =
     for_each servers (\<lambda>i (changed, cr). do {
       x \<leftarrow> goindex cr i;
       cr' \<leftarrow> gostore cr i v;
       Some (changed \<or> x \<noteq> v, cr')
     }) (False, cr)"

definition markServers :: "bool \<Rightarrow> int \<Rightarrow> int list \<Rightarrow> annWorld \<Rightarrow> annWorld option" where
  "markServers v t servers w =
     do {
       fi \<leftarrow> finfo w;
       (changed, cr) \<leftarrow> markLoop v servers (crashed fi);
       let fi' = fi\<lparr>crashed := cr\<rparr>;
       if \<not> changed then Some (w\<lparr>finfo := Some fi'\<rparr>)
       else do {
         an \<leftarrow> annotateFault t fi' (ann w);
         Some (w\<lparr>ann := an, finfo := Some fi'\<rparr>)
       }
     }"

definition AnnotateShutdown :: "int \<Rightarrow> int list \<Rightarrow> annWorld \<Rightarrow> annWorld option" where
  "AnnotateShutdown = markServers True"

definition AnnotateRestart :: "int \<Rightarrow> int list \<Rightarrow> annWorld \<Rightarrow> annWorld option" where
  "AnnotateRestart = markServers False"

definition AnnotateShutdownAll :: "int \<Rightarrow> annWorld \<Rightarrow> annWorld option" where
  "AnnotateShutdownAll t w = do { fi \<leftarrow> finfo w; AnnotateShutdown t (map int [0..<nservers fi]) w }"

definition AnnotateRestartAll :: "int \<Rightarrow> annWorld \<Rightarrow> annWorld option" where
  "AnnotateRestartAll t w = do { fi \<leftarrow> finfo w; AnnotateRestart t (map int [0..<nservers fi]) w }"

subsection \<open>Tests and checkers\<close>

definition AnnotatePointColor where
  "AnnotatePointColor t tag desp details bgcolor w = w\<lparr>ann := annotatePointColor t tag desp details bgcolor (ann w)\<rparr>"

definition AnnotateIntervalColor where
  "AnnotateIntervalColor t tag start desp details bgcolor w =
     w\<lparr>ann := annotateIntervalColor t tag start desp details bgcolor (ann w)\<rparr>"

definition AnnotateContinuousColor where
  "AnnotateContinuousColor t tag desp details bgcolor w = w\<lparr>ann := annotateContinuousColor t tag desp details bgcolor (ann w)\<rparr>"

definition AnnotateContinuousEnd where
  "AnnotateContinuousEnd t tag w = w\<lparr>ann := annotateContinuousEnd t tag (ann w)\<rparr>"

definition AnnotatePoint where "AnnotatePoint t tag desp details = AnnotatePointColor t tag desp details COLOR_USER"

definition AnnotateInterval where
  "AnnotateInterval t tag start desp details = AnnotateIntervalColor t tag start desp details COLOR_USER"

definition AnnotateContinuous where
  "AnnotateContinuous t tag desp details = AnnotateContinuousColor t tag desp details COLOR_USER"

definition AnnotateInfo where "AnnotateInfo t desp details = AnnotatePointColor t TAG_INFO desp details COLOR_INFO"

definition AnnotateInfoInterval where
  "AnnotateInfoInterval t start desp details = AnnotateIntervalColor t TAG_INFO start desp details COLOR_INFO"

definition AnnotateTest :: "int \<Rightarrow> string \<Rightarrow> nat \<Rightarrow> annWorld \<Rightarrow> annWorld" where
  "AnnotateTest t desp n w =
     (let details = desp @ '' ('' @ Itoa (int n) @ '' servers)''
      in AnnotateInfo t details details (w\<lparr>ann := clear (ann w), finfo := Some (mkFrameworkInfo n)\<rparr>))"

definition AnnotateCheckerBegin :: "int \<Rightarrow> string \<Rightarrow> annWorld \<Rightarrow> annWorld option" where
  "AnnotateCheckerBegin t details w =
     do { fi \<leftarrow> finfo w; Some (w\<lparr>finfo := Some (fi\<lparr>ckbegin := \<lparr>ckts = t, ckdetails = details\<rparr>\<rparr>)\<rparr>) }"

text \<open>The last assignment of the function is to a copy of \<open>ckbegin\<close>.\<close>

definition AnnotateCheckerEnd :: "int \<Rightarrow> string \<Rightarrow> string \<Rightarrow> string \<Rightarrow> annWorld \<Rightarrow> annWorld option" where
  "AnnotateCheckerEnd t desp details color w =
     do {
       fi \<leftarrow> finfo w;
       let ck = ckbegin fi;
       if ckts ck = 0 then Some (AnnotatePointColor t TAG_CHECKER desp details color w)
       else Some (AnnotateIntervalColor t TAG_CHECKER (ckts ck) desp (ckdetails ck @ '': '' @ details) color w)
     }"

definition AnnotateCheckerSuccess where "AnnotateCheckerSuccess t desp details = AnnotateCheckerEnd t desp details COLOR_SUCCESS"
definition AnnotateCheckerFailure where "AnnotateCheckerFailure t desp details = AnnotateCheckerEnd t desp details COLOR_FAILURE"
definition AnnotateCheckerNeutral where "AnnotateCheckerNeutral t desp details = AnnotateCheckerEnd t desp details COLOR_NEUTRAL"

definition AnnotateCheckerFailureBeforeExit ::
  "string \<Rightarrow> int \<Rightarrow> int \<Rightarrow> int \<Rightarrow> string list \<Rightarrow> string \<Rightarrow> string \<Rightarrow> annWorld \<Rightarrow> (annWorld \<times> pAnnotation list option) option" where
  "AnnotateCheckerFailureBeforeExit enabled t t' t'' tags desp details w =
     do {
       w' \<leftarrow> AnnotateCheckerFailure t desp details w;
       case cleanup enabled t' t'' tags True ''test failed'' (ann w') of (an, vis) \<Rightarrow> Some (w'\<lparr>ann := an\<rparr>, vis)
     }"

subsection \<open>The annotator of server processes\<close>

record PostAnnotatorPointArgs =
  ppTag :: string
  ppDesp :: string
  ppDetails :: string

record PostAnnotatorInfoIntervalArgs =
  piStart :: int
  piDesp :: string
  piDetails :: string

definition PostAnnotatorPoint :: "int \<Rightarrow> PostAnnotatorPointArgs \<Rightarrow> annWorld \<Rightarrow> annWorld" where
  "PostAnnotatorPoint t args = AnnotatePoint t (ppTag args) (ppDesp args) (ppDetails args)"

definition PostAnnotatorInfoInterval :: "int \<Rightarrow> PostAnnotatorInfoIntervalArgs \<Rightarrow> annWorld \<Rightarrow> annWorld" where
  "PostAnnotatorInfoInterval t args = AnnotateInfoInterval t (piStart args) (piDesp args) (piDetails args)"

text \<open>\<open>GetAnnotatorTimestamp\<close> of a process: the reply of the tester, or 0 when the call fails.\<close>

definition GetAnnotatorTimestamp :: "int option \<Rightarrow> int" where
  "GetAnnotatorTimestamp r = (case r of None \<Rightarrow> 0 | Some ts \<Rightarrow> ts)"

subsection \<open>Histories\<close>

datatype annOp =
    OpPoint string string string string
  | OpInterval string int string string string
  | OpContinuous string string string string
  | OpContinuousEnd string
  | OpCheckerBegin string
  | OpCheckerEnd string string string
  | OpConnection "bool list"
  | OpTwoPartitions "int list" "int list"
  | OpClearFailure
  | OpShutdown "int list"
  | OpShutdownAll
  | OpRestart "int list"
  | OpRestartAll

fun exec :: "int \<Rightarrow> annOp \<Rightarrow> annWorld \<Rightarrow> annWorld option" where
  "exec t (OpPoint tag desp details color) w = Some (AnnotatePointColor t tag desp details color w)"
| "exec t (OpInterval tag start desp details color) w = Some (AnnotateIntervalColor t tag start desp details color w)"
| "exec t (OpContinuous tag desp details color) w = Some (AnnotateContinuousColor t tag desp details color w)"
| "exec t (OpContinuousEnd tag) w = Some (AnnotateContinuousEnd t tag w)"
| "exec t (OpCheckerBegin details) w = AnnotateCheckerBegin t details w"
| "exec t (OpCheckerEnd desp details color) w = AnnotateCheckerEnd t desp details color w"
| "exec t (OpConnection connection) w = AnnotateConnection t connection w"
| "exec t (OpTwoPartitions p1 p2) w = Some (AnnotateTwoPartitions t p1 p2 w)"
| "exec t OpClearFailure w = AnnotateClearFailure t w"
| "exec t (OpShutdown servers) w = AnnotateShutdown t servers w"
| "exec t OpShutdownAll w = AnnotateShutdownAll t w"
| "exec t (OpRestart servers) w = AnnotateRestart t servers w"
| "exec t OpRestartAll w = AnnotateRestartAll t w"

definition execAll :: "(int \<times> annOp) list \<Rightarrow> annWorld \<Rightarrow> annWorld option" where
  "execAll ops w = for_each ops (\<lambda>(t, op). exec t op) w"

subsection \<open>What an annotated history shows at a time\<close>

definition covers :: "string \<Rightarrow> int \<Rightarrow> pAnnotation \<Rightarrow> bool" where
  "covers T t a \<longleftrightarrow> Tag a = T \<and> BackgroundColor a \<noteq> [] \<and> Start a \<le> t \<and> t < End a"

definition ongoing :: "string \<Rightarrow> annState \<Rightarrow> string list" where
  "ongoing T an = (case continuous an T of None \<Rightarrow> [] | Some c \<Rightarrow> [cdesp c])"

definition shown :: "string \<Rightarrow> int \<Rightarrow> annState \<Rightarrow> string list" where
  "shown T t an = map Description (filter (covers T t) (annotations an)) @
     (case continuous an T of None \<Rightarrow> [] | Some c \<Rightarrow> (if cstart c \<le> t then [cdesp c] else []))"

definition past :: "string \<Rightarrow> int \<Rightarrow> annState \<Rightarrow> bool" where
  "past T u an \<longleftrightarrow> (\<forall>a \<in> set (annotations an). Tag a = T \<longrightarrow> End a \<le> u) \<and>
     (\<forall>c. continuous an T = Some c \<longrightarrow> cstart c \<le> u \<and> cbgcolor c \<noteq> [])"

text \<open>Operations that leave the time line of \<open>T\<close> to its continuous annotations.\<close>

fun keepsLine :: "string \<Rightarrow> annOp \<Rightarrow> bool" where
  "keepsLine T (OpPoint tag desp details color) = (tag \<noteq> T)"
| "keepsLine T (OpInterval tag start desp details color) = (tag \<noteq> T)"
| "keepsLine T (OpContinuous tag desp details color) = (tag = T \<longrightarrow> color \<noteq> [])"
| "keepsLine T (OpCheckerEnd desp details color) = (T \<noteq> TAG_CHECKER)"
| "keepsLine T op = True"

text \<open>What an operation does to the list of annotations and the map of on-going ones.\<close>

inductive lineStep :: "string \<Rightarrow> int \<Rightarrow> annState \<Rightarrow> annState \<Rightarrow> bool" for T t where
  l_same: "lineStep T t an an"
| l_point: "tag \<noteq> T \<Longrightarrow> lineStep T t an (annotatePointColor t tag desp details color an)"
| l_interval: "tag \<noteq> T \<Longrightarrow> lineStep T t an (annotateIntervalColor t tag start desp details color an)"
| l_cont: "tag = T \<longrightarrow> color \<noteq> [] \<Longrightarrow> lineStep T t an (annotateContinuousColor t tag desp details color an)"
| l_end: "lineStep T t an (annotateContinuousEnd t tag an)"

lemma lineStep_shown:
  assumes "lineStep T u an an'" "past T u0 an" "u0 \<le> u"
  shows "past T u an'" and "t < u \<Longrightarrow> shown T t an' = shown T t an" and "u \<le> t \<Longrightarrow> shown T t an' = ongoing T an'"
proof -
  have later: "End a \<le> u" if "a \<in> set (annotations an)" "Tag a = T" for a
    using assms(2,3) that by (auto simp: past_def)
  have old: "filter (covers T t) (annotations an) = []" if "u \<le> t" for t
    using later that by (fastforce simp: filter_empty_conv covers_def)
  have c: "cstart c \<le> u" "cbgcolor c \<noteq> []" if "continuous an T = Some c" for c
    using assms(2,3) that by (auto simp: past_def)
  show "past T u an'"
    using assms(1)
    by cases (use later c in \<open>auto simp: past_def annotatePointColor_def annotateIntervalColor_def
      annotateContinuousColor_def annotateContinuousEnd_def concretize_def Let_def split: option.splits\<close>)
  show "shown T t an' = shown T t an" if "t < u"
    using assms(1)
    by cases (use c that in \<open>auto simp: shown_def covers_def annotatePointColor_def annotateIntervalColor_def
      annotateContinuousColor_def annotateContinuousEnd_def concretize_def zeroContinuous_def Let_def split: option.splits\<close>)
  show "shown T t an' = ongoing T an'" if "u \<le> t"
    using assms(1)
    by cases (use c that old [OF that] in \<open>auto simp: shown_def ongoing_def covers_def annotatePointColor_def annotateIntervalColor_def
      annotateContinuousColor_def annotateContinuousEnd_def concretize_def Let_def split: option.splits\<close>)
qed

lemma annotateFault_lineStep: "annotateFault t fi an = Some an' \<Longrightarrow> lineStep T t an an'"
  by (auto simp: annotateFault_def Let_def COLOR_FAULT_def intro!: l_end l_cont split: bind_splits if_splits)

lemma markServers_lineStep: "markServers v t servers w = Some w' \<Longrightarrow> lineStep T t (ann w) (ann w')"
  by (auto simp: markServers_def Let_def split: bind_splits if_splits) (auto intro: l_same annotateFault_lineStep)

lemma exec_lineStep:
  assumes "exec t op w = Some w'" "keepsLine T op"
  shows "lineStep T t (ann w) (ann w')"
  using assms
  by (cases op) (auto simp: AnnotatePointColor_def AnnotateIntervalColor_def AnnotateContinuousColor_def AnnotateContinuousEnd_def
      AnnotateCheckerBegin_def AnnotateCheckerEnd_def AnnotateConnection_def AnnotateTwoPartitions_def AnnotateClearFailure_def
      AnnotateShutdown_def AnnotateRestart_def AnnotateShutdownAll_def AnnotateRestartAll_def Let_def COLOR_FAULT_def
      intro: lineStep.intros annotateFault_lineStep markServers_lineStep split: bind_splits if_splits)

lemma execAll_Nil [simp]: "execAll [] w = Some w"
  by (simp add: execAll_def)

lemma execAll_Cons [simp]: "execAll ((t, op) # ops) w = Option.bind (exec t op w) (execAll ops)"
  by (cases "exec t op w") (simp_all add: execAll_def)

lemma execAll_past:
  assumes "execAll ops w = Some w'" "\<forall>(u, op) \<in> set ops. keepsLine T op" "sorted (u0 # map fst ops)" "past T u0 (ann w)"
  shows "past T (last (u0 # map fst ops)) (ann w')"
    and "\<forall>u \<in> fst ` set ops. t < u \<Longrightarrow> shown T t (ann w') = shown T t (ann w)"
proof -
  have "past T (last (u0 # map fst ops)) (ann w') \<and> ((\<forall>u \<in> fst ` set ops. t < u) \<longrightarrow> shown T t (ann w') = shown T t (ann w))"
    using assms
  proof (induction ops arbitrary: w u0)
    case (Cons x ops)
    obtain u op where x: "x = (u, op)" by (cases x)
    obtain w1 where w1: "exec u op w = Some w1" "execAll ops w1 = Some w'" using Cons.prems(1) x by (auto split: bind_splits)
    have k: "keepsLine T op" and le: "u0 \<le> u" using Cons.prems(2,3) x by auto
    note L = lineStep_shown [OF exec_lineStep [OF w1(1) k] Cons.prems(4) le]
    show ?case using Cons.IH [OF w1(2) _ _ L(1)] L(2) [of t] Cons.prems(2,3) x by auto
  qed simp
  then show "past T (last (u0 # map fst ops)) (ann w')"
    and "\<forall>u \<in> fst ` set ops. t < u \<Longrightarrow> shown T t (ann w') = shown T t (ann w)" by blast+
qed

lemma shown_now: "past T u an \<Longrightarrow> u \<le> t \<Longrightarrow> shown T t an = ongoing T an"
  by (force simp: shown_def ongoing_def past_def covers_def filter_empty_conv split: option.splits)

text \<open>At every time the annotations show what was on-going then.\<close>

lemma timeline:
  assumes "execAll ops w = Some w'" "\<forall>(u, op) \<in> set ops. keepsLine T op" "sorted (u0 # map fst ops)" "past T u0 (ann w)" "u0 \<le> t"
  shows "\<exists>w2. execAll (takeWhile (\<lambda>(u, op). u \<le> t) ops) w = Some w2 \<and> shown T t (ann w') = ongoing T (ann w2)"
  using assms
proof (induction ops arbitrary: w u0)
  case Nil
  then show ?case by (simp add: shown_now)
next
  case (Cons x ops)
  obtain u op where x: "x = (u, op)" by (cases x)
  obtain w1 where w1: "exec u op w = Some w1" "execAll ops w1 = Some w'" using Cons.prems(1) x by (auto split: bind_splits)
  have k: "keepsLine T op" and le: "u0 \<le> u" using Cons.prems(2,3) x by auto
  note L = lineStep_shown [OF exec_lineStep [OF w1(1) k] Cons.prems(4) le]
  show ?case
  proof (cases "u \<le> t")
    case True
    then show ?thesis using Cons.IH [OF w1(2) _ _ L(1)] Cons.prems(2,3) x w1(1) by auto
  next
    case False
    then have "\<forall>v \<in> fst ` set (x # ops). t < v" using Cons.prems(3) x by fastforce
    from execAll_past(2) [OF Cons.prems(1-4) this] show ?thesis
      using False x shown_now [OF Cons.prems(4,5)] by simp
  qed
qed

text \<open>The finished annotations show the same, and never two of them at once.\<close>

lemma finalize_shown:
  assumes "distinct tags" "set tags = dom (continuous an)" "past T u an" "t < tf"
  shows "map Description (filter (covers T t) (fst (finalize tf tags an))) = shown T t an"
proof -
  have one: "filter (\<lambda>tag. tag = T) tags = (if T \<in> set tags then [T] else [])"
    using assms(1) by (induction tags) auto
  have "filter (covers T t) (map (\<lambda>tag. concretize tf tag (the (continuous an tag))) tags) =
      map (\<lambda>tag. concretize tf tag (the (continuous an tag)))
        (filter (\<lambda>tag. tag = T \<and> covers T t (concretize tf T (the (continuous an T)))) tags)"
    by (auto simp: filter_map comp_def covers_def concretize_def intro!: arg_cong [where f = "map _"] filter_cong)
  also have "filter (\<lambda>tag. tag = T \<and> covers T t (concretize tf T (the (continuous an T)))) tags =
      (if T \<in> set tags \<and> covers T t (concretize tf T (the (continuous an T))) then [T] else [])"
    using one by (cases "covers T t (concretize tf T (the (continuous an T)))") auto
  finally have eq: "filter (covers T t) (map (\<lambda>tag. concretize tf tag (the (continuous an tag))) tags) =
      map (\<lambda>tag. concretize tf tag (the (continuous an tag)))
        (if T \<in> set tags \<and> covers T t (concretize tf T (the (continuous an T))) then [T] else [])" .
  have "T \<in> set tags \<longleftrightarrow> (\<exists>c. continuous an T = Some c)" using assms(2) by auto
  moreover have "covers T t (concretize tf T c) \<longleftrightarrow> cstart c \<le> t" if "continuous an T = Some c" for c
    using assms(3,4) that by (auto simp: covers_def concretize_def past_def)
  ultimately show ?thesis
    unfolding finalize_def fst_conv filter_append eq shown_def
    by (cases "continuous an T") (simp_all add: concretize_def)
qed

subsection \<open>Which faults there are\<close>

text \<open>The servers that are cut off and those that have crashed.\<close>

record faults =
  cut :: "nat set"
  down :: "nat set"

fun applyFault :: "nat \<Rightarrow> annOp \<Rightarrow> faults \<Rightarrow> faults" where
  "applyFault n (OpConnection connection) f = f\<lparr>cut := {i. i < n \<and> \<not> connection ! i}\<rparr>"
| "applyFault n (OpShutdown servers) f = f\<lparr>down := down f \<union> nat ` set servers\<rparr>"
| "applyFault n OpShutdownAll f = f\<lparr>down := {..<n}\<rparr>"
| "applyFault n (OpRestart servers) f = f\<lparr>down := down f - nat ` set servers\<rparr>"
| "applyFault n OpRestartAll f = f\<lparr>down := {}\<rparr>"
| "applyFault n OpClearFailure f = \<lparr>cut = {}, down = {}\<rparr>"
| "applyFault n op f = f"

definition noFaults :: faults where "noFaults = \<lparr>cut = {}, down = {}\<rparr>"

definition faultsAfter :: "nat \<Rightarrow> annOp list \<Rightarrow> faults" where
  "faultsAfter n ops = foldl (\<lambda>f op. applyFault n op f) noFaults ops"

text \<open>How the tester writes them down.\<close>

definition faultsText :: "nat \<Rightarrow> faults \<Rightarrow> string" where
  "faultsText n f =
     (let up = filter (\<lambda>i. i \<notin> down f) [0..<n]; cn = filter (\<lambda>i. i \<notin> cut f) up; crashes = filter (\<lambda>i. i \<in> down f) [0..<n]
      in ''partition = '' @ concat (map (\<lambda>i. ''['' @ Itoa (int i) @ ''] '') (filter (\<lambda>i. i \<in> cut f) up)) @
         (if cn \<noteq> [] then showInts (map int cn) else []) @
         (if crashes \<noteq> [] then '' / crash = '' @ showInts (map int crashes) else []))"

definition fiOf :: "nat \<Rightarrow> FrameworkInfo \<Rightarrow> faults \<Rightarrow> bool" where
  "fiOf n fi f \<longleftrightarrow> nservers fi = n \<and> length (fconnected fi) = n \<and> length (crashed fi) = n \<and>
     cut f = {i. i < n \<and> \<not> fconnected fi ! i} \<and> down f = {i. i < n \<and> crashed fi ! i}"

lemma faultLoop_eq:
  assumes "i + length cs \<le> length cr"
  shows "faultLoop cr i cs (cn, crashes, b) = Some
    (cn @ map int (filter (\<lambda>k. \<not> cr ! k \<and> cs ! (k - i)) [i..<i + length cs]),
     crashes @ map int (filter (\<lambda>k. cr ! k) [i..<i + length cs]),
     b @ concat (map (\<lambda>k. ''['' @ Itoa (int k) @ ''] '') (filter (\<lambda>k. \<not> cr ! k \<and> \<not> cs ! (k - i)) [i..<i + length cs])))"
  using assms
proof (induction cs arbitrary: i cn crashes b)
  case (Cons c cs)
  have r: "[i..<i + length (c # cs)] = i # [Suc i..<Suc i + length cs]" by (simp add: upt_conv_Cons del: upt_Suc)
  have f: "filter (\<lambda>k. P k \<and> Q ((c # cs) ! (k - i))) [Suc i..<Suc i + length cs] =
      filter (\<lambda>k. P k \<and> Q (cs ! (k - Suc i))) [Suc i..<Suc i + length cs]" for P :: "nat \<Rightarrow> bool" and Q
    by (rule filter_cong) (auto simp: nth_Cons' )
  show ?case
    unfolding r using Cons.prems Cons.IH [of "Suc i"] f [of "\<lambda>k. \<not> cr ! k" "\<lambda>b. b"] f [of "\<lambda>k. \<not> cr ! k" "\<lambda>b. \<not> b"]
    by (cases c; simp del: upt_Suc)
qed simp

lemma annotateFault_text:
  assumes "fiOf n fi f"
  shows "annotateFault t fi an = Some (if f = noFaults then annotateContinuousEnd t TAG_PARTITION an
    else annotateContinuousColor t TAG_PARTITION (faultsText n f) (faultsText n f) COLOR_FAULT an)"
proof -
  have "replicate n True = fconnected fi \<longleftrightarrow> cut f = {}" "replicate n False = crashed fi \<longleftrightarrow> down f = {}"
    using assms by (auto simp: fiOf_def list_eq_iff_nth_eq)
  then have nf: "(replicate (nservers fi) True = fconnected fi \<and> replicate (nservers fi) False = crashed fi) \<longleftrightarrow> f = noFaults"
    using assms by (cases f) (simp add: fiOf_def noFaults_def)
  have lens: "length (fconnected fi) = n" "length (crashed fi) = n" using assms by (simp_all add: fiOf_def)
  have io: "i \<in> down f \<longleftrightarrow> crashed fi ! i" "i \<in> cut f \<longleftrightarrow> \<not> fconnected fi ! i" if "i < n" for i
    using assms that by (simp_all add: fiOf_def)
  have *: "filter (\<lambda>k. crashed fi ! k) [0..<n] = filter (\<lambda>i. i \<in> down f) [0..<n]"
    "filter (\<lambda>k. \<not> crashed fi ! k \<and> fconnected fi ! k) [0..<n] = filter (\<lambda>i. i \<notin> cut f) (filter (\<lambda>i. i \<notin> down f) [0..<n])"
    "filter (\<lambda>k. \<not> crashed fi ! k \<and> \<not> fconnected fi ! k) [0..<n] = filter (\<lambda>i. i \<in> cut f) (filter (\<lambda>i. i \<notin> down f) [0..<n])"
    unfolding filter_filter by (rule filter_cong, simp, simp add: io)+
  have "faultLoop (crashed fi) 0 (fconnected fi) ([], [], ''partition = '') = Some
      (map int (filter (\<lambda>i. i \<notin> cut f) (filter (\<lambda>i. i \<notin> down f) [0..<n])), map int (filter (\<lambda>i. i \<in> down f) [0..<n]),
       ''partition = '' @ concat (map (\<lambda>i. ''['' @ Itoa (int i) @ ''] '') (filter (\<lambda>i. i \<in> cut f) (filter (\<lambda>i. i \<notin> down f) [0..<n]))))"
    using lens faultLoop_eq [of 0 "fconnected fi" "crashed fi"] by (simp add: * del: filter_filter)
  then show ?thesis by (simp add: annotateFault_def nf faultsText_def Let_def)
qed

lemma markLoop_eq:
  assumes "\<forall>i \<in> set servers. 0 \<le> i \<and> i < int (length cr)"
  shows "\<exists>cr'. markLoop v servers cr = Some (cr' \<noteq> cr, cr') \<and> length cr' = length cr \<and>
    (\<forall>k < length cr. cr' ! k = (if k \<in> nat ` set servers then v else cr ! k))"
proof -
  have "\<exists>cr'. for_each servers (\<lambda>i (changed, cr). do { x \<leftarrow> goindex cr i; cr' \<leftarrow> gostore cr i v; Some (changed \<or> x \<noteq> v, cr') }) (ch, cr)
      = Some (ch \<or> cr' \<noteq> cr, cr') \<and> length cr' = length cr \<and> (\<forall>k < length cr. cr' ! k = (if k \<in> nat ` set servers then v else cr ! k))" for ch
    using assms
  proof (induction servers arbitrary: ch cr)
    case (Cons i servers)
    from Cons.prems have i: "0 \<le> i" "i < int (length cr)" by simp_all
    let ?c = "cr[nat i := v]"
    obtain cr' where c: "for_each servers (\<lambda>i (changed, cr). do { x \<leftarrow> goindex cr i; cr' \<leftarrow> gostore cr i v; Some (changed \<or> x \<noteq> v, cr') })
        (ch \<or> cr ! nat i \<noteq> v, ?c) = Some ((ch \<or> cr ! nat i \<noteq> v) \<or> cr' \<noteq> ?c, cr')" "length cr' = length cr"
      "\<forall>k < length cr. cr' ! k = (if k \<in> nat ` set servers then v else ?c ! k)"
      using Cons.IH [of ?c "ch \<or> cr ! nat i \<noteq> v"] Cons.prems by auto
    have n: "cr' ! nat i = v" using c(3) i by auto
    have "cr ! nat i \<noteq> v \<or> cr' \<noteq> ?c \<longleftrightarrow> cr' \<noteq> cr"
    proof (cases "cr ! nat i = v")
      case True
      then have "?c = cr" using list_update_id [of cr "nat i"] by simp
      then show ?thesis using True by simp
    next
      case False
      then show ?thesis using n by auto
    qed
    then have "((ch \<or> cr ! nat i \<noteq> v) \<or> cr' \<noteq> ?c) = (ch \<or> cr' \<noteq> cr)" by blast
    moreover have "\<forall>k < length cr. cr' ! k = (if k \<in> nat ` set (i # servers) then v else cr ! k)"
      using c(3) i by (auto simp: nth_list_update)
    ultimately show ?case using c(1,2) i by (intro exI [of _ cr']) simp
  qed simp
  from this [of False] show ?thesis by (simp add: markLoop_def)
qed

fun faultOp :: "nat \<Rightarrow> annOp \<Rightarrow> bool" where
  "faultOp n (OpPoint tag desp details color) = (tag \<noteq> TAG_PARTITION)"
| "faultOp n (OpInterval tag start desp details color) = (tag \<noteq> TAG_PARTITION)"
| "faultOp n (OpContinuous tag desp details color) = (tag \<noteq> TAG_PARTITION)"
| "faultOp n (OpContinuousEnd tag) = (tag \<noteq> TAG_PARTITION)"
| "faultOp n (OpConnection connection) = (length connection = n)"
| "faultOp n (OpTwoPartitions p1 p2) = False"
| "faultOp n (OpShutdown servers) = (\<forall>i \<in> set servers. 0 \<le> i \<and> i < int n)"
| "faultOp n (OpRestart servers) = (\<forall>i \<in> set servers. 0 \<le> i \<and> i < int n)"
| "faultOp n op = True"

lemma faultOp_keepsLine: "faultOp n op \<Longrightarrow> keepsLine TAG_PARTITION op"
  by (cases op) (simp_all add: TAG_PARTITION_def TAG_CHECKER_def)

definition faultLine :: "nat \<Rightarrow> annWorld \<Rightarrow> faults \<Rightarrow> bool" where
  "faultLine n w f \<longleftrightarrow> (\<exists>fi. finfo w = Some fi \<and> fiOf n fi f) \<and>
     ongoing TAG_PARTITION (ann w) = (if f = noFaults then [] else [faultsText n f])"

lemma fiOf_unique: "fiOf n fi f \<Longrightarrow> fiOf n fi g \<Longrightarrow> f = g"
  by (cases f; cases g) (simp add: fiOf_def)

lemma ongoing_end [simp]: "ongoing T (annotateContinuousEnd t T an) = []"
  by (simp add: ongoing_def annotateContinuousEnd_def Let_def)

lemma ongoing_cont [simp]: "ongoing T (annotateContinuousColor t T desp details color an) = [desp]"
  by (simp add: ongoing_def annotateContinuousColor_def Let_def split: option.splits)

lemma ongoing_other [simp]:
  "ongoing T (annotatePointColor t tag desp details color an) = ongoing T an"
  "ongoing T (annotateIntervalColor t tag start desp details color an) = ongoing T an"
  "tag \<noteq> T \<Longrightarrow> ongoing T (annotateContinuousColor t tag desp details color an) = ongoing T an"
  "tag \<noteq> T \<Longrightarrow> ongoing T (annotateContinuousEnd t tag an) = ongoing T an"
  by (auto simp: ongoing_def annotatePointColor_def annotateIntervalColor_def annotateContinuousColor_def
      annotateContinuousEnd_def Let_def split: option.splits)

lemma ongoing_fault:
  "fiOf n fi f \<Longrightarrow> annotateFault t fi an = Some an' \<Longrightarrow> ongoing TAG_PARTITION an' = (if f = noFaults then [] else [faultsText n f])"
  by (auto simp: annotateFault_text)

lemma markServers_faults:
  assumes "faultLine n w f" "\<forall>i \<in> set servers. 0 \<le> i \<and> i < int n"
  shows "\<exists>w'. markServers v t servers w = Some w' \<and>
    faultLine n w' (f\<lparr>down := (if v then down f \<union> nat ` set servers else down f - nat ` set servers)\<rparr>)"
proof -
  let ?f = "f\<lparr>down := (if v then down f \<union> nat ` set servers else down f - nat ` set servers)\<rparr>"
  obtain fi where fi: "finfo w = Some fi" "fiOf n fi f" using assms(1) by (auto simp: faultLine_def)
  have l: "length (crashed fi) = n" using fi(2) by (simp add: fiOf_def)
  obtain cr where cr: "markLoop v servers (crashed fi) = Some (cr \<noteq> crashed fi, cr)" "length cr = n"
    "\<forall>k < n. cr ! k = (if k \<in> nat ` set servers then v else crashed fi ! k)"
    using markLoop_eq [of servers "crashed fi" v] assms(2) unfolding l by blast
  have r: "nat ` set servers \<subseteq> {..<n}" using assms(2) by auto
  have f': "fiOf n (fi\<lparr>crashed := cr\<rparr>) ?f" using fi(2) cr(2,3) r by (auto simp: fiOf_def split: if_splits)
  show ?thesis
  proof (cases "cr = crashed fi")
    case True
    then have "?f = f" using fiOf_unique [of n fi ?f f] f' fi(2) by simp
    then show ?thesis using True fi cr(1) assms(1) by (simp add: markServers_def faultLine_def)
  next
    case False
    then show ?thesis using fi cr(1) f' ongoing_fault [OF f', of t "ann w"] annotateFault_text [OF f', of t "ann w"]
      by (simp add: markServers_def faultLine_def)
  qed
qed

lemma exec_faults:
  assumes "faultLine n w f" "faultOp n op"
  shows "\<exists>w'. exec t op w = Some w' \<and> faultLine n w' (applyFault n op f)"
proof -
  obtain fi where fi: "finfo w = Some fi" "fiOf n fi f" using assms(1) by (auto simp: faultLine_def)
  have all: "\<forall>i \<in> set (map int [0..<n]). 0 \<le> i \<and> i < int n" "nat ` set (map int [0..<n]) = {..<n}" by (auto simp: image_image)
  have sub: "down f \<union> {..<n} = {..<n}" "down f - {..<n} = {}" using fi(2) by (auto simp: fiOf_def)
  show ?thesis
  proof (cases op)
    case (OpConnection connection)
    let ?fi = "fi\<lparr>fconnected := gocopy (fconnected fi) connection\<rparr>" and ?f = "applyFault n op f"
    have "fiOf n ?fi ?f" if "connection \<noteq> fconnected fi"
      using fi(2) assms(2) OpConnection by (auto simp: fiOf_def gocopy_def)
    moreover have "?f = f" if "connection = fconnected fi"
      using fi(2) that OpConnection by (cases f) (simp add: fiOf_def)
    ultimately show ?thesis
      using fi assms(1) OpConnection annotateFault_text [of n ?fi ?f t "ann w"] ongoing_fault [of n ?fi ?f t "ann w"]
      by (auto simp: AnnotateConnection_def faultLine_def)
  next
    case OpClearFailure
    then show ?thesis using fi by (auto simp: AnnotateClearFailure_def faultLine_def fiOf_def noFaults_def)
  next
    case (OpShutdown servers)
    then show ?thesis using markServers_faults [OF assms(1), of servers True t] assms(2) by (simp add: AnnotateShutdown_def)
  next
    case (OpRestart servers)
    then show ?thesis using markServers_faults [OF assms(1), of servers False t] assms(2) by (simp add: AnnotateRestart_def)
  next
    case OpShutdownAll
    then show ?thesis using markServers_faults [OF assms(1) all(1), of True t] fi
      unfolding all(2) by (simp add: AnnotateShutdownAll_def AnnotateShutdown_def fiOf_def sub)
  next
    case OpRestartAll
    then show ?thesis using markServers_faults [OF assms(1) all(1), of False t] fi
      unfolding all(2) by (simp add: AnnotateRestartAll_def AnnotateRestart_def fiOf_def sub)
  qed (use fi assms in \<open>auto simp: AnnotatePointColor_def AnnotateIntervalColor_def AnnotateContinuousColor_def AnnotateContinuousEnd_def
      AnnotateCheckerBegin_def AnnotateCheckerEnd_def Let_def faultLine_def fiOf_def\<close>)
qed

lemma execAll_faults:
  "faultLine n w f \<Longrightarrow> \<forall>(u, op) \<in> set ops. faultOp n op \<Longrightarrow>
    \<exists>w'. execAll ops w = Some w' \<and> faultLine n w' (foldl (\<lambda>f op. applyFault n op f) f (map snd ops))"
proof (induction ops arbitrary: w f)
  case (Cons x ops)
  obtain u op where x: "x = (u, op)" by (cases x)
  obtain w1 where "exec u op w = Some w1" "faultLine n w1 (applyFault n op f)"
    using exec_faults [OF Cons.prems(1), of op u] Cons.prems(2) x by auto
  then show ?case using Cons.IH [of w1] Cons.prems(2) x by simp
qed simp

lemma AnnotateTest_start:
  assumes "0 \<le> t0"
  shows "faultLine n (AnnotateTest t0 desp n w) noFaults" "past TAG_PARTITION t0 (ann (AnnotateTest t0 desp n w))"
  using assms by (auto simp: faultLine_def AnnotateTest_def AnnotateInfo_def AnnotatePointColor_def Let_def mkFrameworkInfo_def fiOf_def
      noFaults_def ongoing_def clear_def annotatePointColor_def past_def TAG_INFO_def TAG_PARTITION_def)



definition draws :: "string \<Rightarrow> bool \<Rightarrow> annState \<Rightarrow> bool" where
  "draws enabled failed an \<longleftrightarrow> enabled \<noteq> ''never'' \<and> (failed \<or> enabled = ''always'') \<and> \<not> isFinalized an"

lemma cleanup_eq:
  "cleanup enabled t t' tags failed e an =
     (if \<not> draws enabled failed an then (clear an, None)
      else case finalize t tags an of (as, an') \<Rightarrow> if as = [] then (an', None) else (an', Some (as @ [endAnnotation t' e])))"
proof -
  have "\<not> (x \<noteq> n \<and> (p \<or> x = a) \<and> \<not> q) \<longleftrightarrow> x = n \<or> (\<not> p \<and> x \<noteq> a) \<or> q" for x n a :: string and p q by blast
  then show ?thesis by (simp only: cleanup_def draws_def)
qed

text \<open>
  A test is visualised at most once, and only when asked for: a clean-up draws the annotations exactly when \<open>VIS_ENABLE\<close>
  is not \<open>never\<close>, the test failed or \<open>VIS_ENABLE\<close> is \<open>always\<close>, nobody finalised them before, and there is
  something to draw; what it draws are all the annotations of the test and the final one. No later clean-up draws the same test again.
\<close>

lemma cleanup_once:
  assumes "cleanup enabled t t' tags failed e an = (an', vis)" "distinct tags" "set tags = dom (continuous an)"
  shows "(vis \<noteq> None \<longleftrightarrow> draws enabled failed an \<and> (annotations an \<noteq> [] \<or> continuous an \<noteq> Map.empty)) \<and>
    (\<forall>as. vis = Some as \<longrightarrow> set (annotations an) \<subseteq> set as \<and> last as = endAnnotation t' e \<and>
      length as = length (annotations an) + card (dom (continuous an)) + 1) \<and>
    (\<forall>enabled u u' us failed' e'. set us = dom (continuous an') \<longrightarrow> snd (cleanup enabled u u' us failed' e' an') = None)"
proof -
  have e: "tags = [] \<longleftrightarrow> continuous an = Map.empty" using assms(3) by (metis dom_eq_empty_conv set_empty)
  have l: "length tags = card (dom (continuous an))" using assms(2,3) distinct_card by metis
  have off: "an' = clear an" "vis = None" if "\<not> draws enabled failed an" using assms(1) that by (auto simp: cleanup_eq)
  have on: "an' = an\<lparr>finalized := True\<rparr>" "vis = (if annotations an = [] \<and> tags = [] then None
      else Some (annotations an @ map (\<lambda>tag. concretize t tag (the (continuous an tag))) tags @ [endAnnotation t' e]))"
    if "draws enabled failed an" using assms(1) that by (auto simp: cleanup_eq finalize_def split: if_splits)
  have again: "snd (cleanup enabled' u u' us failed' e' an') = None" if "set us = dom (continuous an')" for enabled' u u' us failed' e'
  proof (cases "draws enabled failed an")
    case True
    then show ?thesis using on(1) by (simp add: cleanup_eq draws_def isFinalized_def)
  next
    case False
    then show ?thesis using off(1) that by (simp add: cleanup_eq finalize_def clear_def)
  qed
  have A: "vis \<noteq> None \<longleftrightarrow> draws enabled failed an \<and> (annotations an \<noteq> [] \<or> continuous an \<noteq> Map.empty)"
    using on(2) off(2) e by (cases "draws enabled failed an") auto
  have B: "set (annotations an) \<subseteq> set as \<and> last as = endAnnotation t' e \<and> length as = length (annotations an) + card (dom (continuous an)) + 1"
    if "vis = Some as" for as
    using on(2) off(2) l that by (cases "draws enabled failed an") (auto split: if_splits)
  show ?thesis by (intro conjI allI impI) (rule A, simp_all add: B again)
qed

theorem cleanup_once_witness:
  "snd (cleanup ''always'' 7 8 [] False ''passed'' (fst (cleanup ''always'' 5 6 [] False ''passed''
     (annotatePointColor 1 TAG_INFO ''a'' ''a'' COLOR_INFO mkAnnotation)))) = None"
proof -
  let ?an = "annotatePointColor 1 TAG_INFO ''a'' ''a'' COLOR_INFO mkAnnotation"
  obtain an' vis where c: "cleanup ''always'' 5 6 [] False ''passed'' ?an = (an', vis)" by fastforce
  then have "set [] = dom (continuous an')"
    by (auto simp: cleanup_def finalize_def annotatePointColor_def mkAnnotation_def isFinalized_def)
  with cleanup_once [OF c] c show ?thesis by (simp add: annotatePointColor_def mkAnnotation_def)
qed

text \<open>Ending a line that never began adds an annotation of no description from time 0 on.\<close>

lemma end_without_begin:
  "continuous an tag = None \<Longrightarrow> annotations (annotateContinuousEnd t tag an) =
     annotations an @ [\<lparr>Tag = tag, Start = 0, End = t, Description = [], Details = [], BackgroundColor = []\<rparr>]"
  by (simp add: annotateContinuousEnd_def concretize_def zeroContinuous_def Let_def)

text \<open>The end of a check leaves its beginning in place: the next end is annotated from the same beginning.\<close>

lemma checker_begin_sticks:
  assumes "AnnotateCheckerBegin t details w = Some w1" "t \<noteq> 0"
    and "AnnotateCheckerEnd u desp d color w1 = Some w2" "AnnotateCheckerEnd v desp' d' color' w2 = Some w3"
  shows "map Start (annotations (ann w3)) = map Start (annotations (ann w)) @ [t, t]"
  using assms by (auto simp: AnnotateCheckerBegin_def AnnotateCheckerEnd_def AnnotateIntervalColor_def annotateIntervalColor_def
      split: bind_splits)

end
