(* ===== verification/RaftSetup.thy ===== *)
theory RaftSetup
  imports RaftHarness TesterGroup Annotation
begin

text \<open>
  What lies between the tester and the Raft servers: the proxies of \<open>raft1/proxy.go\<close>, the calls that \<open>raft1/server.go\<close> answers, and
  how \<open>raft1/test.go\<close> makes, kills and restarts servers. The outcome of a call over the socket is an argument, \<open>None\<close> a call
  that failed.
\<close>

subsection \<open>Proxies\<close>

definition ProxyGetState :: "(int \<times> bool) option \<Rightarrow> int \<times> bool" where
  "ProxyGetState call = (case call of None \<Rightarrow> (0, False) | Some (term, leader) \<Rightarrow> (term, leader))"

definition ProxyStart :: "(int \<times> int \<times> bool) option \<Rightarrow> int \<times> int \<times> bool" where
  "ProxyStart call = (case call of None \<Rightarrow> (0, 0, False) | Some (index, term, leader) \<Rightarrow> (index, term, leader))"

datatype checkError = ErrRPC | FromTester applyError

definition ProxyCheckLogs :: "(applyError option \<times> bool) option \<Rightarrow> checkError option \<times> bool" where
  "ProxyCheckLogs call = (case call of None \<Rightarrow> (Some ErrRPC, False) | Some (err, prevok) \<Rightarrow> (map_option FromTester err, prevok))"

text \<open>\<open>IngestLog\<close> and \<open>ApplyErr\<close>: the tester is as before if the call fails.\<close>

definition ProxyIngestLog :: "bool \<Rightarrow> int \<Rightarrow> (int \<rightharpoonup> 'c option) \<Rightarrow> 'c tester \<Rightarrow> 'c tester option" where
  "ProxyIngestLog sent index m ts = (if sent then IngestLog index m ts else Some ts)"

definition ProxyApplyErr :: "bool \<Rightarrow> int \<Rightarrow> applyError \<Rightarrow> 'c tester \<Rightarrow> 'c tester option" where
  "ProxyApplyErr sent index err ts = (if sent then ApplyErr index err ts else Some ts)"

text \<open>The body of the loop of \<open>applier\<close> when its calls may fail: \<open>sent\<close> for \<open>CheckLogs\<close>, \<open>sent'\<close> for \<open>ApplyErr\<close>. What is sent for
  \<open>ErrRPC\<close> is the error \<open>rpc\<close>.\<close>

definition applierCall :: "applyError \<Rightarrow> bool \<Rightarrow> bool \<Rightarrow> 'c ApplyMsg \<Rightarrow> 'c rfsrv \<times> 'c tester \<Rightarrow> ('c rfsrv \<times> 'c tester) option" where
  "applierCall rpc sent sent' m = (\<lambda>(rs, ts).
     if \<not> CommandValid m then Some (rs, ts)
     else do {
       (ts1, call) \<leftarrow> (if sent then do { (ts1, err, prevok) \<leftarrow> CheckLogs (rme rs) m ts; Some (ts1, Some (err, prevok)) } else Some (ts, None));
       let (err_msg, prevok) = ProxyCheckLogs call;
       let err_msg = (if 1 < CommandIndex m \<and> \<not> prevok then Some (FromTester (OutOfOrder (rme rs) (CommandIndex m))) else err_msg);
       case err_msg of
         None \<Rightarrow> Some (rs, ts1)
       | Some e \<Rightarrow> do { ts2 \<leftarrow> ProxyApplyErr sent' (rme rs) (case e of ErrRPC \<Rightarrow> rpc | FromTester a \<Rightarrow> a) ts1; Some (rs, ts2) }
     })"

lemma applierCall_delivered: "applierCall rpc True True m = applierMsg m"
  by (auto simp: applierCall_def applierMsg_def ProxyCheckLogs_def ProxyApplyErr_def fun_eq_iff Let_def bind_eq_None_conv
      split: prod.splits option.splits Option.bind_splits if_splits)

text \<open>
  A call of \<open>CheckLogs\<close> that fails is reported as a command that was applied out of order, from the second index on; the
  loop with snapshots, which tests for \<open>ErrRPC\<close>, does not do this.
\<close>

lemma failed_check_out_of_order:
  assumes "CommandValid m" "1 < CommandIndex m"
  shows "applierCall rpc False True m (rs, ts) =
    do { ts' \<leftarrow> ApplyErr (rme rs) (OutOfOrder (rme rs) (CommandIndex m)) ts; Some (rs, ts') }"
  using assms by (simp add: applierCall_def ProxyCheckLogs_def ProxyApplyErr_def Let_def)

subsection \<open>Calls that a server answers\<close>

text \<open>\<open>getraft\<close> may be nil, before a server with a replicated state machine has one.\<close>

definition srvStart :: "'c option \<Rightarrow> 'c raft option \<Rightarrow> 'c raft option \<times> int \<times> int \<times> bool" where
  "srvStart command rf = (case rf of None \<Rightarrow> (None, 0, 0, False) | Some r \<Rightarrow> (case RaftNode.Start command r of (r', rest) \<Rightarrow> (Some r', rest)))"

definition srvGetState :: "'c raft option \<Rightarrow> (int \<times> bool) option" where
  "srvGetState rf = map_option GetState rf"

definition GetStateRPC :: "'c raft option \<Rightarrow> (int \<times> bool) option" where
  "GetStateRPC rf = srvGetState rf"

definition StartRPC :: "'c option \<Rightarrow> 'c raft option \<Rightarrow> 'c raft option \<times> int \<times> int \<times> bool" where
  "StartRPC command rf = srvStart command rf"

text \<open>A call of \<open>Start\<close> from the tester: the request arrives or not, the reply comes back or not.\<close>

definition remoteStart :: "bool \<Rightarrow> bool \<Rightarrow> 'c option \<Rightarrow> 'c raft option \<Rightarrow> 'c raft option \<times> int \<times> int \<times> bool" where
  "remoteStart arrives replied command rf =
     (if arrives then (case StartRPC command rf of (rf', rep) \<Rightarrow> (rf', ProxyStart (if replied then Some rep else None)))
      else (rf, ProxyStart None))"

text \<open>
  The tester takes a server for the leader only if the server, leader at that moment, has appended the command at the index and in the term
  it is told.
\<close>

lemma remoteStart_leader:
  assumes "remoteStart arrives replied command rf = (rf', index, t, True)"
  shows "\<exists>r r'. rf = Some r \<and> rf' = Some r' \<and> state r = Leader \<and> t = currentTerm r \<and> index = snapshotIndex r + lenlog r \<and>
    log r' = log r @ [\<lparr>eTerm = currentTerm r, Command = command\<rparr>]"
  using assms
  by (auto simp: remoteStart_def ProxyStart_def StartRPC_def srvStart_def RaftNode.Start_def persist_def Let_def split: option.splits if_splits prod.splits)

subsection \<open>Making, killing and restarting servers\<close>

text \<open>The tester's \<open>srvs\<close>: nil, or a copy of the server's log with its proxy, of which only matters whether it is nil.\<close>

record ('c, 'b, 'st) raftTest =
  rtGroup :: "'b ServerGrp \<times> 'st Network"
  rtAnn :: annWorld
  rtSrvs :: "('c raftServer \<times> bool) option list"

definition mksrv :: "nat \<Rightarrow> ('c, 'b, 'st) raftTest \<Rightarrow> ('c, 'b, 'st) raftTest option" where
  "mksrv srv ts =
     do {
       x \<leftarrow> goindex (rtSrvs ts) (int srv);
       ss \<leftarrow> gostore (rtSrvs ts) (int srv) (case x of None \<Rightarrow> Some (newRaftServer, True) | Some (rs, _) \<Rightarrow> Some (rs, True));
       Some (ts\<lparr>rtSrvs := ss\<rparr>)
     }"

definition killSrvs :: "int \<Rightarrow> nat list \<Rightarrow> ('c, 'b, 'st) raftTest \<Rightarrow> ('c, 'b, 'st) raftTest option" where
  "killSrvs t is ts =
     do {
       g \<leftarrow> TesterGroup.Kill is (rtGroup ts);
       w \<leftarrow> AnnotateShutdown t (map int is) (rtAnn ts);
       for_each is (\<lambda>srv ts. do {
         x \<leftarrow> goindex (rtSrvs ts) (int srv);
         case x of
           None \<Rightarrow> None
         | Some (rs, _) \<Rightarrow> do { ss \<leftarrow> gostore (rtSrvs ts) (int srv) (Some (rs, False)); Some (ts\<lparr>rtSrvs := ss\<rparr>) }
       }) (ts\<lparr>rtGroup := g, rtAnn := w\<rparr>)
     }"

definition restartSrvs :: "int \<Rightarrow> (nat \<Rightarrow> 'st launch) \<Rightarrow> nat list \<Rightarrow> ('c, 'b, 'st) raftTest \<Rightarrow> ('c, 'b, 'st) raftTest option" where
  "restartSrvs t ls is ts =
     do {
       g \<leftarrow> StartSrvs ls is (rtGroup ts);
       w \<leftarrow> AnnotateRestart t (map int is) (rtAnn ts);
       for_each is (\<lambda>srv ts. do {
         ts1 \<leftarrow> mksrv srv ts;
         g1 \<leftarrow> ConnectOne srv (rtGroup ts1);
         Some (ts1\<lparr>rtGroup := g1\<rparr>)
       }) (ts\<lparr>rtGroup := g, rtAnn := w\<rparr>)
     }"

text \<open>The read of a server's state in \<open>checkOneLeader\<close>, \<open>checkTerms\<close> and \<open>checkNoLeader\<close>: a nil proxy panics.\<close>

definition readState :: "(nat \<Rightarrow> (int \<times> bool) option) \<Rightarrow> nat \<Rightarrow> ('c, 'b, 'st) raftTest \<Rightarrow> (int \<times> bool) option option" where
  "readState call i ts =
     do {
       c \<leftarrow> IsConnected i (fst (rtGroup ts));
       if c then do {
         x \<leftarrow> goindex (rtSrvs ts) (int i);
         case x of Some (rs, True) \<Rightarrow> Some (Some (ProxyGetState (call i))) | _ \<Rightarrow> None
       }
       else Some None
     }"

subsection \<open>A connected server has a proxy\<close>

definition proxied :: "('c, 'b, 'st) raftTest \<Rightarrow> bool" where
  "proxied ts \<longleftrightarrow>
     length (rtSrvs ts) = length (connected (fst (rtGroup ts))) \<and> None \<notin> set (rtSrvs ts) \<and>
     (\<forall>i < length (rtSrvs ts). connected (fst (rtGroup ts)) ! i \<longrightarrow> snd (the (rtSrvs ts ! i)))"

definition copies :: "('c, 'b, 'st) raftTest \<Rightarrow> 'c raftServer option list" where
  "copies ts = map (map_option fst) (rtSrvs ts)"

lemma ShutdownServer_connected:
  assumes "ShutdownServer i st = Some st'"
  shows "connected (fst st') = (connected (fst st))[i := False]"
  using assms by (cases st) (auto simp: ShutdownServer_def disconnect_def bind_eq_Some_conv gostore_def split: if_splits)

lemma ConnectOne_connected:
  assumes "ConnectOne i st = Some st'"
  shows "connected (fst st') = (connected (fst st))[i := True]"
  using assms by (cases st) (auto simp: ConnectOne_def connect_def bind_eq_Some_conv gostore_def Let_def split: if_splits)

lemma StartServer_connected:
  assumes "StartServer l i st = Some (st', sent)"
  shows "connected (fst st') = connected (fst st)"
  using assms by (cases st) (auto simp: StartServer_def bind_eq_Some_conv Let_def split: if_splits)

lemma Kill_connected:
  assumes "TesterGroup.Kill is st = Some st'"
  shows "length (connected (fst st')) = length (connected (fst st)) \<and>
    (\<forall>i < length (connected (fst st)). connected (fst st') ! i \<longleftrightarrow> connected (fst st) ! i \<and> i \<notin> set is)"
  using assms
proof (induction "is" arbitrary: st)
  case (Cons i "is")
  then obtain st1 where st1: "ShutdownServer i st = Some st1" "TesterGroup.Kill is st1 = Some st'"
    by (auto simp: TesterGroup.Kill_def bind_eq_Some_conv)
  show ?case using Cons.IH [OF st1(2)] ShutdownServer_connected [OF st1(1)] by (cases "i < length (connected (fst st))") (auto simp: nth_list_update split: if_splits)
qed (simp add: TesterGroup.Kill_def)

lemma StartSrvs_connected:
  assumes "StartSrvs ls is st = Some st'"
  shows "connected (fst st') = connected (fst st)"
  using assms
proof (induction "is" arbitrary: st)
  case (Cons i "is")
  then obtain st1 sent where st1: "StartServer (ls i) i st = Some (st1, sent)" "StartSrvs ls is st1 = Some st'"
    by (auto simp: StartSrvs_def bind_eq_Some_conv)
  show ?case using Cons.IH [OF st1(2)] StartServer_connected [OF st1(1)] by simp
qed (simp add: StartSrvs_def)

lemma keep_copy: "xs ! i = Some (a, b) \<Longrightarrow> map (map_option fst) (xs[i := Some (a, c)]) = map (map_option fst) xs"
proof (cases "i < length xs")
  case True
  then show "xs ! i = Some (a, b) \<Longrightarrow> ?thesis" by (intro nth_equalityI) (auto simp: nth_list_update)
qed (simp add: list_update_beyond)

lemma None_notin_update: "None \<notin> set xs \<Longrightarrow> None \<notin> set (xs[i := Some x])"
  using set_update_subset_insert [of xs i "Some x"] by auto

text \<open>
  Killing and restarting servers keeps that every connected server has a proxy, whatever was connected before, and the tester keeps its
  copies of the logs of all servers.
\<close>

lemma killSrvs_proxied:
  assumes "killSrvs t is ts = Some ts'" "proxied ts"
  shows "proxied ts' \<and> copies ts' = copies ts"
proof -
  obtain g w where g: "TesterGroup.Kill is (rtGroup ts) = Some g"
    and loop: "for_each is (\<lambda>srv ts. do {
         x \<leftarrow> goindex (rtSrvs ts) (int srv);
         case x of
           None \<Rightarrow> None
         | Some (rs, _) \<Rightarrow> do { ss \<leftarrow> gostore (rtSrvs ts) (int srv) (Some (rs, False)); Some (ts\<lparr>rtSrvs := ss\<rparr>) }
       }) (ts\<lparr>rtGroup := g, rtAnn := w\<rparr>) = Some ts'"
    using assms(1) unfolding killSrvs_def by (auto simp: bind_eq_Some_conv)
  define P where "P s \<longleftrightarrow> rtGroup s = g \<and> length (rtSrvs s) = length (rtSrvs ts) \<and> None \<notin> set (rtSrvs s) \<and> copies s = copies ts \<and>
    (\<forall>i < length (rtSrvs ts). i \<notin> set is \<longrightarrow> rtSrvs s ! i = rtSrvs ts ! i)" for s
  have "P ts'"
  proof (rule for_each_invariant [OF loop])
    show "P (ts\<lparr>rtGroup := g, rtAnn := w\<rparr>)" using assms(2) by (simp add: P_def proxied_def copies_def)
  qed (auto simp: P_def copies_def keep_copy None_notin_update bind_eq_Some_conv goindex_Some_iff gostore_def nth_list_update
      split: option.splits if_splits)
  then show ?thesis using Kill_connected [OF g] assms(2) by (auto simp: P_def proxied_def)
qed

lemma restartSrvs_proxied:
  assumes "restartSrvs t ls is ts = Some ts'" "proxied ts"
  shows "proxied ts' \<and> copies ts' = copies ts \<and> (\<forall>i \<in> set is. i < length (rtSrvs ts) \<and> connected (fst (rtGroup ts')) ! i)"
proof -
  obtain g w where g: "StartSrvs ls is (rtGroup ts) = Some g"
    and loop: "for_each is (\<lambda>srv ts. do {
         ts1 \<leftarrow> mksrv srv ts;
         g1 \<leftarrow> ConnectOne srv (rtGroup ts1);
         Some (ts1\<lparr>rtGroup := g1\<rparr>)
       }) (ts\<lparr>rtGroup := g, rtAnn := w\<rparr>) = Some ts'"
    using assms(1) unfolding restartSrvs_def by (auto simp: bind_eq_Some_conv)
  let ?body = "\<lambda>srv ts. do { ts1 \<leftarrow> mksrv srv ts; g1 \<leftarrow> ConnectOne srv (rtGroup ts1); Some (ts1\<lparr>rtGroup := g1\<rparr>) }"
  have step: "proxied s' \<and> copies s' = copies s \<and> connected (fst (rtGroup s')) = (connected (fst (rtGroup s)))[srv := True] \<and> srv < length (rtSrvs s)"
    if s: "proxied s" "?body srv s = Some s'" for srv and s s' :: "('a, 'b, 'c) raftTest"
  proof -
    obtain x s1 g1 where x: "srv < length (rtSrvs s)" "rtSrvs s ! srv = x"
      "s1 = s\<lparr>rtSrvs := (rtSrvs s)[srv := (case x of None \<Rightarrow> Some (newRaftServer, True) | Some (rs, _) \<Rightarrow> Some (rs, True))]\<rparr>"
      "ConnectOne srv (rtGroup s1) = Some g1" "s' = s1\<lparr>rtGroup := g1\<rparr>"
      using s(2) by (auto simp: mksrv_def bind_eq_Some_conv goindex_Some_iff gostore_def split: if_splits)
    have "x \<noteq> None" using s(1) x(1,2) by (metis nth_mem proxied_def)
    then obtain rs b where rs: "x = Some (rs, b)" by fastforce
    show ?thesis using s(1) x rs ConnectOne_connected [OF x(4)]
      by (auto simp: proxied_def copies_def keep_copy None_notin_update nth_list_update)
  qed
  have "proxied ts' \<and> copies ts' = copies s \<and> (\<forall>i \<in> set js. i < length (rtSrvs s) \<and> connected (fst (rtGroup ts')) ! i) \<and>
      (\<forall>i < length (rtSrvs s). connected (fst (rtGroup s)) ! i \<longrightarrow> connected (fst (rtGroup ts')) ! i)"
    if "proxied s" "for_each js ?body s = Some ts'" for js and s :: "('a, 'b, 'c) raftTest"
    using that
  proof (induction js arbitrary: s)
    case (Cons j js)
    obtain s1 where s1: "?body j s = Some s1" "for_each js ?body s1 = Some ts'"
      using Cons.prems(2) unfolding for_each.simps(2) bind_eq_Some_conv by blast
    note st = step [OF Cons.prems(1) s1(1)]
    have len: "length (rtSrvs s1) = length (rtSrvs s)" "length (connected (fst (rtGroup s))) = length (rtSrvs s)"
      using st Cons.prems(1) unfolding copies_def proxied_def by (metis length_map)+
    show ?case using Cons.IH [OF _ s1(2)] st len by (auto simp: nth_list_update)
  qed simp
  from this [OF _ loop] show ?thesis using assms(2) StartSrvs_connected [OF g] by (simp add: proxied_def copies_def)
qed

text \<open>Reading the state of the servers that are connected never meets a nil proxy.\<close>

lemma readState_total:
  assumes "proxied ts" "i < length (rtSrvs ts)"
  shows "readState call i ts = Some (if connected (fst (rtGroup ts)) ! i then Some (ProxyGetState (call i)) else None)"
proof -
  have "rtSrvs ts ! i \<noteq> None" using assms by (metis nth_mem proxied_def)
  then obtain rs b where "rtSrvs ts ! i = Some (rs, b)" by fastforce
  then show ?thesis using assms by (auto simp: readState_def proxied_def IsConnected_def goindex_def)
qed

end
