(* ===== verification/Coordinator.thy ===== *)
theory Coordinator
  imports Prelude
begin

text \<open>
  The MapReduce coordinator of \<open>mr/coordinator.go\<close> with the RPC types of \<open>mr/rpc.go\<close>. Every
  handler runs under \<open>c.mu\<close>, so it is one step; \<open>time.Now()\<close> is an argument, in nanoseconds. A
  report for a task number outside the slice panics: \<open>None\<close>.
\<close>

subsection \<open>State\<close>

datatype TaskStatus = TaskStatusIdle | TaskStatusInProgress | TaskStatusCompleted
datatype TaskType = TaskTypeMap | TaskTypeReduce | TaskTypeWait | TaskTypeDone

record TaskInfo =
  Status :: TaskStatus
  StartTime :: int

record Task =
  Type :: TaskType
  Id :: int
  InputFile :: string
  NReduce :: int
  NMap :: int

record Coordinator =
  files :: "string list"
  nReduce :: int
  nMap :: int
  mapTasks :: "TaskInfo list"
  reduceTasks :: "TaskInfo list"
  phase :: string
  done' :: bool

definition MakeCoordinator :: "string list \<Rightarrow> nat \<Rightarrow> Coordinator" where
  "MakeCoordinator fs nr =
     \<lparr>files = fs, nReduce = int nr, nMap = int (length fs),
      mapTasks = map (\<lambda>_. \<lparr>Status = TaskStatusIdle, StartTime = 0\<rparr>) fs,
      reduceTasks = replicate nr \<lparr>Status = TaskStatusIdle, StartTime = 0\<rparr>,
      phase = ''map'', done' = False\<rparr>"

definition Done :: "Coordinator \<Rightarrow> bool" where "Done c = done' c"

subsection \<open>Handlers\<close>

fun findIdleFrom :: "int \<Rightarrow> TaskInfo list \<Rightarrow> int" where
  "findIdleFrom i [] = -1"
| "findIdleFrom i (t # ts) = (if Status t = TaskStatusIdle then i else findIdleFrom (i + 1) ts)"

definition findIdleTask :: "TaskInfo list \<Rightarrow> int" where
  "findIdleTask = findIdleFrom 0"

fun someInProgress :: "TaskInfo list \<Rightarrow> bool" where
  "someInProgress [] = False"
| "someInProgress (t # ts) = (if Status t = TaskStatusInProgress then True else someInProgress ts)"

definition emptyTask :: "TaskType \<Rightarrow> Task" where
  "emptyTask ty = \<lparr>Type = ty, Id = 0, InputFile = [], NReduce = 0, NMap = 0\<rparr>"

text \<open>The part of \<open>GetTask\<close> after the map phase.\<close>

definition getReduceTask :: "int \<Rightarrow> Coordinator \<Rightarrow> (Coordinator \<times> Task) option" where
  "getReduceTask now c =
     (if phase c = ''reduce'' then
        (let taskId = findIdleTask (reduceTasks c) in
         if taskId \<noteq> -1 then do {
           ts \<leftarrow> gostore (reduceTasks c) taskId \<lparr>Status = TaskStatusInProgress, StartTime = now\<rparr>;
           Some (c\<lparr>reduceTasks := ts\<rparr>,
                 \<lparr>Type = TaskTypeReduce, Id = taskId, InputFile = [], NReduce = nReduce c, NMap = nMap c\<rparr>)
         }
         else if someInProgress (reduceTasks c) then Some (c, emptyTask TaskTypeWait)
         else Some (c\<lparr>done' := True\<rparr>, emptyTask TaskTypeDone))
      else Some (c, emptyTask TaskTypeWait))"

definition GetTask :: "int \<Rightarrow> Coordinator \<Rightarrow> (Coordinator \<times> Task) option" where
  "GetTask now c =
     (if phase c = ''map'' then
        (let taskId = findIdleTask (mapTasks c) in
         if taskId \<noteq> -1 then do {
           ts \<leftarrow> gostore (mapTasks c) taskId \<lparr>Status = TaskStatusInProgress, StartTime = now\<rparr>;
           f \<leftarrow> goindex (files c) taskId;
           Some (c\<lparr>mapTasks := ts\<rparr>,
                 \<lparr>Type = TaskTypeMap, Id = taskId, InputFile = f, NReduce = nReduce c, NMap = nMap c\<rparr>)
         }
         else if someInProgress (mapTasks c) then Some (c, emptyTask TaskTypeWait)
         else getReduceTask now (c\<lparr>phase := ''reduce''\<rparr>))
      else getReduceTask now c)"

definition completeTask :: "int \<Rightarrow> TaskInfo list \<Rightarrow> TaskInfo list option" where
  "completeTask i ts =
     do {
       t \<leftarrow> goindex ts i;
       if Status t = TaskStatusInProgress then gostore ts i (t\<lparr>Status := TaskStatusCompleted\<rparr>)
       else Some ts
     }"

definition ReportTask :: "TaskType \<Rightarrow> int \<Rightarrow> Coordinator \<Rightarrow> (Coordinator \<times> bool) option" where
  "ReportTask ty i c =
     (if ty = TaskTypeMap \<and> phase c = ''map'' then do {
        ts \<leftarrow> completeTask i (mapTasks c); Some (c\<lparr>mapTasks := ts\<rparr>, True) }
      else if ty = TaskTypeReduce \<and> phase c = ''reduce'' then do {
        ts \<leftarrow> completeTask i (reduceTasks c); Some (c\<lparr>reduceTasks := ts\<rparr>, True) }
      else Some (c, True))"

definition timeout :: int where "timeout = 10 * 1000000000"

definition expire :: "int \<Rightarrow> TaskInfo \<Rightarrow> TaskInfo" where
  "expire now t =
     (if Status t = TaskStatusInProgress \<and> timeout < now - StartTime t
      then t\<lparr>Status := TaskStatusIdle\<rparr> else t)"

definition checkTimeout :: "int \<Rightarrow> Coordinator \<Rightarrow> Coordinator" where
  "checkTimeout now c =
     (if phase c = ''map'' then c\<lparr>mapTasks := map (expire now) (mapTasks c)\<rparr>
      else if phase c = ''reduce'' then c\<lparr>reduceTasks := map (expire now) (reduceTasks c)\<rparr>
      else c)"

definition Example :: "int \<Rightarrow> int" where "Example x = x + 1"

subsection \<open>Scans\<close>

lemma findIdleFrom_spec:
  "findIdleFrom i ts = (if \<exists>t \<in> set ts. Status t = TaskStatusIdle
     then i + int (length (takeWhile (\<lambda>t. Status t \<noteq> TaskStatusIdle) ts)) else -1)"
  by (induction i ts rule: findIdleFrom.induct) auto

lemma takeWhile_found: "\<exists>t \<in> set ts. \<not> P t \<Longrightarrow>
    length (takeWhile P ts) < length ts \<and> \<not> P (ts ! length (takeWhile P ts))"
  by (induction ts) auto

lemma findIdleTask_found:
  assumes "findIdleTask ts \<noteq> -1"
  shows "0 \<le> findIdleTask ts" "findIdleTask ts < int (length ts)"
    "Status (ts ! nat (findIdleTask ts)) = TaskStatusIdle"
  using assms takeWhile_found [of ts "\<lambda>t. Status t \<noteq> TaskStatusIdle"]
  by (auto simp: findIdleTask_def findIdleFrom_spec split: if_splits)

lemma findIdleTask_none:
  "findIdleTask ts = -1 \<longleftrightarrow> (\<forall>t \<in> set ts. Status t \<noteq> TaskStatusIdle)"
  by (auto simp: findIdleTask_def findIdleFrom_spec split: if_splits)

lemma someInProgress_iff: "someInProgress ts \<longleftrightarrow> (\<exists>t \<in> set ts. Status t = TaskStatusInProgress)"
  by (induction ts) auto

definition allCompleted :: "TaskInfo list \<Rightarrow> bool" where
  "allCompleted ts \<longleftrightarrow> (\<forall>t \<in> set ts. Status t = TaskStatusCompleted)"

lemma no_work_left:
  "findIdleTask ts = -1 \<Longrightarrow> \<not> someInProgress ts \<Longrightarrow> allCompleted ts"
  by (metis TaskStatus.exhaust allCompleted_def findIdleTask_none someInProgress_iff)

subsection \<open>The invariant\<close>

definition coord_ok :: "Coordinator \<Rightarrow> bool" where
  "coord_ok c \<longleftrightarrow>
     nMap c = int (length (files c)) \<and> length (mapTasks c) = length (files c) \<and>
     nReduce c = int (length (reduceTasks c)) \<and> (phase c = ''map'' \<or> phase c = ''reduce'') \<and>
     (phase c = ''map'' \<longrightarrow> (\<forall>t \<in> set (reduceTasks c). Status t = TaskStatusIdle)) \<and>
     (phase c = ''reduce'' \<longrightarrow> allCompleted (mapTasks c)) \<and>
     (done' c \<longrightarrow> phase c = ''reduce'' \<and> allCompleted (reduceTasks c))"

text \<open>What no step ever takes back: the job, the phase, a completed task.\<close>

definition keeps_done :: "TaskInfo list \<Rightarrow> TaskInfo list \<Rightarrow> bool" where
  "keeps_done ts ts' \<longleftrightarrow> length ts' = length ts \<and>
     (\<forall>i < length ts. Status (ts ! i) = TaskStatusCompleted \<longrightarrow> Status (ts' ! i) = TaskStatusCompleted)"

definition advances :: "Coordinator \<Rightarrow> Coordinator \<Rightarrow> bool" where
  "advances c c' \<longleftrightarrow>
     files c' = files c \<and> nReduce c' = nReduce c \<and> nMap c' = nMap c \<and>
     (phase c = ''reduce'' \<longrightarrow> phase c' = ''reduce'') \<and> (done' c \<longrightarrow> done' c') \<and>
     keeps_done (mapTasks c) (mapTasks c') \<and> keeps_done (reduceTasks c) (reduceTasks c')"

lemma keeps_done_refl [simp]: "keeps_done ts ts" by (simp add: keeps_done_def)

lemma advances_refl [simp]: "advances c c" by (simp add: advances_def)

lemma keeps_done_trans: "keeps_done a b \<Longrightarrow> keeps_done b c \<Longrightarrow> keeps_done a c"
  by (auto simp: keeps_done_def)

lemma advances_trans: "advances a b \<Longrightarrow> advances b c \<Longrightarrow> advances a c"
  by (auto simp: advances_def intro: keeps_done_trans)

lemma MakeCoordinator_ok: "coord_ok (MakeCoordinator fs nr)"
  by (auto simp: coord_ok_def MakeCoordinator_def)

lemma start_keeps_done:
  "findIdleTask ts \<noteq> -1 \<Longrightarrow> keeps_done ts (ts[nat (findIdleTask ts) := t])"
  using findIdleTask_found(3) [of ts] unfolding keeps_done_def
  by (metis TaskStatus.distinct(5) TaskStatus.distinct(3) length_list_update nth_list_update_neq)

lemma completeTask_keeps_done: "completeTask i ts = Some ts' \<Longrightarrow> keeps_done ts ts'"
  by (auto simp: completeTask_def keeps_done_def goindex_Some_iff gostore_Some_iff nth_list_update
      split: bind_splits if_splits)

lemma expire_keeps_done: "keeps_done ts (map (expire now) ts)"
  by (auto simp: keeps_done_def expire_def)

lemma allCompleted_keeps: "allCompleted ts \<Longrightarrow> keeps_done ts ts' \<Longrightarrow> allCompleted ts'"
  by (auto simp: allCompleted_def keeps_done_def all_set_conv_all_nth)

text \<open>The four ways a call of \<open>GetTask\<close> ends.\<close>

lemma GetTask_cases:
  assumes "coord_ok c"
  obtains (map_task) i where "phase c = ''map''" "i = findIdleTask (mapTasks c)" "i \<noteq> -1"
      "GetTask now c = Some (c\<lparr>mapTasks := (mapTasks c)[nat i := \<lparr>Status = TaskStatusInProgress, StartTime = now\<rparr>]\<rparr>,
        \<lparr>Type = TaskTypeMap, Id = i, InputFile = files c ! nat i, NReduce = nReduce c, NMap = nMap c\<rparr>)"
  | (reduce_task) i where "i = findIdleTask (reduceTasks c)" "i \<noteq> -1" "allCompleted (mapTasks c)"
      "GetTask now c = Some (c\<lparr>phase := ''reduce'', reduceTasks := (reduceTasks c)[nat i := \<lparr>Status = TaskStatusInProgress, StartTime = now\<rparr>]\<rparr>,
        \<lparr>Type = TaskTypeReduce, Id = i, InputFile = [], NReduce = nReduce c, NMap = nMap c\<rparr>)"
  | (wait) p where "GetTask now c = Some (c\<lparr>phase := p\<rparr>, emptyTask TaskTypeWait)"
      "p = phase c \<and> p = ''map'' \<and> someInProgress (mapTasks c) \<or>
       p = ''reduce'' \<and> allCompleted (mapTasks c) \<and> someInProgress (reduceTasks c)"
  | (finished) "GetTask now c = Some (c\<lparr>phase := ''reduce'', done' := True\<rparr>, emptyTask TaskTypeDone)"
      "allCompleted (mapTasks c)" "allCompleted (reduceTasks c)"
proof -
  have len: "length (mapTasks c) = length (files c)" using assms by (simp add: coord_ok_def)
  have ph: "phase c = ''map'' \<or> phase c = ''reduce''" using assms by (simp add: coord_ok_def)
  consider (m1) "phase c = ''map''" "findIdleTask (mapTasks c) \<noteq> -1"
    | (m2) "phase c = ''map''" "findIdleTask (mapTasks c) = -1" "someInProgress (mapTasks c)"
    | (r) "allCompleted (mapTasks c)"
        "phase c = ''reduce'' \<or> findIdleTask (mapTasks c) = -1 \<and> \<not> someInProgress (mapTasks c)"
    using ph assms no_work_left by (auto simp: coord_ok_def)
  then show thesis
  proof cases
    case m1
    then show thesis
      using findIdleTask_found(1,2) [OF m1(2)] len
      by (intro map_task [OF m1(1) refl m1(2)]) (simp add: GetTask_def Let_def)
  next
    case m2
    then show thesis by (intro wait [of "phase c"]) (simp_all add: GetTask_def Let_def)
  next
    case r
    have "GetTask now c = getReduceTask now (c\<lparr>phase := ''reduce''\<rparr>)"
    proof (cases "phase c = ''map''")
      case True
      then show ?thesis using r(2) by (auto simp: GetTask_def Let_def)
    next
      case False
      then have "phase c = ''reduce''" using ph by blast
      then have "c\<lparr>phase := ''reduce''\<rparr> = c" by (cases c) simp
      then show ?thesis using False by (simp add: GetTask_def)
    qed
    note eq = this [unfolded getReduceTask_def Let_def]
    consider (i) "findIdleTask (reduceTasks c) \<noteq> -1"
      | (p) "findIdleTask (reduceTasks c) = -1" "someInProgress (reduceTasks c)"
      | (d) "findIdleTask (reduceTasks c) = -1" "\<not> someInProgress (reduceTasks c)" by blast
    then show thesis
    proof cases
      case i
      then show thesis
        using findIdleTask_found(1,2) [OF i] eq
        by (intro reduce_task [OF refl i r(1)]) (simp add: Let_def)
    next
      case p
      then show thesis using eq r by (intro wait [of "''reduce''"]) (simp_all add: Let_def)
    next
      case d
      then show thesis using eq r no_work_left by (intro finished) (simp_all add: Let_def)
    qed
  qed
qed


lemma GetTask_ok:
  assumes "coord_ok c" "GetTask now c = Some (c', task)"
  shows "coord_ok c' \<and> advances c c'"
  using assms(1)
proof (cases rule: GetTask_cases [where now = now])
  case (map_task i)
  then show ?thesis using assms start_keeps_done [of "mapTasks c"]
    by (auto simp: coord_ok_def advances_def allCompleted_def)
next
  case (reduce_task i)
  then have "\<not> done' c"
    using assms(1) findIdleTask_none [of "reduceTasks c"] by (auto simp: coord_ok_def allCompleted_def)
  then show ?thesis using reduce_task assms start_keeps_done [of "reduceTasks c"]
    by (auto simp: coord_ok_def advances_def)
next
  case (wait p)
  then have "\<not> (p = ''reduce'' \<and> done' c)"
    using assms(1) by (auto simp: coord_ok_def allCompleted_def someInProgress_iff)
  then show ?thesis using wait assms by (auto simp: coord_ok_def advances_def)
next
  case finished
  then show ?thesis using assms by (auto simp: coord_ok_def advances_def)
qed

lemma ReportTask_cases:
  assumes "ReportTask ty i c = Some (c', ok)"
  obtains (map_done) ts where "ty = TaskTypeMap" "phase c = ''map''" "completeTask i (mapTasks c) = Some ts"
      "c' = c\<lparr>mapTasks := ts\<rparr>"
  | (reduce_done) ts where "ty = TaskTypeReduce" "phase c = ''reduce''" "completeTask i (reduceTasks c) = Some ts"
      "c' = c\<lparr>reduceTasks := ts\<rparr>"
  | (ignored) "c' = c"
proof -
  consider (m) "ty = TaskTypeMap \<and> phase c = ''map''"
    | (r) "ty = TaskTypeReduce \<and> phase c = ''reduce''" "\<not> (ty = TaskTypeMap \<and> phase c = ''map'')"
    | (skip) "\<not> (ty = TaskTypeMap \<and> phase c = ''map'')" "\<not> (ty = TaskTypeReduce \<and> phase c = ''reduce'')"
    by blast
  then show thesis
  proof cases
    case m
    then obtain ts where "completeTask i (mapTasks c) = Some ts" "c' = c\<lparr>mapTasks := ts\<rparr>"
      using assms by (auto simp: ReportTask_def bind_eq_Some_conv)
    with m map_done show thesis by blast
  next
    case r
    then obtain ts where "completeTask i (reduceTasks c) = Some ts" "c' = c\<lparr>reduceTasks := ts\<rparr>"
      using assms by (auto simp: ReportTask_def bind_eq_Some_conv)
    with r reduce_done show thesis by blast
  next
    case skip
    then have "c' = c" using assms by (auto simp: ReportTask_def)
    with ignored show thesis by blast
  qed
qed

lemma ReportTask_ok:
  assumes "coord_ok c" "ReportTask ty i c = Some (c', r)"
  shows "coord_ok c' \<and> advances c c'"
  using assms(2)
proof (cases rule: ReportTask_cases)
  case (map_done ts)
  then show ?thesis using assms(1) completeTask_keeps_done [OF map_done(3)]
    by (auto simp: coord_ok_def advances_def keeps_done_def)
next
  case (reduce_done ts)
  then show ?thesis using assms(1) completeTask_keeps_done [OF reduce_done(3)] allCompleted_keeps
    by (auto simp: coord_ok_def advances_def keeps_done_def)
qed (use assms(1) in simp)

lemma checkTimeout_ok:
  assumes "coord_ok c"
  shows "coord_ok (checkTimeout now c) \<and> advances c (checkTimeout now c)"
  using assms expire_keeps_done allCompleted_keeps [OF _ expire_keeps_done]
  by (auto simp: checkTimeout_def coord_ok_def advances_def)

text \<open>Any worker may call at any time, with any report; the timer runs in between.\<close>

inductive coord_step :: "Coordinator \<Rightarrow> Coordinator \<Rightarrow> bool" where
  get: "GetTask now c = Some (c', task) \<Longrightarrow> coord_step c c'"
| report: "ReportTask ty i c = Some (c', r) \<Longrightarrow> coord_step c c'"
| tick: "coord_step c (checkTimeout now c)"

lemma coord_steps_ok: "coord_step\<^sup>*\<^sup>* c c' \<Longrightarrow> coord_ok c \<Longrightarrow> coord_ok c' \<and> advances c c'"
proof (induction rule: rtranclp_induct)
  case (step d e)
  then have ok: "coord_ok d" "advances c d" by auto
  have "coord_ok e \<and> advances d e"
    using step.hyps(2) ok(1) GetTask_ok ReportTask_ok checkTimeout_ok
    by (cases rule: coord_step.cases) blast+
  with ok(2) show ?case using advances_trans by blast
qed simp

text \<open>
  C24. The order of the phases: in every state the coordinator can reach, it hands out a reduce
  task only when every map task is completed, and tells a worker that the job is done, or
  reports \<open>Done\<close>, only when every map and every reduce task is completed; a task it hands
  out was idle and carries the input file of its number.
\<close>

theorem phases_in_order:
  assumes "coord_step\<^sup>*\<^sup>* (MakeCoordinator fs nr) c"
  shows "\<exists>c' task. GetTask now c = Some (c', task) \<and>
    (Type task = TaskTypeMap \<longrightarrow> 0 \<le> Id task \<and> Id task < int (length fs) \<and>
       InputFile task = fs ! nat (Id task) \<and> Status (mapTasks c ! nat (Id task)) = TaskStatusIdle) \<and>
    (Type task = TaskTypeReduce \<longrightarrow> allCompleted (mapTasks c) \<and> 0 \<le> Id task \<and> Id task < int nr \<and>
       Status (reduceTasks c ! nat (Id task)) = TaskStatusIdle) \<and>
    (Type task = TaskTypeDone \<longrightarrow> allCompleted (mapTasks c) \<and> allCompleted (reduceTasks c)) \<and>
    (Done c \<longrightarrow> allCompleted (mapTasks c) \<and> allCompleted (reduceTasks c))"
proof -
  from coord_steps_ok [OF assms MakeCoordinator_ok]
  have ok: "coord_ok c" and adv: "advances (MakeCoordinator fs nr) c" by auto
  have shape: "files c = fs" "length (mapTasks c) = length fs" "length (reduceTasks c) = nr"
    using adv by (auto simp: advances_def keeps_done_def MakeCoordinator_def)
  have dn: "Done c \<longrightarrow> allCompleted (mapTasks c) \<and> allCompleted (reduceTasks c)"
    using ok by (auto simp: Done_def coord_ok_def)
  from ok show ?thesis
  proof (cases rule: GetTask_cases [where now = now])
    case (map_task i)
    then show ?thesis using findIdleTask_found [of "mapTasks c"] shape dn by simp
  next
    case (reduce_task i)
    then show ?thesis using findIdleTask_found [of "reduceTasks c"] shape dn by simp
  qed (use dn in \<open>simp_all add: emptyTask_def\<close>)
qed

lemma MakeCoordinator_empty_done:
  "coord_step\<^sup>*\<^sup>* (MakeCoordinator [] 1) ((MakeCoordinator [] 1)\<lparr>phase := ''reduce'',
     reduceTasks := [\<lparr>Status = TaskStatusInProgress, StartTime = 5\<rparr>]\<rparr>)"
proof -
  have "GetTask 5 (MakeCoordinator [] 1) = Some ((MakeCoordinator [] 1)\<lparr>phase := ''reduce'',
     reduceTasks := [\<lparr>Status = TaskStatusInProgress, StartTime = 5\<rparr>]\<rparr>,
     \<lparr>Type = TaskTypeReduce, Id = 0, InputFile = [], NReduce = 1, NMap = 0\<rparr>)"
    by (simp add: GetTask_def getReduceTask_def MakeCoordinator_def findIdleTask_def Let_def)
  from coord_step.get [OF this] show ?thesis by blast
qed

theorem phases_in_order_witness:
  "\<exists>c' task. GetTask 7 (MakeCoordinator [''a'', ''b''] 1) = Some (c', task) \<and> Type task = TaskTypeMap \<and>
     InputFile task = ''a''"
proof -
  have "coord_step\<^sup>*\<^sup>* (MakeCoordinator [''a'', ''b''] 1) (MakeCoordinator [''a'', ''b''] 1)" by simp
  from phases_in_order [OF this, of 7] show ?thesis
    by (auto simp: GetTask_def MakeCoordinator_def findIdleTask_def Let_def)
qed

text \<open>
  No completed work is lost: along every sequence of calls and timeouts a completed task stays
  completed, the phase never goes back and \<open>Done\<close> is never withdrawn.
\<close>

lemma coordinator_monotone:
  assumes "coord_step\<^sup>*\<^sup>* (MakeCoordinator fs nr) c" "coord_step\<^sup>*\<^sup>* c c'"
  shows "(\<forall>i < length fs. Status (mapTasks c ! i) = TaskStatusCompleted \<longrightarrow> Status (mapTasks c' ! i) = TaskStatusCompleted) \<and>
    (\<forall>i < nr. Status (reduceTasks c ! i) = TaskStatusCompleted \<longrightarrow> Status (reduceTasks c' ! i) = TaskStatusCompleted) \<and>
    (phase c = ''reduce'' \<longrightarrow> phase c' = ''reduce'') \<and> (Done c \<longrightarrow> Done c')"
proof -
  from coord_steps_ok [OF assms(1) MakeCoordinator_ok]
  have ok: "coord_ok c" and adv: "advances (MakeCoordinator fs nr) c" by auto
  from coord_steps_ok [OF assms(2) ok] have "advances c c'" by blast
  with adv show ?thesis by (auto simp: advances_def keeps_done_def MakeCoordinator_def Done_def)
qed

theorem coordinator_monotone_witness:
  "phase (checkTimeout 99000000000 ((MakeCoordinator [] 1)\<lparr>phase := ''reduce'',
     reduceTasks := [\<lparr>Status = TaskStatusInProgress, StartTime = 5\<rparr>]\<rparr>)) = ''reduce''"
  using coordinator_monotone [OF MakeCoordinator_empty_done r_into_rtranclp [of coord_step, OF coord_step.tick]]
  by simp

lemma expire_all:
  "\<forall>t \<in> set ts. Status t = TaskStatusInProgress \<longrightarrow> timeout < now - StartTime t \<Longrightarrow>
     \<not> someInProgress (map (expire now) ts)"
  by (auto simp: someInProgress_iff expire_def split: if_splits)



subsection \<open>Completions\<close>

definition completed :: "TaskInfo list \<Rightarrow> int set" where
  "completed ts = {i. 0 \<le> i \<and> i < int (length ts) \<and> Status (ts ! nat i) = TaskStatusCompleted}"

lemma completed_start:
  assumes "Status t \<noteq> TaskStatusCompleted"
  shows "completed (ts[k := t]) \<subseteq> completed ts"
proof
  fix i assume i: "i \<in> completed (ts[k := t])"
  then show "i \<in> completed ts" using assms by (cases "nat i = k") (auto simp: completed_def)
qed

lemma completed_expire: "completed (map (expire now) ts) \<subseteq> completed ts"
  by (auto simp: completed_def expire_def split: if_splits)

lemma completed_complete:
  assumes "completeTask i ts = Some ts'"
  shows "completed ts' \<subseteq> insert i (completed ts)"
proof
  fix j assume j: "j \<in> completed ts'"
  consider "ts' = ts"
    | "0 \<le> i" "i < int (length ts)" "ts' = ts[nat i := (ts ! nat i)\<lparr>Status := TaskStatusCompleted\<rparr>]"
    using assms by (auto simp: completeTask_def bind_eq_Some_conv goindex_Some_iff gostore_Some_iff split: if_splits)
  then show "j \<in> insert i (completed ts)"
  proof cases
    case 2
    then show ?thesis using j by (cases "nat j = nat i") (auto simp: completed_def)
  qed (use j in simp)
qed

text \<open>Only a report completes a task, and only the task it names.\<close>

lemma GetTask_completed:
  assumes "coord_ok c" "GetTask now c = Some (c', task)"
  shows "completed (mapTasks c') \<subseteq> completed (mapTasks c) \<and> completed (reduceTasks c') \<subseteq> completed (reduceTasks c)"
  using assms(1)
  by (cases rule: GetTask_cases [where now = now]) (use assms(2) completed_start in auto)

lemma checkTimeout_completed:
  "completed (mapTasks (checkTimeout now c)) \<subseteq> completed (mapTasks c) \<and>
   completed (reduceTasks (checkTimeout now c)) \<subseteq> completed (reduceTasks c)"
  using completed_expire by (auto simp: checkTimeout_def)

lemma ReportTask_completed:
  assumes "ReportTask ty i c = Some (c', r)"
  shows "completed (mapTasks c') \<subseteq> (if ty = TaskTypeMap then insert i else id) (completed (mapTasks c)) \<and>
    completed (reduceTasks c') \<subseteq> (if ty = TaskTypeReduce then insert i else id) (completed (reduceTasks c))"
  using assms
proof (cases rule: ReportTask_cases)
  case (map_done ts)
  then show ?thesis using completed_complete [OF map_done(3)] by auto
next
  case (reduce_done ts)
  then show ?thesis using completed_complete [OF reduce_done(3)] by auto
qed auto

lemma GetTask_task:
  assumes "coord_ok c" "advances (MakeCoordinator fs nr) c" "GetTask now c = Some (c', task)"
  shows "(Type task = TaskTypeMap \<longrightarrow> 0 \<le> Id task \<and> Id task < int (length fs) \<and>
        InputFile task = fs ! nat (Id task) \<and> NReduce task = int nr) \<and>
     (Type task = TaskTypeReduce \<longrightarrow> 0 \<le> Id task \<and> Id task < int nr \<and> NMap task = int (length fs) \<and>
        phase c' = ''reduce'')"
proof -
  have shape: "files c = fs" "length (mapTasks c) = length fs" "length (reduceTasks c) = nr"
    "nReduce c = int nr" "nMap c = int (length fs)"
    using assms(2) by (auto simp: advances_def keeps_done_def MakeCoordinator_def)
  from assms(1) show ?thesis
  proof (cases rule: GetTask_cases [where now = now])
    case (map_task i)
    then show ?thesis using findIdleTask_found [of "mapTasks c"] shape assms(3) by auto
  next
    case (reduce_task i)
    then show ?thesis using findIdleTask_found [of "reduceTasks c"] shape assms(3) by auto
  qed (use assms(3) in \<open>auto simp: emptyTask_def\<close>)
qed

end
