(* ===== verification/Fnv.thy ===== *)
theory Fnv
  imports Prelude "HOL-Library.Word"
begin

text \<open>
  The hash \<open>fnv.New32a\<close> of the Go library \<open>hash/fnv\<close>, as \<open>Key2Shard\<close> and \<open>ihash\<close> use
  it: FNV-1a over the bytes of the key, 32 bits wide.
\<close>

unbundle bit_operations_syntax

definition fnv1a_step :: "32 word \<Rightarrow> char \<Rightarrow> 32 word" where
  "fnv1a_step h b = (h XOR of_char b) * 16777619"

definition Sum32 :: "string \<Rightarrow> 32 word" where
  "Sum32 key = foldl fnv1a_step 2166136261 key"

text \<open>The published test vector for the one-byte key \<open>a\<close>.\<close>

lemma Sum32_a: "Sum32 ''a'' = 0xE40C292C"
  by code_simp

lemma Sum32_append: "Sum32 (xs @ [c]) = fnv1a_step (Sum32 xs) c"
  by (simp add: Sum32_def)

end
