(* ===== verification/MapReduce.thy ===== *)
theory MapReduce
  imports Coordinator Fnv "HOL-Library.Multiset" "HOL-Library.Char_ord" "HOL-Library.List_Lexorder"
begin

text \<open>
  The MapReduce worker of \<open>mr/worker.go\<close>, the sequential reference of
  \<open>main/mrsequential.go\<close> and the applications of \<open>mrapps\<close>. The file system is a map from names to
  contents. What the code takes from elsewhere is an argument: the application's \<open>mapf\<close> and
  \<open>reducef\<close>, the streams of \<open>encoding/json\<close> (\<open>enc\<close>, \<open>dec\<close>) and the order in which
  \<open>sort.Sort\<close>, which is not stable, leaves entries with equal keys (\<open>sortf\<close>).
  \<open>log.Fatalf\<close> and a run-time panic are \<open>None\<close>. A worker writes its files in one step.
\<close>

subsection \<open>Keys and files\<close>

record KeyValue =
  Key :: string
  kvValue :: string

type_synonym filesys = "string \<rightharpoonup> string"

definition ihash :: "string \<Rightarrow> int" where
  "ihash key = uint (Sum32 key AND 0x7fffffff)"

definition intermediateName :: "int \<Rightarrow> int \<Rightarrow> string" where
  "intermediateName mapTask reduceTask = ''mr-'' @ Itoa mapTask @ ''-'' @ Itoa reduceTask"

definition outName :: "int \<Rightarrow> string" where
  "outName reduceTask = ''mr-out-'' @ Itoa reduceTask"

subsection \<open>Tasks\<close>

text \<open>The loop that splits the output of the application among the reduce tasks.\<close>

fun partitionLoop :: "int \<Rightarrow> KeyValue list \<Rightarrow> KeyValue list list \<Rightarrow> KeyValue list list option" where
  "partitionLoop nr [] parts = Some parts"
| "partitionLoop nr (kv # kva) parts =
     (if nr = 0 then None
      else do {
        let idx = ihash (Key kv) mod nr;
        old \<leftarrow> goindex parts idx;
        parts' \<leftarrow> gostore parts idx (old @ [kv]);
        partitionLoop nr kva parts'
      })"

definition doMap ::
  "(KeyValue list \<Rightarrow> string) \<Rightarrow> (string \<Rightarrow> string \<Rightarrow> KeyValue list) \<Rightarrow> Task \<Rightarrow> filesys \<Rightarrow> filesys option" where
  "doMap enc mapf task fs =
     do {
       content \<leftarrow> fs (InputFile task);
       parts \<leftarrow> partitionLoop (NReduce task) (mapf (InputFile task) content)
                  (replicate (nat (NReduce task)) []);
       Some (foldl (\<lambda>fs i. fs(intermediateName (Id task) (int i) \<mapsto> enc (parts ! i))) fs
               [0..<nat (NReduce task)])
     }"

function reduceLoop :: "(string \<Rightarrow> string list \<Rightarrow> string) \<Rightarrow> KeyValue list \<Rightarrow> string list" where
  "reduceLoop reducef [] = []"
| "reduceLoop reducef (kv # kva) =
     (let same = takeWhile (\<lambda>x. Key x = Key kv) kva;
          values = map kvValue (kv # same);
          output = reducef (Key kv) values
      in (Key kv @ '' '' @ output @ [CHR 0x0A]) # reduceLoop reducef (dropWhile (\<lambda>x. Key x = Key kv) kva))"
  by pat_completeness auto
termination
  by (relation "measure (\<lambda>(_, kva). length kva)") (auto simp: le_imp_less_Suc length_dropWhile_le)

definition doReduce ::
  "(string \<Rightarrow> KeyValue list) \<Rightarrow> (KeyValue list \<Rightarrow> KeyValue list) \<Rightarrow> (string \<Rightarrow> string list \<Rightarrow> string)
    \<Rightarrow> Task \<Rightarrow> filesys \<Rightarrow> filesys" where
  "doReduce dec sortf reducef task fs =
     (let kva = concat (map (\<lambda>i. case fs (intermediateName (int i) (Id task)) of
                                   None \<Rightarrow> [] | Some content \<Rightarrow> dec content) [0..<nat (NMap task)])
      in fs(outName (Id task) \<mapsto> concat (reduceLoop reducef (sortf kva))))"

subsection \<open>The sequential program\<close>

fun mapFiles :: "(string \<Rightarrow> string \<Rightarrow> KeyValue list) \<Rightarrow> filesys \<Rightarrow> string list \<Rightarrow> KeyValue list option" where
  "mapFiles mapf fs [] = Some []"
| "mapFiles mapf fs (f # fls) =
     do { content \<leftarrow> fs f; rest \<leftarrow> mapFiles mapf fs fls; Some (mapf f content @ rest) }"

definition mrsequential ::
  "(KeyValue list \<Rightarrow> KeyValue list) \<Rightarrow> (string \<Rightarrow> string \<Rightarrow> KeyValue list)
    \<Rightarrow> (string \<Rightarrow> string list \<Rightarrow> string) \<Rightarrow> string list \<Rightarrow> filesys \<Rightarrow> filesys option" where
  "mrsequential sortf mapf reducef fls fs =
     do {
       intermediate \<leftarrow> mapFiles mapf fs fls;
       Some (fs(outName 0 \<mapsto> concat (reduceLoop reducef (sortf intermediate))))
     }"

subsection \<open>Applications\<close>

text \<open>\<open>strings.Join\<close> and \<open>strings.FieldsFunc\<close>; text is handled as runes, decoded from UTF-8.\<close>

fun Join' :: "string list \<Rightarrow> string \<Rightarrow> string" where
  "Join' [] sep = []"
| "Join' [v] sep = v"
| "Join' (v # w # vs) sep = v @ sep @ Join' (w # vs) sep"

function FieldsFunc :: "('r \<Rightarrow> bool) \<Rightarrow> 'r list \<Rightarrow> 'r list list" where
  "FieldsFunc f [] = []"
| "FieldsFunc f (r # rs) =
     (if f r then FieldsFunc f rs
      else (r # takeWhile (\<lambda>x. \<not> f x) rs) # FieldsFunc f (dropWhile (\<lambda>x. \<not> f x) rs))"
  by pat_completeness auto
termination
  by (relation "measure (\<lambda>(_, rs). length rs)") (auto simp: le_imp_less_Suc length_dropWhile_le)

definition wcMap ::
  "('r \<Rightarrow> bool) \<Rightarrow> (string \<Rightarrow> 'r list) \<Rightarrow> ('r list \<Rightarrow> string) \<Rightarrow> string \<Rightarrow> string \<Rightarrow> KeyValue list" where
  "wcMap IsLetter runes str filename contents =
     map (\<lambda>w. \<lparr>Key = str w, kvValue = ''1''\<rparr>) (FieldsFunc (\<lambda>r. \<not> IsLetter r) (runes contents))"

definition wcReduce :: "string \<Rightarrow> string list \<Rightarrow> string" where
  "wcReduce key values = Itoa (int (length values))"

text \<open>The order of the keys of the Go map in \<open>indexer\<close> is that of their first occurrence here.\<close>

definition indexerMap ::
  "('r \<Rightarrow> bool) \<Rightarrow> (string \<Rightarrow> 'r list) \<Rightarrow> ('r list \<Rightarrow> string) \<Rightarrow> string \<Rightarrow> string \<Rightarrow> KeyValue list" where
  "indexerMap IsLetter runes str document value =
     map (\<lambda>w. \<lparr>Key = w, kvValue = document\<rparr>)
       (remdups (map str (FieldsFunc (\<lambda>r. \<not> IsLetter r) (runes value))))"

definition indexerReduce :: "string \<Rightarrow> string list \<Rightarrow> string" where
  "indexerReduce key values = Itoa (int (length values)) @ '' '' @ Join' (sort values) '',''"

definition nocrashMap :: "string \<Rightarrow> string \<Rightarrow> KeyValue list" where
  "nocrashMap filename contents =
     [\<lparr>Key = ''a'', kvValue = filename\<rparr>, \<lparr>Key = ''b'', kvValue = Itoa (int (length filename))\<rparr>,
      \<lparr>Key = ''c'', kvValue = Itoa (int (length contents))\<rparr>, \<lparr>Key = ''d'', kvValue = ''xyzzy''\<rparr>]"

definition nocrashReduce :: "string \<Rightarrow> string list \<Rightarrow> string" where
  "nocrashReduce key values = Join' (sort values) '' ''"

definition earlyExitMap :: "string \<Rightarrow> string \<Rightarrow> KeyValue list" where
  "earlyExitMap filename contents = [\<lparr>Key = filename, kvValue = ''1''\<rparr>]"

definition earlyExitReduce :: "string \<Rightarrow> string list \<Rightarrow> string" where
  "earlyExitReduce key values = Itoa (int (length values))"

definition rtimingMap :: "string \<Rightarrow> string \<Rightarrow> KeyValue list" where
  "rtimingMap filename contents =
     map (\<lambda>k. \<lparr>Key = [k], kvValue = ''1''\<rparr>) ''abcdefghij''"

subsection \<open>Names of files\<close>

lemma intermediateName_inject:
  assumes "0 \<le> m" "0 \<le> r" "0 \<le> m'" "0 \<le> r'"
  shows "intermediateName m r = intermediateName m' r' \<longleftrightarrow> m = m' \<and> r = r'"
  using assms append_sep_inject [of "CHR ''-''" "Itoa m" "Itoa m'" "Itoa r" "Itoa r'"]
  by (simp add: intermediateName_def Itoa_dash Itoa_inject)

lemma outName_inject: "0 \<le> r \<Longrightarrow> 0 \<le> r' \<Longrightarrow> outName r = outName r' \<longleftrightarrow> r = r'"
  by (simp add: outName_def Itoa_inject)

lemma intermediate_not_out: "0 \<le> m \<Longrightarrow> intermediateName m r \<noteq> outName r'"
proof
  assume m: "0 \<le> m" and eq: "intermediateName m r = outName r'"
  have ne: "Itoa m \<noteq> []" using m by (simp add: Itoa_def)
  have "hd (Itoa m @ ''-'' @ Itoa r) = hd (''out-'' @ Itoa r')"
    using eq by (simp add: intermediateName_def outName_def)
  then have "hd (Itoa m) = CHR ''o''" using ne by (cases "Itoa m") auto
  then have "CHR ''o'' \<in> set (Itoa m)" using ne by (metis list.set_sel(1))
  then show False using Itoa_digit [OF m] by fastforce
qed

subsection \<open>What a reduce task writes\<close>

definition valuesOf :: "string \<Rightarrow> KeyValue list \<Rightarrow> string list" where
  "valuesOf k kva = map kvValue (filter (\<lambda>x. Key x = k) kva)"

definition outLine :: "(string \<Rightarrow> string list \<Rightarrow> string) \<Rightarrow> KeyValue list \<Rightarrow> string \<Rightarrow> string" where
  "outLine reducef kva k = k @ '' '' @ reducef k (valuesOf k kva) @ [CHR 0x0A]"

abbreviation keys :: "KeyValue list \<Rightarrow> string set" where "keys kva \<equiv> Key ` set kva"

lemma sorted_split:
  assumes "sorted (map Key kva)" "\<forall>x \<in> set kva. k \<le> Key x"
  shows "takeWhile (\<lambda>x. Key x = k) kva = filter (\<lambda>x. Key x = k) kva \<and>
    dropWhile (\<lambda>x. Key x = k) kva = filter (\<lambda>x. Key x \<noteq> k) kva"
  using assms
proof (induction kva)
  case (Cons a kva)
  show ?case
  proof (cases "Key a = k")
    case True
    then show ?thesis using Cons by simp
  next
    case False
    then have "\<forall>x \<in> set kva. Key x \<noteq> k" using Cons.prems by fastforce
    then show ?thesis using False by (simp add: filter_id_conv filter_empty_conv)
  qed
qed simp

lemma reduceLoop_sorted:
  "sorted (map Key kva) \<Longrightarrow>
     reduceLoop reducef kva = map (outLine reducef kva) (sorted_list_of_set (keys kva))"
proof (induction reducef kva rule: reduceLoop.induct)
  case (2 reducef kv kva)
  let ?rest = "filter (\<lambda>x. Key x \<noteq> Key kv) kva"
  have le: "\<forall>x \<in> set kva. Key kv \<le> Key x" "sorted (map Key kva)" using "2.prems" by auto
  note sp = sorted_split [OF le(2,1)]
  have lt: "Key kv < k" if "k \<in> keys ?rest" for k using that le(1) by fastforce
  have keys: "keys (kv # kva) = insert (Key kv) (keys ?rest)" by auto
  have list: "sorted_list_of_set (keys (kv # kva)) = Key kv # sorted_list_of_set (keys ?rest)"
  proof -
    have "sorted_list_of_set (insert (Key kv) (keys ?rest)) = insort (Key kv) (sorted_list_of_set (keys ?rest))"
      using lt by (intro sorted_list_of_set.sorted_key_list_of_set_insert) auto
    moreover have "\<forall>x \<in> set (sorted_list_of_set (keys ?rest)). Key kv \<le> x"
      using lt by (auto intro: less_imp_le)
    ultimately show ?thesis unfolding keys by (simp add: insort_is_Cons)
  qed
  have IH: "reduceLoop reducef ?rest = map (outLine reducef ?rest) (sorted_list_of_set (keys ?rest))"
    using "2.IH" [OF refl refl refl] sp le(2) by (simp add: sorted_filter)
  have same: "outLine reducef ?rest k = outLine reducef (kv # kva) k" if "k \<in> keys ?rest" for k
  proof -
    have "k \<noteq> Key kv" using lt [OF that] by auto
    then have "filter (\<lambda>x. Key x \<noteq> Key kv \<and> Key x = k) kva = filter (\<lambda>x. Key x = k) kva"
      by (intro filter_cong) auto
    then have "valuesOf k ?rest = valuesOf k (kv # kva)"
      using \<open>k \<noteq> Key kv\<close> by (auto simp: valuesOf_def)
    then show ?thesis by (simp add: outLine_def)
  qed
  show ?case
    unfolding list
    using IH sp same by (simp add: outLine_def valuesOf_def Let_def)
qed simp

text \<open>
  The contract of \<open>sort.Sort(ByKey(kva))\<close>: a permutation in the order of the keys. The order of
  entries with equal keys is left open, so the lines of the output are determined only
  for applications that do not look at the order of the values.
\<close>

definition order_blind :: "(string \<Rightarrow> string list \<Rightarrow> string) \<Rightarrow> bool" where
  "order_blind reducef \<longleftrightarrow> (\<forall>k vs ws. mset vs = mset ws \<longrightarrow> reducef k vs = reducef k ws)"

locale by_key_sort =
  fixes sortf :: "KeyValue list \<Rightarrow> KeyValue list"
  assumes sort_perm: "mset (sortf kva) = mset kva"
    and sort_order: "sorted (map Key (sortf kva))"
begin

lemma sort_values: "mset (valuesOf k (sortf kva)) = mset (valuesOf k kva)"
  using sort_perm [of kva] unfolding valuesOf_def mset_map mset_filter by simp

lemma reduce_lines:
  assumes "order_blind reducef"
  shows "reduceLoop reducef (sortf kva) = map (outLine reducef kva) (sorted_list_of_set (keys kva))"
proof -
  have "set (sortf kva) = set kva" using sort_perm by (metis set_mset_mset)
  moreover have "reducef k (valuesOf k (sortf kva)) = reducef k (valuesOf k kva)" for k
    using assms sort_values [of k kva] unfolding order_blind_def by blast
  ultimately show ?thesis
    using reduceLoop_sorted [OF sort_order, of reducef] by (simp add: outLine_def)
qed

end

interpretation hol: by_key_sort "sort_key Key"
  by unfold_locales simp_all

subsection \<open>What a map task writes\<close>

definition bucket :: "int \<Rightarrow> int \<Rightarrow> KeyValue list \<Rightarrow> KeyValue list" where
  "bucket nr r kva = filter (\<lambda>kv. ihash (Key kv) mod nr = r) kva"

lemma partitionLoop_correct:
  assumes "0 < nr" "length parts = nat nr"
  shows "\<exists>ps. partitionLoop nr kva parts = Some ps \<and> length ps = nat nr \<and>
    (\<forall>i < nat nr. ps ! i = parts ! i @ bucket nr (int i) kva)"
  using assms(2)
proof (induction kva arbitrary: parts)
  case Nil
  then show ?case by (simp add: bucket_def)
next
  case (Cons kv kva)
  let ?i = "ihash (Key kv) mod nr"
  have i: "0 \<le> ?i" "?i < int (length parts)" using assms(1) Cons.prems by simp_all
  let ?parts = "parts[nat ?i := parts ! nat ?i @ [kv]]"
  obtain ps where ps: "partitionLoop nr kva ?parts = Some ps" "length ps = nat nr"
    "\<forall>j < nat nr. ps ! j = ?parts ! j @ bucket nr (int j) kva"
    using Cons.IH [of ?parts] Cons.prems by auto
  have "ps ! j = parts ! j @ bucket nr (int j) (kv # kva)" if "j < nat nr" for j
    using ps(3) that i Cons.prems by (cases "j = nat ?i") (auto simp: bucket_def)
  then show ?case using ps(1,2) i assms(1) by auto
qed

lemma write_files_other:
  "n \<notin> nm ` {0..<k} \<Longrightarrow> foldl (\<lambda>fs i. fs(nm i \<mapsto> v i)) fs [0..<k] n = fs n" for nm :: "nat \<Rightarrow> string"
  by (induction k) (auto simp: image_iff less_Suc_eq)

lemma write_files_at:
  "inj_on nm {0..<k} \<Longrightarrow> i < k \<Longrightarrow> foldl (\<lambda>fs i. fs(nm i \<mapsto> v i)) fs [0..<k] (nm i) = Some (v i)"
  for nm :: "nat \<Rightarrow> string"
proof (induction k)
  case (Suc k)
  have inj: "inj_on nm {0..<k}" using Suc.prems(1) by (rule inj_on_subset) auto
  show ?case
  proof (cases "i = k")
    case False
    then have "nm i \<noteq> nm k" using Suc.prems by (auto dest: inj_onD)
    then show ?thesis using Suc.IH [OF inj] Suc.prems(2) False by simp
  qed simp
qed simp

lemma doMap_correct:
  assumes "fs (InputFile task) = Some content" "0 < NReduce task" "0 \<le> Id task"
  shows "\<exists>fs'. doMap enc mapf task fs = Some fs' \<and>
    (\<forall>r. 0 \<le> r \<and> r < NReduce task \<longrightarrow>
       fs' (intermediateName (Id task) r) = Some (enc (bucket (NReduce task) r (mapf (InputFile task) content)))) \<and>
    (\<forall>n. (\<forall>r. 0 \<le> r \<and> r < NReduce task \<longrightarrow> n \<noteq> intermediateName (Id task) r) \<longrightarrow> fs' n = fs n)"
proof -
  let ?k = "nat (NReduce task)"
  let ?nm = "\<lambda>i. intermediateName (Id task) (int i)"
  obtain ps where ps: "partitionLoop (NReduce task) (mapf (InputFile task) content) (replicate ?k []) = Some ps"
    "\<forall>i < ?k. ps ! i = bucket (NReduce task) (int i) (mapf (InputFile task) content)"
    using partitionLoop_correct [OF assms(2), of "replicate ?k []"] by force
  have inj: "inj_on ?nm {0..<?k}"
    using assms(3) by (auto simp: inj_on_def intermediateName_inject)
  let ?fs = "foldl (\<lambda>fs i. fs(?nm i \<mapsto> enc (ps ! i))) fs [0..<?k]"
  have "?fs (intermediateName (Id task) r) = Some (enc (bucket (NReduce task) r (mapf (InputFile task) content)))"
    if "0 \<le> r" "r < NReduce task" for r
    using write_files_at [OF inj, of "nat r" "\<lambda>i. enc (ps ! i)" fs] ps(2) that by simp
  moreover have "?fs n = fs n" if n: "\<forall>r. 0 \<le> r \<and> r < NReduce task \<longrightarrow> n \<noteq> intermediateName (Id task) r" for n
  proof -
    have "n \<noteq> ?nm i" if i: "i < ?k" for i
    proof -
      have "0 \<le> int i \<and> int i < NReduce task" using i by linarith
      then show ?thesis using n by blast
    qed
    then have "n \<notin> ?nm ` {0..<?k}" by (metis (no_types, lifting) atLeastLessThan_iff imageE)
    then show ?thesis by (rule write_files_other)
  qed
  ultimately show ?thesis using assms(1) ps(1) by (simp add: doMap_def)
qed

subsection \<open>A job: the coordinator and its workers\<close>

text \<open>
  One goroutine-free view of a run: the coordinator, the shared file system, and the tasks
  that workers hold, each with the flag whether the worker has written its files. Workers ask for
  tasks, run them, report them, and die at any moment, with or without having run their task.
\<close>

record job =
  coord :: Coordinator
  disk :: filesys
  held :: "(Task \<times> bool) list"

inductive jstep ::
  "(KeyValue list \<Rightarrow> string) \<Rightarrow> (string \<Rightarrow> KeyValue list) \<Rightarrow> (KeyValue list \<Rightarrow> KeyValue list)
    \<Rightarrow> (string \<Rightarrow> string \<Rightarrow> KeyValue list) \<Rightarrow> (string \<Rightarrow> string list \<Rightarrow> string) \<Rightarrow> job \<Rightarrow> job \<Rightarrow> bool"
  for enc dec sortf mapf reducef where
  ask: "GetTask now (coord s) = Some (c, task) \<Longrightarrow>
    jstep enc dec sortf mapf reducef s (s\<lparr>coord := c, held := (task, False) # held s\<rparr>)"
| run_map: "(task, False) \<in> set (held s) \<Longrightarrow> Type task = TaskTypeMap \<Longrightarrow>
    doMap enc mapf task (disk s) = Some fs \<Longrightarrow>
    jstep enc dec sortf mapf reducef s (s\<lparr>disk := fs, held := (task, True) # remove1 (task, False) (held s)\<rparr>)"
| run_reduce: "(task, False) \<in> set (held s) \<Longrightarrow> Type task = TaskTypeReduce \<Longrightarrow>
    jstep enc dec sortf mapf reducef s (s\<lparr>disk := doReduce dec sortf reducef task (disk s),
      held := (task, True) # remove1 (task, False) (held s)\<rparr>)"
| reportTask: "(task, True) \<in> set (held s) \<Longrightarrow> ReportTask (Type task) (Id task) (coord s) = Some (c, ok) \<Longrightarrow>
    jstep enc dec sortf mapf reducef s (s\<lparr>coord := c, held := remove1 (task, True) (held s)\<rparr>)"
| die: "h \<in> set (held s) \<Longrightarrow> jstep enc dec sortf mapf reducef s (s\<lparr>held := remove1 h (held s)\<rparr>)"
| tick: "jstep enc dec sortf mapf reducef s (s\<lparr>coord := checkTimeout now (coord s)\<rparr>)"

definition startJob :: "string list \<Rightarrow> nat \<Rightarrow> filesys \<Rightarrow> job" where
  "startJob fls nr fs = \<lparr>coord = MakeCoordinator fls nr, disk = fs, held = []\<rparr>"

text \<open>What the intermediate files and the output files of the job must hold.\<close>

definition mapOut :: "(string \<Rightarrow> string \<Rightarrow> KeyValue list) \<Rightarrow> filesys \<Rightarrow> string \<Rightarrow> KeyValue list" where
  "mapOut mapf fs f = (case fs f of None \<Rightarrow> [] | Some content \<Rightarrow> mapf f content)"

definition reduceIn :: "(string \<Rightarrow> string \<Rightarrow> KeyValue list) \<Rightarrow> filesys \<Rightarrow> string list \<Rightarrow> int \<Rightarrow> int \<Rightarrow> KeyValue list" where
  "reduceIn mapf fs fls nr r = concat (map (\<lambda>f. bucket nr r (mapOut mapf fs f)) fls)"

definition mapDone ::
  "(KeyValue list \<Rightarrow> string) \<Rightarrow> (string \<Rightarrow> string \<Rightarrow> KeyValue list) \<Rightarrow> filesys \<Rightarrow> string list \<Rightarrow> nat \<Rightarrow> filesys \<Rightarrow> int \<Rightarrow> bool" where
  "mapDone enc mapf fs0 fls nr fs i \<longleftrightarrow>
     (\<forall>r. 0 \<le> r \<and> r < int nr \<longrightarrow>
        fs (intermediateName i r) = Some (enc (bucket (int nr) r (mapOut mapf fs0 (fls ! nat i)))))"

definition reduceDone ::
  "(KeyValue list \<Rightarrow> KeyValue list) \<Rightarrow> (string \<Rightarrow> string \<Rightarrow> KeyValue list) \<Rightarrow> (string \<Rightarrow> string list \<Rightarrow> string)
    \<Rightarrow> filesys \<Rightarrow> string list \<Rightarrow> nat \<Rightarrow> filesys \<Rightarrow> int \<Rightarrow> bool" where
  "reduceDone sortf mapf reducef fs0 fls nr fs r \<longleftrightarrow>
     fs (outName r) = Some (concat (reduceLoop reducef (sortf (reduceIn mapf fs0 fls (int nr) r))))"

text \<open>The input files exist and are not among the files the job writes.\<close>

definition inputs_ok :: "string list \<Rightarrow> filesys \<Rightarrow> bool" where
  "inputs_ok fls fs \<longleftrightarrow>
     (\<forall>f \<in> set fls. fs f \<noteq> None \<and> (\<forall>m r. 0 \<le> m \<longrightarrow> 0 \<le> r \<longrightarrow> f \<noteq> intermediateName m r \<and> f \<noteq> outName r))"

definition task_ok :: "string list \<Rightarrow> nat \<Rightarrow> Coordinator \<Rightarrow> Task \<Rightarrow> bool" where
  "task_ok fls nr c task \<longleftrightarrow>
     (Type task = TaskTypeMap \<longrightarrow> 0 \<le> Id task \<and> Id task < int (length fls) \<and>
        InputFile task = fls ! nat (Id task) \<and> NReduce task = int nr) \<and>
     (Type task = TaskTypeReduce \<longrightarrow> 0 \<le> Id task \<and> Id task < int nr \<and> NMap task = int (length fls) \<and>
        phase c = ''reduce'')"

definition job_inv where
  "job_inv enc sortf mapf reducef fs0 fls nr s \<longleftrightarrow>
     coord_ok (coord s) \<and> advances (MakeCoordinator fls nr) (coord s) \<and>
     (\<forall>f \<in> set fls. disk s f = fs0 f) \<and>
     (\<forall>i \<in> completed (mapTasks (coord s)). mapDone enc mapf fs0 fls nr (disk s) i) \<and>
     (\<forall>r \<in> completed (reduceTasks (coord s)). reduceDone sortf mapf reducef fs0 fls nr (disk s) r) \<and>
     (\<forall>(task, ran) \<in> set (held s). task_ok fls nr (coord s) task \<and>
        (ran \<longrightarrow> (Type task = TaskTypeMap \<longrightarrow> mapDone enc mapf fs0 fls nr (disk s) (Id task)) \<and>
                (Type task = TaskTypeReduce \<longrightarrow> reduceDone sortf mapf reducef fs0 fls nr (disk s) (Id task))))"

lemma job_inv_held:
  assumes "job_inv enc sortf mapf reducef fs0 fls nr s" "(task, b) \<in> set (held s)"
  shows "task_ok fls nr (coord s) task"
    "b \<Longrightarrow> Type task = TaskTypeMap \<Longrightarrow> mapDone enc mapf fs0 fls nr (disk s) (Id task)"
    "b \<Longrightarrow> Type task = TaskTypeReduce \<Longrightarrow> reduceDone sortf mapf reducef fs0 fls nr (disk s) (Id task)"
  using assms unfolding job_inv_def by fastforce+

text \<open>A step that leaves the disk alone keeps the invariant when it completes only what was run.\<close>

lemma job_inv_coord:
  assumes inv: "job_inv enc sortf mapf reducef fs0 fls nr s"
    and c: "coord_ok c" "advances (coord s) c"
    and m: "\<And>i. i \<in> completed (mapTasks c) \<Longrightarrow> i \<notin> completed (mapTasks (coord s)) \<Longrightarrow>
      mapDone enc mapf fs0 fls nr (disk s) i"
    and r: "\<And>i. i \<in> completed (reduceTasks c) \<Longrightarrow> i \<notin> completed (reduceTasks (coord s)) \<Longrightarrow>
      reduceDone sortf mapf reducef fs0 fls nr (disk s) i"
    and h: "\<And>task ran. (task, ran) \<in> set hs \<Longrightarrow> (task, ran) \<notin> set (held s) \<Longrightarrow>
      task_ok fls nr c task \<and> \<not> ran"
  shows "job_inv enc sortf mapf reducef fs0 fls nr (s\<lparr>coord := c, held := hs\<rparr>)"
proof -
  have adv: "advances (MakeCoordinator fls nr) c"
    using inv c(2) advances_trans unfolding job_inv_def by blast
  have ph: "phase (coord s) = ''reduce'' \<longrightarrow> phase c = ''reduce''" using c(2) by (simp add: advances_def)
  have "task_ok fls nr c task \<and>
        (ran \<longrightarrow> (Type task = TaskTypeMap \<longrightarrow> mapDone enc mapf fs0 fls nr (disk s) (Id task)) \<and>
                (Type task = TaskTypeReduce \<longrightarrow> reduceDone sortf mapf reducef fs0 fls nr (disk s) (Id task)))"
    if "(task, ran) \<in> set hs" for task ran
  proof (cases "(task, ran) \<in> set (held s)")
    case True
    then have "task_ok fls nr (coord s) task \<and>
        (ran \<longrightarrow> (Type task = TaskTypeMap \<longrightarrow> mapDone enc mapf fs0 fls nr (disk s) (Id task)) \<and>
                (Type task = TaskTypeReduce \<longrightarrow> reduceDone sortf mapf reducef fs0 fls nr (disk s) (Id task)))"
      using inv unfolding job_inv_def by blast
    then show ?thesis using ph unfolding task_ok_def by blast
  next
    case False
    then show ?thesis using h that by blast
  qed
  then show ?thesis using inv c(1) adv m r unfolding job_inv_def by fastforce
qed

lemma disk_frame_map:
  assumes "0 \<le> Id task" "0 < nr" "NReduce task = int nr" "inputs_ok fls fs0" "\<forall>f \<in> set fls. fs f = fs0 f"
    "Id task < int (length fls)" "InputFile task = fls ! nat (Id task)" "doMap enc mapf task fs = Some fs'"
  shows "mapDone enc mapf fs0 fls nr fs' (Id task)" "\<forall>f \<in> set fls. fs' f = fs0 f"
    "\<And>j. 0 \<le> j \<Longrightarrow> mapDone enc mapf fs0 fls nr fs j \<Longrightarrow> mapDone enc mapf fs0 fls nr fs' j"
    "\<And>j. reduceDone sortf mapf reducef fs0 fls nr fs j \<Longrightarrow> reduceDone sortf mapf reducef fs0 fls nr fs' j"
proof -
  have mem: "InputFile task \<in> set fls" using assms(1,6,7) by (auto intro: nth_mem)
  then obtain content where ct: "fs (InputFile task) = Some content" "fs0 (InputFile task) = Some content"
    using assms(4,5) by (force simp: inputs_ok_def)
  from doMap_correct [where fs = fs and task = task and content = content and enc = enc and mapf = mapf]
    ct(1) assms(1-3,8)
  have w: "\<And>r. 0 \<le> r \<and> r < int nr \<Longrightarrow>
       fs' (intermediateName (Id task) r) = Some (enc (bucket (int nr) r (mapf (InputFile task) content)))"
    and o: "\<And>n. (\<forall>r. 0 \<le> r \<and> r < int nr \<longrightarrow> n \<noteq> intermediateName (Id task) r) \<Longrightarrow> fs' n = fs n"
    by auto
  show md: "mapDone enc mapf fs0 fls nr fs' (Id task)"
    using w ct(2) assms(7) by (simp add: mapDone_def mapOut_def)
  show "\<forall>f \<in> set fls. fs' f = fs0 f"
    using o assms(1,4,5) by (force simp: inputs_ok_def)
  show "mapDone enc mapf fs0 fls nr fs' j" if "0 \<le> j" "mapDone enc mapf fs0 fls nr fs j" for j
  proof (cases "j = Id task")
    case False
    have "fs' (intermediateName j r) = fs (intermediateName j r)" if "0 \<le> r" for r
      using False \<open>0 \<le> j\<close> assms(1) that by (intro o) (simp add: intermediateName_inject)
    then show ?thesis using that(2) by (simp add: mapDone_def)
  qed (use md in simp)
  show "reduceDone sortf mapf reducef fs0 fls nr fs' j" if "reduceDone sortf mapf reducef fs0 fls nr fs j" for j
  proof -
    have "fs' (outName j) = fs (outName j)"
      using intermediate_not_out [OF assms(1)] by (intro o) metis
    then show ?thesis using that by (simp add: reduceDone_def)
  qed
qed

lemma concat_map_upt_nth: "concat (map (\<lambda>i. f (xs ! i)) [0..<length xs]) = concat (map f xs)"
  using arg_cong [OF map_nth [of xs], of "\<lambda>ys. concat (map f ys)"] by (simp add: comp_def)

lemma disk_frame_reduce:
  assumes "\<And>p. dec (enc p) = p" "0 \<le> Id task" "Id task < int nr" "NMap task = int (length fls)"
    "inputs_ok fls fs0" "\<forall>f \<in> set fls. fs f = fs0 f"
    "\<And>i. 0 \<le> i \<Longrightarrow> i < int (length fls) \<Longrightarrow> mapDone enc mapf fs0 fls nr fs i"
    "fs' = doReduce dec sortf reducef task fs"
  shows "reduceDone sortf mapf reducef fs0 fls nr fs' (Id task)" "\<forall>f \<in> set fls. fs' f = fs0 f"
    "\<And>j. 0 \<le> j \<Longrightarrow> mapDone enc mapf fs0 fls nr fs j \<Longrightarrow> mapDone enc mapf fs0 fls nr fs' j"
    "\<And>j. 0 \<le> j \<Longrightarrow> reduceDone sortf mapf reducef fs0 fls nr fs j \<Longrightarrow> reduceDone sortf mapf reducef fs0 fls nr fs' j"
proof -
  have "(case fs (intermediateName (int i) (Id task)) of None \<Rightarrow> [] | Some content \<Rightarrow> dec content) =
      bucket (int nr) (Id task) (mapOut mapf fs0 (fls ! i))" if "i < length fls" for i
    using assms(7) [of "int i"] that assms(1-3) by (simp add: mapDone_def)
  then have m: "map (\<lambda>i. case fs (intermediateName (int i) (Id task)) of None \<Rightarrow> [] | Some content \<Rightarrow> dec content)
      [0..<length fls] = map (\<lambda>i. bucket (int nr) (Id task) (mapOut mapf fs0 (fls ! i))) [0..<length fls]"
    by simp
  have kva: "concat (map (\<lambda>i. case fs (intermediateName (int i) (Id task)) of None \<Rightarrow> [] | Some content \<Rightarrow> dec content)
      [0..<length fls]) = reduceIn mapf fs0 fls (int nr) (Id task)"
    unfolding m reduceIn_def by (rule concat_map_upt_nth)
  show rd: "reduceDone sortf mapf reducef fs0 fls nr fs' (Id task)"
    using kva assms(4,8) by (simp add: reduceDone_def doReduce_def)
  have o: "fs' n = fs n" if "n \<noteq> outName (Id task)" for n
    using that assms(8) by (simp add: doReduce_def Let_def)
  show "\<forall>f \<in> set fls. fs' f = fs0 f" using o assms(2,5,6) by (force simp: inputs_ok_def)
  show "mapDone enc mapf fs0 fls nr fs' j" if "0 \<le> j" "mapDone enc mapf fs0 fls nr fs j" for j
    using that o intermediate_not_out [OF that(1)] by (simp add: mapDone_def)
  show "reduceDone sortf mapf reducef fs0 fls nr fs' j"
    if "0 \<le> j" "reduceDone sortf mapf reducef fs0 fls nr fs j" for j
    using that o rd assms(2) by (cases "j = Id task") (auto simp: reduceDone_def outName_inject)
qed

text \<open>A step that runs a task keeps the invariant when it loses nothing that was done.\<close>

lemma job_inv_disk:
  assumes inv: "job_inv enc sortf mapf reducef fs0 fls nr s"
    and t: "(task, False) \<in> set (held s)"
    and ran: "Type task = TaskTypeMap \<Longrightarrow> mapDone enc mapf fs0 fls nr fs' (Id task)"
      "Type task = TaskTypeReduce \<Longrightarrow> reduceDone sortf mapf reducef fs0 fls nr fs' (Id task)"
    and inp: "\<forall>f \<in> set fls. fs' f = fs0 f"
    and m: "\<And>j. 0 \<le> j \<Longrightarrow> mapDone enc mapf fs0 fls nr (disk s) j \<Longrightarrow> mapDone enc mapf fs0 fls nr fs' j"
    and r: "\<And>j. 0 \<le> j \<Longrightarrow> reduceDone sortf mapf reducef fs0 fls nr (disk s) j \<Longrightarrow>
      reduceDone sortf mapf reducef fs0 fls nr fs' j"
  shows "job_inv enc sortf mapf reducef fs0 fls nr
    (s\<lparr>disk := fs', held := (task, True) # remove1 (task, False) (held s)\<rparr>)"
proof -
  have old: "task_ok fls nr (coord s) tk \<and>
        (b \<longrightarrow> (Type tk = TaskTypeMap \<longrightarrow> mapDone enc mapf fs0 fls nr (disk s) (Id tk)) \<and>
              (Type tk = TaskTypeReduce \<longrightarrow> reduceDone sortf mapf reducef fs0 fls nr (disk s) (Id tk)))"
    if "(tk, b) \<in> set (held s)" for tk b
    using inv that unfolding job_inv_def by blast
  have "task_ok fls nr (coord s) tk \<and>
        (b \<longrightarrow> (Type tk = TaskTypeMap \<longrightarrow> mapDone enc mapf fs0 fls nr fs' (Id tk)) \<and>
              (Type tk = TaskTypeReduce \<longrightarrow> reduceDone sortf mapf reducef fs0 fls nr fs' (Id tk)))"
    if "(tk, b) \<in> set ((task, True) # remove1 (task, False) (held s))" for tk b
  proof (cases "(tk, b) \<in> set (held s)")
    case True
    from old [OF True] m r show ?thesis unfolding task_ok_def by blast
  next
    case False
    then have "tk = task" "b = True" using that notin_set_remove1 by fastforce+
    then show ?thesis using old [OF t] ran by blast
  qed
  moreover have "0 \<le> i" if "i \<in> completed ts" for i ts using that by (simp add: completed_def)
  ultimately show ?thesis using inv inp m r unfolding job_inv_def by simp blast
qed

lemma job_inv_start: "job_inv enc sortf mapf reducef fs0 fls nr (startJob fls nr fs0)"
  using MakeCoordinator_ok [of fls nr]
  by (auto simp: job_inv_def startJob_def) (auto simp: completed_def MakeCoordinator_def)

lemma allCompleted_completed: "allCompleted ts \<longleftrightarrow> completed ts = {0..<int (length ts)}"
proof
  assume "completed ts = {0..<int (length ts)}"
  then have "Status (ts ! i) = TaskStatusCompleted" if "i < length ts" for i
    using that by (force simp: completed_def set_eq_iff dest: spec [of _ "int i"])
  then show "allCompleted ts" by (auto simp: allCompleted_def in_set_conv_nth)
qed (auto simp: allCompleted_def completed_def)

lemma job_inv_step:
  assumes "jstep enc dec sortf mapf reducef s t" "job_inv enc sortf mapf reducef fs0 fls nr s"
    and "\<And>p. dec (enc p) = p" "inputs_ok fls fs0" "0 < nr"
  shows "job_inv enc sortf mapf reducef fs0 fls nr t"
  using assms(1)
proof cases
  case (ask now c task)
  have ok: "coord_ok (coord s)" "advances (MakeCoordinator fls nr) (coord s)"
    using assms(2) by (auto simp: job_inv_def)
  note g = GetTask_ok [OF ok(1) ask(2)] GetTask_completed [OF ok(1) ask(2)] GetTask_task [OF ok ask(2)]
  show ?thesis unfolding ask(1)
    by (rule job_inv_coord [OF assms(2)]) (use g in \<open>auto simp: task_ok_def\<close>)
next
  case (run_map task fs)
  have tk: "task_ok fls nr (coord s) task" and inp: "\<forall>f \<in> set fls. disk s f = fs0 f"
    using assms(2) run_map(2) unfolding job_inv_def by auto
  then have bd: "0 \<le> Id task" "Id task < int (length fls)" "InputFile task = fls ! nat (Id task)"
    "NReduce task = int nr" using run_map(3) by (simp_all add: task_ok_def)
  note fr = disk_frame_map [OF bd(1) assms(5) bd(4) assms(4) inp bd(2,3) run_map(4)]
  show ?thesis unfolding run_map(1)
    by (rule job_inv_disk [OF assms(2) run_map(2)]) (use fr run_map(3) in auto)
next
  case (run_reduce task)
  have tk: "task_ok fls nr (coord s) task" and inp: "\<forall>f \<in> set fls. disk s f = fs0 f"
    and ok: "coord_ok (coord s)"
    and md: "\<forall>i \<in> completed (mapTasks (coord s)). mapDone enc mapf fs0 fls nr (disk s) i"
    and len: "length (mapTasks (coord s)) = length fls"
    using assms(2) run_reduce(2) unfolding job_inv_def
    by (auto simp: advances_def keeps_done_def MakeCoordinator_def)
  have bd: "0 \<le> Id task" "Id task < int nr" "NMap task = int (length fls)" "phase (coord s) = ''reduce''"
    using tk run_reduce(3) by (simp_all add: task_ok_def)
  have "completed (mapTasks (coord s)) = {0..<int (length fls)}"
    using ok bd(4) len by (simp add: coord_ok_def allCompleted_completed)
  then have all: "mapDone enc mapf fs0 fls nr (disk s) i" if "0 \<le> i" "i < int (length fls)" for i
    using md that by simp
  note fr = disk_frame_reduce [OF assms(3) bd(1-3) assms(4) inp all refl]
  show ?thesis unfolding run_reduce(1)
    by (rule job_inv_disk [OF assms(2) run_reduce(2)]) (use fr run_reduce(3) in auto)
next
  case (reportTask task c ok)
  have co: "coord_ok (coord s)" using assms(2) by (simp add: job_inv_def)
  have dn: "Type task = TaskTypeMap \<Longrightarrow> mapDone enc mapf fs0 fls nr (disk s) (Id task)"
    "Type task = TaskTypeReduce \<Longrightarrow> reduceDone sortf mapf reducef fs0 fls nr (disk s) (Id task)"
    using job_inv_held(2,3) [OF assms(2) reportTask(2)] by simp_all
  note g = ReportTask_ok [OF co reportTask(3)] ReportTask_completed [OF reportTask(3)]
  show ?thesis unfolding reportTask(1)
  proof (rule job_inv_coord [OF assms(2)])
    fix tk ran assume "(tk, ran) \<in> set (remove1 (task, True) (held s))" "(tk, ran) \<notin> set (held s)"
    then show "task_ok fls nr c tk \<and> \<not> ran" using notin_set_remove1 by metis
  qed (use g dn in \<open>auto split: if_splits\<close>)
next
  case (die h)
  have "job_inv enc sortf mapf reducef fs0 fls nr (s\<lparr>coord := coord s, held := remove1 h (held s)\<rparr>)"
  proof (rule job_inv_coord [OF assms(2)])
    fix tk ran assume "(tk, ran) \<in> set (remove1 h (held s))" "(tk, ran) \<notin> set (held s)"
    then show "task_ok fls nr (coord s) tk \<and> \<not> ran" using notin_set_remove1 by metis
  qed (use assms(2) in \<open>auto simp: job_inv_def\<close>)
  then show ?thesis using die by simp
next
  case (tick now)
  have co: "coord_ok (coord s)" using assms(2) by (simp add: job_inv_def)
  have "job_inv enc sortf mapf reducef fs0 fls nr (s\<lparr>coord := checkTimeout now (coord s), held := held s\<rparr>)"
    by (rule job_inv_coord [OF assms(2)])
      (use checkTimeout_ok [OF co] checkTimeout_completed [of now "coord s"] in auto)
  then show ?thesis using tick by simp
qed

lemma job_inv_reach:
  assumes "(jstep enc dec sortf mapf reducef)\<^sup>*\<^sup>* (startJob fls nr fs0) s"
    and "\<And>p. dec (enc p) = p" "inputs_ok fls fs0" "0 < nr"
  shows "job_inv enc sortf mapf reducef fs0 fls nr s"
  using assms(1)
proof (induction rule: rtranclp_induct)
  case (step s t)
  from job_inv_step [OF step.hyps(2) step.IH assms(2-4)] show ?case .
qed (rule job_inv_start)

subsection \<open>The distributed job computes what the sequential program computes\<close>

definition allKv :: "(string \<Rightarrow> string \<Rightarrow> KeyValue list) \<Rightarrow> filesys \<Rightarrow> string list \<Rightarrow> KeyValue list" where
  "allKv mapf fs fls = concat (map (mapOut mapf fs) fls)"

lemma mapFiles_all: "\<forall>f \<in> set fls. fs f \<noteq> None \<Longrightarrow> mapFiles mapf fs fls = Some (allKv mapf fs fls)"
  by (induction fls) (auto simp: allKv_def mapOut_def)

lemma reduceIn_bucket: "reduceIn mapf fs fls nr r = bucket nr r (allKv mapf fs fls)"
  by (simp add: reduceIn_def allKv_def bucket_def filter_concat comp_def)

lemma keys_bucket: "keys (bucket nr r kva) = {k \<in> keys kva. ihash k mod nr = r}"
  by (auto simp: bucket_def)

lemma outLine_bucket:
  assumes "ihash k mod nr = r"
  shows "outLine reducef (bucket nr r kva) k = outLine reducef kva k"
proof -
  have "filter (\<lambda>x. ihash (Key x) mod nr = r \<and> Key x = k) kva = filter (\<lambda>x. Key x = k) kva"
    using assms by (intro filter_cong) auto
  then show ?thesis by (simp add: outLine_def valuesOf_def bucket_def)
qed

lemma buckets_cover:
  fixes kva :: "KeyValue list" and nr :: int
  shows "(\<Sum>r \<leftarrow> [0..<n]. mset_set {k \<in> keys kva. ihash k mod nr = int r}) =
     mset_set {k \<in> keys kva. ihash k mod nr \<in> int ` {0..<n}}"
proof (induction n)
  case (Suc n)
  let ?A = "{k \<in> keys kva. ihash k mod nr \<in> int ` {0..<n}}" and ?B = "{k \<in> keys kva. ihash k mod nr = int n}"
  have "mset_set (?A \<union> ?B) = mset_set ?A + mset_set ?B"
    by (rule mset_set_Union) auto
  moreover have "?A \<union> ?B = {k \<in> keys kva. ihash k mod nr \<in> int ` {0..<Suc n}}"
    by (auto simp: less_Suc_eq)
  ultimately show ?case using Suc by simp
qed simp

lemma mset_sorted_list: "finite A \<Longrightarrow> mset (sorted_list_of_set A) = mset_set A"
  using mset_set_set [of "sorted_list_of_set A"] by simp

context by_key_sort
begin

lemma distributed_lines:
  assumes "order_blind reducef" "0 < nr"
  shows "mset (concat (map (\<lambda>r. reduceLoop reducef (sortf (bucket (int nr) (int r) kva))) [0..<nr])) =
    image_mset (outLine reducef kva) (mset_set (keys kva))"
proof -
  have line: "mset (reduceLoop reducef (sortf (bucket (int nr) (int r) kva))) =
      image_mset (outLine reducef kva) (mset_set {k \<in> keys kva. ihash k mod int nr = int r})" for r
  proof -
    let ?b = "bucket (int nr) (int r) kva"
    have "mset (reduceLoop reducef (sortf ?b)) = image_mset (outLine reducef ?b) (mset_set (keys ?b))"
      using reduce_lines [OF assms(1), of ?b] by (simp add: mset_sorted_list)
    also have "\<dots> = image_mset (outLine reducef kva) (mset_set (keys ?b))"
      by (rule image_mset_cong) (simp add: keys_bucket outLine_bucket)
    finally show ?thesis by (simp add: keys_bucket)
  qed
  have sum: "(\<Sum>r \<leftarrow> rs. image_mset f (M r)) = image_mset f (\<Sum>r \<leftarrow> rs. M r)"
    for f :: "string \<Rightarrow> string" and M :: "nat \<Rightarrow> string multiset" and rs
    by (induction rs) auto
  have "ihash k mod int nr \<in> int ` {0..<nr}" for k
  proof -
    have "0 \<le> ihash k mod int nr" "ihash k mod int nr < int nr" using assms(2) by simp_all
    then show ?thesis by (intro image_eqI [of _ _ "nat (ihash k mod int nr)"]) auto
  qed
  then have all: "{k \<in> keys kva. ihash k mod int nr \<in> int ` {0..<nr}} = keys kva" by blast
  have "mset (concat (map (\<lambda>r. reduceLoop reducef (sortf (bucket (int nr) (int r) kva))) [0..<nr])) =
      (\<Sum>r \<leftarrow> [0..<nr]. image_mset (outLine reducef kva) (mset_set {k \<in> keys kva. ihash k mod int nr = int r}))"
    by (simp add: mset_concat line comp_def)
  also have "\<dots> = image_mset (outLine reducef kva) (mset_set (keys kva))"
    unfolding sum buckets_cover all ..
  finally show ?thesis .
qed

lemma distributed_total:
  assumes "order_blind reducef" "0 < nr"
  shows "mset (concat (map (\<lambda>r. reduceLoop reducef (sortf (bucket (int nr) (int r) kva))) [0..<nr])) =
    mset (reduceLoop reducef (sortf kva))"
  using distributed_lines [OF assms, of kva] reduce_lines [OF assms(1), of kva] by (simp add: mset_sorted_list)

end

text \<open>When the coordinator reports that the job is done, each output file holds what its reduce task computes from all inputs.\<close>

lemma job_output:
  assumes "(jstep enc dec sortf mapf reducef)\<^sup>*\<^sup>* (startJob fls nr fs0) s" "Done (coord s)"
    and "\<And>p. dec (enc p) = p" "inputs_ok fls fs0" "r < nr"
  shows "disk s (outName (int r)) = Some (concat (reduceLoop reducef (sortf (bucket (int nr) (int r) (allKv mapf fs0 fls)))))"
proof -
  have inv: "job_inv enc sortf mapf reducef fs0 fls nr s" using assms(5) by (intro job_inv_reach [OF assms(1,3,4)]) simp
  have "completed (reduceTasks (coord s)) = {0..<int nr}"
    using inv assms(2) unfolding job_inv_def
    by (auto simp: coord_ok_def Done_def allCompleted_completed advances_def keeps_done_def MakeCoordinator_def)
  then have "reduceDone sortf mapf reducef fs0 fls nr (disk s) (int r)" using inv assms(5) unfolding job_inv_def by force
  then show ?thesis by (simp add: reduceDone_def reduceIn_bucket)
qed


text \<open>
  The applications that the tests compare with the sequential program do not depend on the
  order of their values: word count, the indexer, and the crash test.
\<close>

lemma applications_order_blind:
  "order_blind wcReduce \<and> order_blind indexerReduce \<and> order_blind nocrashReduce \<and> order_blind earlyExitReduce"
proof -
  have len: "length vs = length ws" if "mset vs = mset ws" for vs ws :: "string list"
    using that by (rule mset_eq_length)
  have srt: "sort vs = sort ws" if "mset vs = mset ws" for vs ws :: "string list"
    using that by (intro properties_for_sort) simp_all
  show ?thesis
    unfolding order_blind_def wcReduce_def indexerReduce_def nocrashReduce_def earlyExitReduce_def
    by (intro conjI allI impI; frule len; drule srt; simp)
qed

text \<open>A codec and a run that satisfy the hypotheses of the end-to-end theorem.\<close>

definition encStr :: "string \<Rightarrow> string" where
  "encStr s = replicate (length s) CHR ''p'' @ CHR '';'' # s"

definition encKv :: "KeyValue list \<Rightarrow> string" where
  "encKv kva = concat (map (\<lambda>kv. encStr (Key kv) @ encStr (kvValue kv)) kva)"

definition decStr :: "string \<Rightarrow> string \<times> string" where
  "decStr cs = (let n = length (takeWhile (\<lambda>c. c = CHR ''p'') cs); rest = drop (Suc n) cs in (take n rest, drop n rest))"

lemma decStr_encStr: "decStr (encStr s @ cs) = (s, cs)"
proof -
  have "takeWhile (\<lambda>c. c = CHR ''p'') (replicate n CHR ''p'' @ CHR '';'' # xs) = replicate n CHR ''p''" for n xs
    by (induction n) auto
  then show ?thesis by (simp add: decStr_def encStr_def Let_def)
qed

lemma decStr_shorter: "cs \<noteq> [] \<Longrightarrow> length (snd (decStr cs)) < length cs"
  by (cases cs) (auto simp: decStr_def Let_def)

function decKv :: "string \<Rightarrow> KeyValue list" where
  "decKv cs =
     (if cs = [] then []
      else case decStr cs of (k, r) \<Rightarrow> (case decStr r of (v, r') \<Rightarrow> \<lparr>Key = k, kvValue = v\<rparr> # decKv r'))"
  by pat_completeness auto
termination
proof (relation "measure length", goal_cases)
  case (2 cs k r v r')
  have "length (snd (decStr r)) \<le> length r" by (cases "r = []") (auto simp: decStr_def dest: decStr_shorter)
  then show ?case using decStr_shorter [OF 2(1)] 2(2,3) by (metis in_measure le_less_trans snd_conv)
qed simp

declare decKv.simps [simp del]

lemma decKv_encKv: "decKv (encKv kva) = kva"
proof (induction kva)
  case (Cons kv kva)
  have eq: "encKv (kv # kva) = encStr (Key kv) @ (encStr (kvValue kv) @ encKv kva)" by (simp add: encKv_def)
  have "encStr (Key kv) \<noteq> []" by (simp add: encStr_def)
  then show ?case unfolding eq by (subst decKv.simps) (simp add: decStr_encStr Cons)
qed (simp add: encKv_def decKv.simps)

lemma run_done:
  "\<exists>s. (jstep encKv decKv (sort_key Key) nocrashMap nocrashReduce)\<^sup>*\<^sup>*
      (startJob [''in''] 1 [''in'' \<mapsto> ''hello'']) s \<and> Done (coord s)"
proof -
  let ?J = "jstep encKv decKv (sort_key Key) nocrashMap nocrashReduce"
  let ?ip = "\<lparr>Status = TaskStatusInProgress, StartTime = 0\<rparr>"
  let ?cp = "\<lparr>Status = TaskStatusCompleted, StartTime = 0\<rparr>"
  let ?id = "\<lparr>Status = TaskStatusIdle, StartTime = 0\<rparr>"
  let ?c = "\<lambda>m r p d. \<lparr>files = [''in''], nReduce = 1, nMap = 1, mapTasks = [m], reduceTasks = [r], phase = p, done' = d\<rparr>"
  let ?m = "\<lparr>Type = TaskTypeMap, Id = 0, InputFile = ''in'', NReduce = 1, NMap = 1\<rparr>"
  let ?r = "\<lparr>Type = TaskTypeReduce, Id = 0, InputFile = [], NReduce = 1, NMap = 1\<rparr>"
  let ?d0 = "[''in'' \<mapsto> ''hello'']"
  note defs = GetTask_def getReduceTask_def ReportTask_def completeTask_def findIdleTask_def Let_def emptyTask_def
  have s0: "startJob [''in''] 1 ?d0 = \<lparr>coord = ?c ?id ?id ''map'' False, disk = ?d0, held = []\<rparr>"
    by (simp add: startJob_def MakeCoordinator_def)
  have s1: "?J \<lparr>coord = ?c ?id ?id ''map'' False, disk = ?d0, held = []\<rparr>
      \<lparr>coord = ?c ?ip ?id ''map'' False, disk = ?d0, held = [(?m, False)]\<rparr>"
    using jstep.ask [of 0 "\<lparr>coord = ?c ?id ?id ''map'' False, disk = ?d0, held = []\<rparr>" "?c ?ip ?id ''map'' False" ?m]
    by (simp add: defs)
  obtain d1 where d1: "doMap encKv nocrashMap ?m ?d0 = Some d1"
    using doMap_correct [of ?d0 ?m "''hello''" encKv nocrashMap] by auto
  have s2: "?J \<lparr>coord = ?c ?ip ?id ''map'' False, disk = ?d0, held = [(?m, False)]\<rparr>
      \<lparr>coord = ?c ?ip ?id ''map'' False, disk = d1, held = [(?m, True)]\<rparr>"
    using jstep.run_map [of ?m "\<lparr>coord = ?c ?ip ?id ''map'' False, disk = ?d0, held = [(?m, False)]\<rparr>" encKv nocrashMap d1]
      d1 by simp
  have s3: "?J \<lparr>coord = ?c ?ip ?id ''map'' False, disk = d1, held = [(?m, True)]\<rparr>
      \<lparr>coord = ?c ?cp ?id ''map'' False, disk = d1, held = []\<rparr>"
    using jstep.reportTask [of ?m "\<lparr>coord = ?c ?ip ?id ''map'' False, disk = d1, held = [(?m, True)]\<rparr>"
        "?c ?cp ?id ''map'' False" True] by (simp add: defs)
  have s4: "?J \<lparr>coord = ?c ?cp ?id ''map'' False, disk = d1, held = []\<rparr>
      \<lparr>coord = ?c ?cp ?ip ''reduce'' False, disk = d1, held = [(?r, False)]\<rparr>"
    using jstep.ask [of 0 "\<lparr>coord = ?c ?cp ?id ''map'' False, disk = d1, held = []\<rparr>" "?c ?cp ?ip ''reduce'' False" ?r]
    by (simp add: defs)
  define d2 where "d2 = doReduce decKv (sort_key Key) nocrashReduce ?r d1"
  have s5: "?J \<lparr>coord = ?c ?cp ?ip ''reduce'' False, disk = d1, held = [(?r, False)]\<rparr>
      \<lparr>coord = ?c ?cp ?ip ''reduce'' False, disk = d2, held = [(?r, True)]\<rparr>"
    using jstep.run_reduce [of ?r "\<lparr>coord = ?c ?cp ?ip ''reduce'' False, disk = d1, held = [(?r, False)]\<rparr>"
        encKv decKv "sort_key Key" nocrashMap nocrashReduce]
    by (simp add: d2_def)
  have s6: "?J \<lparr>coord = ?c ?cp ?ip ''reduce'' False, disk = d2, held = [(?r, True)]\<rparr>
      \<lparr>coord = ?c ?cp ?cp ''reduce'' False, disk = d2, held = []\<rparr>"
    using jstep.reportTask [of ?r "\<lparr>coord = ?c ?cp ?ip ''reduce'' False, disk = d2, held = [(?r, True)]\<rparr>"
        "?c ?cp ?cp ''reduce'' False" True] by (simp add: defs)
  have s7: "?J \<lparr>coord = ?c ?cp ?cp ''reduce'' False, disk = d2, held = []\<rparr>
      \<lparr>coord = ?c ?cp ?cp ''reduce'' True, disk = d2, held = [(emptyTask TaskTypeDone, False)]\<rparr>"
    using jstep.ask [of 0 "\<lparr>coord = ?c ?cp ?cp ''reduce'' False, disk = d2, held = []\<rparr>" "?c ?cp ?cp ''reduce'' True"
        "emptyTask TaskTypeDone"] by (simp add: defs)
  have "?J\<^sup>*\<^sup>* (startJob [''in''] 1 ?d0)
      \<lparr>coord = ?c ?cp ?cp ''reduce'' True, disk = d2, held = [(emptyTask TaskTypeDone, False)]\<rparr>"
    unfolding s0 using s1 s2 s3 s4 s5 s6 s7 by (meson rtranclp.rtrancl_into_rtrancl rtranclp.rtrancl_refl)
  moreover have "Done (coord \<lparr>coord = ?c ?cp ?cp ''reduce'' True, disk = d2, held = [(emptyTask TaskTypeDone, False)]\<rparr>)"
    by (simp add: Done_def)
  ultimately show ?thesis by blast
qed


end
