(* ===== verification/MrTest.thy ===== *)
theory MrTest
  imports MapReduce
begin

text \<open>
  The MapReduce tests: \<open>mr/util.go\<close> with the programs it runs, and the applications of \<open>mrapps/\<close> that crash or leave marker
  files. A file system holds the names as a worker sees them, whose directory is \<open>tmp\<close>; the tests see the same files
  from the directory above. The programs \<open>find\<close>, \<open>sort\<close> and \<open>cmp\<close> and the regular expressions are
  arguments; \<open>None\<close> is \<open>log.Fatalf\<close>, a panic or a test that fails.
\<close>

subsection \<open>Paths and the programs the tests run\<close>

definition JoinPath :: "string \<Rightarrow> string \<Rightarrow> string" where
  "JoinPath dir name = dir @ ''/'' @ name"

text \<open>The name that a path of the tests has for a worker in \<open>tmp\<close>.\<close>

definition fromTmp :: "string \<Rightarrow> string \<Rightarrow> string" where
  "fromTmp tmp p = (if take (length tmp + 1) p = tmp @ ''/'' then drop (length tmp + 1) p else ''../'' @ p)"

lemma fromTmp_Join [simp]: "fromTmp tmp (JoinPath tmp name) = name"
  by (simp add: fromTmp_def JoinPath_def)

text \<open>
  \<open>find\<close> prints what it finds, \<open>sort\<close> reads the contents of its files, \<open>cmp\<close> compares two contents.
\<close>

record tools =
  findProg :: "string \<Rightarrow> string \<Rightarrow> filesys \<Rightarrow> string option"
  sortProg :: "string list \<Rightarrow> string"
  cmpProg :: "string \<Rightarrow> string \<Rightarrow> bool"

definition isSpace :: "char \<Rightarrow> bool" where
  "isSpace c \<longleftrightarrow> c \<in> {CHR 0x09, CHR 0x0A, CHR 0x0B, CHR 0x0C, CHR 0x0D, CHR '' ''}"

definition TrimSpace :: "string \<Rightarrow> string" where
  "TrimSpace s = rev (dropWhile isSpace (rev (dropWhile isSpace s)))"

fun SplitAt :: "char \<Rightarrow> string \<Rightarrow> string list" where
  "SplitAt c [] = [[]]"
| "SplitAt c (x # xs) =
     (if x = c then [] # SplitAt c xs else (case SplitAt c xs of [] \<Rightarrow> [[x]] | w # ws \<Rightarrow> (x # w) # ws))"

definition findFiles :: "tools \<Rightarrow> string \<Rightarrow> string \<Rightarrow> filesys \<Rightarrow> string list option" where
  "findFiles unix dir s fs =
     do {
       output \<leftarrow> findProg unix dir s fs;
       let s1 = TrimSpace output;
       Some (if s1 = [] then [] else SplitAt (CHR 0x0A) s1)
     }"

definition findFilesPre :: "tools \<Rightarrow> string \<Rightarrow> string \<Rightarrow> string \<Rightarrow> filesys \<Rightarrow> string list option" where
  "findFilesPre unix dir s pre fs = do { fls \<leftarrow> findFiles unix dir s fs; Some (map (JoinPath ''..'') fls) }"

text \<open>\<open>sort\<close> on the files of its command line; it fails on a file that does not exist.\<close>

fun readAll :: "string \<Rightarrow> filesys \<Rightarrow> string list \<Rightarrow> string list option" where
  "readAll tmp fs [] = Some []"
| "readAll tmp fs (f # fls) = do { c \<leftarrow> fs (fromTmp tmp f); cs \<leftarrow> readAll tmp fs fls; Some (c # cs) }"

definition mkCorrectOutput ::
  "tools \<Rightarrow> string \<Rightarrow> (string list \<Rightarrow> filesys \<Rightarrow> filesys option) \<Rightarrow> string list \<Rightarrow> string \<Rightarrow> filesys \<Rightarrow> filesys option" where
  "mkCorrectOutput unix tmp app fls out fs =
     do {
       fs1 \<leftarrow> app fls fs;
       let outFile = fromTmp tmp (JoinPath tmp out);
       let fs2 = fs1(outFile \<mapsto> []);
       cs \<leftarrow> readAll tmp fs2 [JoinPath tmp ''mr-out-0''];
       let fs3 = fs2(outFile \<mapsto> sortProg unix cs);
       if fs3 (fromTmp tmp (JoinPath tmp ''mr-out-0'')) = None then None
       else Some (fs3(fromTmp tmp (JoinPath tmp ''mr-out-0'') := None))
     }"

definition mergeOutput :: "tools \<Rightarrow> string \<Rightarrow> string \<Rightarrow> filesys \<Rightarrow> filesys option" where
  "mergeOutput unix tmp out fs =
     do {
       fls \<leftarrow> findFiles unix tmp ''mr-out-[0-9]'' fs;
       if length fls < 1 then None
       else do {
         let outFile = fromTmp tmp (JoinPath tmp out);
         let fs1 = fs(outFile \<mapsto> []);
         cs \<leftarrow> readAll tmp fs1 fls;
         Some (fs1(outFile \<mapsto> sortProg unix cs))
       }
     }"

definition runCmp :: "tools \<Rightarrow> string \<Rightarrow> string \<Rightarrow> filesys \<Rightarrow> unit option" where
  "runCmp unix f1 f2 fs =
     do { a \<leftarrow> fs f1; b \<leftarrow> fs f2; if cmpProg unix a b then Some () else None }"

fun removeFiles :: "string \<Rightarrow> string list \<Rightarrow> filesys \<Rightarrow> filesys" where
  "removeFiles tmp [] fs = fs"
| "removeFiles tmp (f # fls) fs = removeFiles tmp fls (fs(fromTmp tmp f := None))"

definition cleanupTmp :: "tools \<Rightarrow> string \<Rightarrow> filesys \<Rightarrow> filesys option" where
  "cleanupTmp unix tmp fs = do { fls \<leftarrow> findFiles unix tmp ''mr-*'' fs; Some (removeFiles tmp fls fs) }"

text \<open>\<open>FindAllString\<close> is an argument, \<open>None\<close> a pattern that does not compile.\<close>

definition countPatternFile :: "(string \<Rightarrow> string \<Rightarrow> string list option) \<Rightarrow> string \<Rightarrow> string \<Rightarrow> string \<Rightarrow> filesys \<Rightarrow> nat option" where
  "countPatternFile findAll tmp f p fs =
     do { content \<leftarrow> fs (fromTmp tmp f); m \<leftarrow> findAll p content; Some (length m) }"

fun countPattern :: "(string \<Rightarrow> string \<Rightarrow> string list option) \<Rightarrow> string \<Rightarrow> string list \<Rightarrow> string \<Rightarrow> filesys \<Rightarrow> nat option" where
  "countPattern findAll tmp [] p fs = Some 0"
| "countPattern findAll tmp (f # fls) p fs =
     do { n \<leftarrow> countPatternFile findAll tmp f p fs; m \<leftarrow> countPattern findAll tmp fls p fs; Some (n + m) }"

text \<open>The command line that \<open>runMRchan\<close> gives the coordinator, and what \<open>main/mrcoordinator.go\<close> makes of it.\<close>

definition coordArgs :: "string \<Rightarrow> string list \<Rightarrow> string list" where
  "coordArgs sock fls = [''../main/mrcoordinator''] @ sock # fls"

definition mrcoordinator :: "string list \<Rightarrow> Coordinator option" where
  "mrcoordinator args = (if length args < 3 then None else Some (MakeCoordinator (drop 2 args) 10))"

definition workerArgs :: "string \<Rightarrow> string \<Rightarrow> string list" where
  "workerArgs app sock = ''../../main/mrworker'' # [app] @ [sock]"

subsection \<open>Lines and lists of files\<close>

definition textLines :: "string \<Rightarrow> string list" where
  "textLines s = (let ws = SplitAt (CHR 0x0A) s in if last ws = [] then butlast ws else ws)"

lemma SplitAt_not_Nil [simp]: "SplitAt c xs \<noteq> []"
  by (induction xs) (auto split: list.splits)

lemma SplitAt_sep: "SplitAt c (xs @ c # ys) = SplitAt c xs @ SplitAt c ys"
proof (induction xs)
  case (Cons x xs)
  then show ?case by (cases "SplitAt c xs") auto
qed simp

lemma SplitAt_word: "c \<notin> set xs \<Longrightarrow> SplitAt c xs = [xs]"
  by (induction xs) auto

lemma textLines_Nil [simp]: "textLines [] = []"
  by (simp add: textLines_def)

lemma textLines_line: "textLines (xs @ [CHR 0x0A] @ ys) = SplitAt (CHR 0x0A) xs @ textLines ys"
  by (simp add: textLines_def SplitAt_sep butlast_append Let_def)

lemma textLines_concat:
  assumes "\<forall>l \<in> set ls. \<exists>xs. l = xs @ [CHR 0x0A]"
  shows "textLines (concat ls) = concat (map textLines ls)"
  using assms
proof (induction ls)
  case (Cons l ls)
  then obtain xs where l: "l = xs @ [CHR 0x0A]" by auto
  have "textLines (concat (l # ls)) = SplitAt (CHR 0x0A) xs @ textLines (concat ls)"
    using textLines_line [of xs "concat ls"] l by simp
  moreover have "textLines l = SplitAt (CHR 0x0A) xs" using textLines_line [of xs "[]"] l by simp
  ultimately show ?case using Cons by simp
qed simp

lemma reduceLoop_lines: "\<forall>l \<in> set (reduceLoop reducef kva). \<exists>xs. l = xs @ [CHR 0x0A]"
proof (induction reducef kva rule: reduceLoop.induct)
  case (2 reducef kv kva)
  have "\<exists>xs. Key kv @ '' '' @ out @ [CHR 0x0A] = xs @ [CHR 0x0A]" for out
    by (rule exI [of _ "Key kv @ '' '' @ out"]) simp
  then show ?case using 2 by (simp add: Let_def)
qed simp

definition found :: "string list \<Rightarrow> string" where
  "found ps = concat (map (\<lambda>p. p @ [CHR 0x0A]) ps)"

definition word :: "string \<Rightarrow> bool" where
  "word p \<longleftrightarrow> p \<noteq> [] \<and> (\<forall>c \<in> set p. \<not> isSpace c)"

lemma word_ends: "word p \<Longrightarrow> dropWhile isSpace (p @ xs) = p @ xs" "word p \<Longrightarrow> dropWhile isSpace (rev p @ xs) = rev p @ xs"
proof -
  show "word p \<Longrightarrow> dropWhile isSpace (p @ xs) = p @ xs" by (cases p) (auto simp: word_def)
  show "word p \<Longrightarrow> dropWhile isSpace (rev p @ xs) = rev p @ xs" by (cases p rule: rev_cases) (auto simp: word_def)
qed

lemma TrimSpace_found:
  assumes "\<forall>p \<in> set (ps @ [p]). word p"
  shows "TrimSpace (found (ps @ [p])) = found ps @ p"
proof -
  have "\<exists>q xs. word q \<and> found (ps @ [p]) = q @ xs" using assms by (cases ps) (auto simp: found_def)
  then have "dropWhile isSpace (found (ps @ [p])) = found (ps @ [p])" using word_ends(1) by auto
  moreover have "isSpace (CHR 0x0A)" by (simp add: isSpace_def)
  ultimately show ?thesis using word_ends(2) [of p "rev (found ps)"] assms by (simp add: TrimSpace_def found_def)
qed

lemma SplitAt_found:
  assumes "\<forall>p \<in> set (ps @ [p]). word p"
  shows "SplitAt (CHR 0x0A) (found ps @ p) = ps @ [p]"
  using assms
proof (induction ps)
  case Nil
  then show ?case by (intro trans [OF SplitAt_word]) (auto simp: word_def found_def isSpace_def)
next
  case (Cons q ps)
  have "SplitAt (CHR 0x0A) (q @ CHR 0x0A # (found ps @ p)) = [q] @ SplitAt (CHR 0x0A) (found ps @ p)"
    unfolding SplitAt_sep using Cons.prems SplitAt_word [of "CHR 0x0A" q] by (auto simp: word_def isSpace_def)
  then show ?case using Cons by (simp add: found_def)
qed

text \<open>The list of files that \<open>find\<close> printed is read back.\<close>

lemma findFiles_found:
  assumes "findProg unix dir s fs = Some (found ps)" "\<forall>p \<in> set ps. word p"
  shows "findFiles unix dir s fs = Some ps"
proof (cases ps rule: rev_cases)
  case Nil
  then show ?thesis using assms(1) by (simp add: findFiles_def found_def TrimSpace_def)
next
  case (snoc qs q)
  have "TrimSpace (found ps) = found qs @ q" "q \<noteq> []" "SplitAt (CHR 0x0A) (found qs @ q) = ps"
    using TrimSpace_found [of qs q] SplitAt_found [of qs q] assms(2) snoc by (auto simp: word_def)
  then show ?thesis using assms(1) by (simp add: findFiles_def)
qed

lemma readAll_all: "\<forall>p \<in> set ps. fs (fromTmp tmp p) \<noteq> None \<Longrightarrow> readAll tmp fs ps = Some (map (\<lambda>p. the (fs (fromTmp tmp p))) ps)"
  by (induction ps) auto

subsection \<open>The tests that compare with the sequential program pass\<close>

definition digitFiles :: "string \<Rightarrow> filesys \<Rightarrow> string set" where
  "digitFiles tmp fs = {JoinPath tmp (''mr-out-'' @ [d]) | d. d \<in> set ''0123456789'' \<and> fs (''mr-out-'' @ [d]) \<noteq> None}"

text \<open>
  What the programs are documented to do: \<open>find\<close> prints each file that matches on a line, in any order; what \<open>sort\<close> prints depends only
  on the lines it is given; \<open>cmp\<close> accepts a file compared with an equal one.
\<close>

definition tools_ok :: "string \<Rightarrow> tools \<Rightarrow> bool" where
  "tools_ok tmp unix \<longleftrightarrow>
     (\<forall>fs. \<exists>ps. findProg unix tmp ''mr-out-[0-9]'' fs = Some (found ps) \<and> distinct ps \<and> set ps = digitFiles tmp fs) \<and>
     (\<forall>cs ds. mset (concat (map textLines cs)) = mset (concat (map textLines ds)) \<longrightarrow> sortProg unix cs = sortProg unix ds) \<and>
     (\<forall>c. cmpProg unix c c)"

definition ten :: "string list" where
  "ten = map (\<lambda>r. outName (int r)) [0..<10]"

lemma ten_digits: "ten = map (\<lambda>d. ''mr-out-'' @ [d]) ''0123456789''"
  unfolding ten_def by code_simp

lemma distinct_ten: "distinct ten"
  by (simp add: ten_digits)

text \<open>What a job writes: intermediate files and outputs.\<close>

definition jobFile :: "string \<Rightarrow> bool" where
  "jobFile f \<longleftrightarrow> (\<exists>m r. f = intermediateName m r \<or> f = outName r)"

lemma job_frame:
  assumes "(jstep enc dec sortf mapf reducef)\<^sup>*\<^sup>* s t" "\<not> jobFile f"
  shows "disk t f = disk s f"
  using assms(1)
proof (induction rule: rtranclp_induct)
  case (step t u)
  have w: "foldl (\<lambda>fs i. fs(intermediateName m (int i) \<mapsto> v i)) d [0..<k] f = d f" for m k d and v :: "nat \<Rightarrow> string"
    using assms(2) by (intro write_files_other) (auto simp: jobFile_def)
  have "disk u f = disk t f"
    using step.hyps(2)
  proof cases
    case (run_map task fs)
    then show ?thesis using w by (auto simp: doMap_def bind_eq_Some_conv)
  next
    case (run_reduce task)
    then show ?thesis using assms(2) by (auto simp: doReduce_def Let_def jobFile_def)
  qed auto
  then show ?case using step.IH by simp
qed simp

subsection \<open>One worker can finish a job\<close>

abbreviation idleTask :: TaskInfo where "idleTask \<equiv> \<lparr>Status = TaskStatusIdle, StartTime = 0\<rparr>"
abbreviation inProgress :: TaskInfo where "inProgress \<equiv> \<lparr>Status = TaskStatusInProgress, StartTime = 0\<rparr>"
abbreviation doneTask :: TaskInfo where "doneTask \<equiv> \<lparr>Status = TaskStatusCompleted, StartTime = 0\<rparr>"

definition progress :: "nat \<Rightarrow> nat \<Rightarrow> TaskInfo list" where
  "progress n k = replicate k doneTask @ replicate (n - k) idleTask"

lemma progress_scan:
  assumes "k \<le> n"
  shows "findIdleTask (progress n k) = (if k = n then -1 else int k)" "\<not> someInProgress (progress n k)"
proof -
  have "findIdleFrom i (replicate k doneTask @ ts) = findIdleFrom (i + int k) ts" for i ts
    by (induction k arbitrary: i) (auto simp: add.assoc)
  moreover have "findIdleFrom i (replicate j idleTask) = (if j = 0 then -1 else i)" for i j by (cases j) auto
  ultimately show "findIdleTask (progress n k) = (if k = n then -1 else int k)"
    using assms by (simp add: findIdleTask_def progress_def)
  have "someInProgress (replicate k doneTask @ ts) = someInProgress ts" for ts by (induction k) auto
  moreover have "\<not> someInProgress (replicate j idleTask)" for j by (induction j) auto
  ultimately show "\<not> someInProgress (progress n k)" by (simp add: progress_def)
qed

lemma progress_store:
  assumes "k < n"
  shows "\<exists>ts. gostore (progress n k) (int k) inProgress = Some ts \<and> completeTask (int k) ts = Some (progress n (k + 1))"
proof -
  have "progress n k = replicate k doneTask @ idleTask # replicate (n - Suc k) idleTask"
    using assms by (simp add: progress_def replicate_Suc [symmetric] Suc_diff_Suc)
  moreover have "progress n (k + 1) = replicate k doneTask @ doneTask # replicate (n - Suc k) idleTask"
    by (simp add: progress_def replicate_append_same [symmetric])
  ultimately show ?thesis by (simp add: gostore_def goindex_def completeTask_def nth_append list_update_append)
qed

definition runState :: "string list \<Rightarrow> nat \<Rightarrow> nat \<Rightarrow> nat \<Rightarrow> string \<Rightarrow> filesys \<Rightarrow> job" where
  "runState fls nr k j ph d = \<lparr>coord = \<lparr>files = fls, nReduce = int nr, nMap = int (length fls),
      mapTasks = progress (length fls) k, reduceTasks = progress nr j, phase = ph, done' = False\<rparr>, disk = d, held = []\<rparr>"

lemma run_map_round:
  assumes "k < length fls" "0 < nr" "inputs_ok fls fs0" "\<forall>f \<in> set fls. d f = fs0 f"
  shows "\<exists>d'. (jstep enc dec sortf mapf reducef)\<^sup>*\<^sup>* (runState fls nr k 0 ''map'' d) (runState fls nr (k + 1) 0 ''map'' d') \<and>
    (\<forall>f \<in> set fls. d' f = fs0 f)"
proof -
  let ?J = "jstep enc dec sortf mapf reducef" and ?s = "runState fls nr k 0 ''map'' d"
  let ?t = "\<lparr>Type = TaskTypeMap, Id = int k, InputFile = fls ! k, NReduce = int nr, NMap = int (length fls)\<rparr>"
  obtain ts where ts: "gostore (progress (length fls) k) (int k) inProgress = Some ts"
    "completeTask (int k) ts = Some (progress (length fls) (k + 1))" using progress_store [OF assms(1)] by blast
  have get: "GetTask 0 (coord ?s) = Some ((coord ?s)\<lparr>mapTasks := ts\<rparr>, ?t)"
    using ts(1) progress_scan(1) [of k "length fls"] assms(1) by (simp add: GetTask_def runState_def goindex_def)
  obtain content where "d (fls ! k) = Some content" using assms(1,3,4) by (fastforce simp: inputs_ok_def)
  then obtain d' where d': "doMap enc mapf ?t d = Some d'"
    using doMap_correct [of d ?t content enc mapf] assms(2) by auto
  have rep: "ReportTask TaskTypeMap (int k) ((coord ?s)\<lparr>mapTasks := ts\<rparr>) = Some (coord (runState fls nr (k + 1) 0 ''map'' d'), True)"
    using ts(2) by (simp add: ReportTask_def runState_def)
  have in': "\<forall>f \<in> set fls. d' f = fs0 f"
    using disk_frame_map(2) [OF _ assms(2) _ assms(3,4) _ _ d'] assms(1) by simp
  have s1: "?J ?s (?s\<lparr>coord := (coord ?s)\<lparr>mapTasks := ts\<rparr>, held := [(?t, False)]\<rparr>)"
    using jstep.ask [OF get] by (simp add: runState_def)
  have s2: "?J (?s\<lparr>coord := (coord ?s)\<lparr>mapTasks := ts\<rparr>, held := [(?t, False)]\<rparr>)
      (?s\<lparr>coord := (coord ?s)\<lparr>mapTasks := ts\<rparr>, disk := d', held := [(?t, True)]\<rparr>)"
    using jstep.run_map [of ?t "?s\<lparr>coord := (coord ?s)\<lparr>mapTasks := ts\<rparr>, held := [(?t, False)]\<rparr>" enc mapf d'] d'
    by (simp add: runState_def)
  have s3: "?J (?s\<lparr>coord := (coord ?s)\<lparr>mapTasks := ts\<rparr>, disk := d', held := [(?t, True)]\<rparr>) (runState fls nr (k + 1) 0 ''map'' d')"
    using jstep.reportTask [of ?t "?s\<lparr>coord := (coord ?s)\<lparr>mapTasks := ts\<rparr>, disk := d', held := [(?t, True)]\<rparr>"] rep
    by (simp add: runState_def)
  show ?thesis using s1 s2 s3 in' by (meson converse_rtranclp_into_rtranclp rtranclp.rtrancl_refl)
qed

lemma run_reduce_round:
  assumes "j < nr" "ph = ''map'' \<or> ph = ''reduce''"
  shows "\<exists>d'. (jstep enc dec sortf mapf reducef)\<^sup>*\<^sup>* (runState fls nr (length fls) j ph d) (runState fls nr (length fls) (j + 1) ''reduce'' d')"
proof -
  let ?J = "jstep enc dec sortf mapf reducef" and ?s = "runState fls nr (length fls) j ph d"
  let ?t = "\<lparr>Type = TaskTypeReduce, Id = int j, InputFile = [], NReduce = int nr, NMap = int (length fls)\<rparr>"
  let ?d = "doReduce dec sortf reducef ?t d"
  obtain ts where ts: "gostore (progress nr j) (int j) inProgress = Some ts"
    "completeTask (int j) ts = Some (progress nr (j + 1))" using progress_store [OF assms(1)] by blast
  let ?c = "(coord ?s)\<lparr>phase := ''reduce'', reduceTasks := ts\<rparr>"
  have get: "GetTask 0 (coord ?s) = Some (?c, ?t)"
    using ts(1) progress_scan [of j nr] progress_scan [of "length fls" "length fls"] assms
    by (auto simp: GetTask_def getReduceTask_def runState_def)
  have rep: "ReportTask TaskTypeReduce (int j) ?c = Some (coord (runState fls nr (length fls) (j + 1) ''reduce'' ?d), True)"
    using ts(2) by (simp add: ReportTask_def runState_def)
  have s1: "?J ?s (?s\<lparr>coord := ?c, held := [(?t, False)]\<rparr>)" using jstep.ask [OF get] by (simp add: runState_def)
  have s2: "?J (?s\<lparr>coord := ?c, held := [(?t, False)]\<rparr>) (?s\<lparr>coord := ?c, disk := ?d, held := [(?t, True)]\<rparr>)"
    using jstep.run_reduce [of ?t "?s\<lparr>coord := ?c, held := [(?t, False)]\<rparr>" enc dec sortf mapf reducef] by (simp add: runState_def)
  have s3: "?J (?s\<lparr>coord := ?c, disk := ?d, held := [(?t, True)]\<rparr>) (runState fls nr (length fls) (j + 1) ''reduce'' ?d)"
    using jstep.reportTask [of ?t "?s\<lparr>coord := ?c, disk := ?d, held := [(?t, True)]\<rparr>"] rep by (simp add: runState_def)
  show ?thesis using s1 s2 s3 by (meson converse_rtranclp_into_rtranclp rtranclp.rtrancl_refl)
qed

text \<open>A worker that does every task in turn brings a job to its end.\<close>

lemma job_can_finish:
  assumes "0 < nr" "inputs_ok fls fs0"
  shows "\<exists>s. (jstep enc dec sortf mapf reducef)\<^sup>*\<^sup>* (startJob fls nr fs0) s \<and> Done (coord s)"
proof -
  let ?J = "jstep enc dec sortf mapf reducef"
  have start: "startJob fls nr fs0 = runState fls nr 0 0 ''map'' fs0"
    by (simp add: startJob_def runState_def MakeCoordinator_def progress_def map_replicate_const)
  have "k \<le> length fls \<Longrightarrow> \<exists>d. ?J\<^sup>*\<^sup>* (startJob fls nr fs0) (runState fls nr k 0 ''map'' d) \<and> (\<forall>f \<in> set fls. d f = fs0 f)" for k
  proof (induction k)
    case (Suc k)
    then obtain d where d: "?J\<^sup>*\<^sup>* (startJob fls nr fs0) (runState fls nr k 0 ''map'' d)" "\<forall>f \<in> set fls. d f = fs0 f" by auto
    have "k < length fls" using Suc.prems by simp
    from run_map_round [OF this assms d(2)] obtain e where
      "?J\<^sup>*\<^sup>* (runState fls nr k 0 ''map'' d) (runState fls nr (k + 1) 0 ''map'' e)" "\<forall>f \<in> set fls. e f = fs0 f" by blast
    then show ?case using rtranclp_trans [OF d(1)] by auto
  qed (use start in auto)
  then obtain d where d: "?J\<^sup>*\<^sup>* (startJob fls nr fs0) (runState fls nr (length fls) 0 ''map'' d)" by blast
  have "j < nr \<Longrightarrow> \<exists>d. ?J\<^sup>*\<^sup>* (startJob fls nr fs0) (runState fls nr (length fls) (Suc j) ''reduce'' d)" for j
  proof (induction j)
    case 0
    then obtain e where "?J\<^sup>*\<^sup>* (runState fls nr (length fls) 0 ''map'' d) (runState fls nr (length fls) (0 + 1) ''reduce'' e)"
      using run_reduce_round [of 0 nr "''map''"] by blast
    then show ?case using rtranclp_trans [OF d] by auto
  next
    case (Suc j)
    then obtain e where e: "?J\<^sup>*\<^sup>* (startJob fls nr fs0) (runState fls nr (length fls) (Suc j) ''reduce'' e)" by auto
    obtain e' where "?J\<^sup>*\<^sup>* (runState fls nr (length fls) (Suc j) ''reduce'' e) (runState fls nr (length fls) (Suc j + 1) ''reduce'' e')"
      using run_reduce_round [of "Suc j" nr "''reduce''"] Suc.prems by blast
    then show ?case using rtranclp_trans [OF e] by auto
  qed
  from this [of "nr - 1"] obtain e where e: "?J\<^sup>*\<^sup>* (startJob fls nr fs0) (runState fls nr (length fls) nr ''reduce'' e)" using assms(1) by auto
  let ?s = "runState fls nr (length fls) nr ''reduce'' e"
  have "GetTask 0 (coord ?s) = Some ((coord ?s)\<lparr>done' := True\<rparr>, emptyTask TaskTypeDone)"
    using progress_scan [of nr nr] by (simp add: GetTask_def getReduceTask_def runState_def)
  then have "\<exists>u. ?J ?s u \<and> Done (coord u)" by (intro exI conjI, rule jstep.ask) (simp_all add: Done_def)
  then obtain u where u: "?J ?s u" "Done (coord u)" by blast
  have "?J\<^sup>*\<^sup>* (startJob fls nr fs0) u" using e u(1) by (rule rtranclp.rtrancl_into_rtrancl)
  then show ?thesis using u(2) by blast
qed

subsection \<open>The tests that compare outputs\<close>

lemma mset_concat_map: "mset xs = mset ys \<Longrightarrow> mset (concat (map g xs)) = mset (concat (map g ys))"
  by (simp add: mset_concat comp_def flip: sum_mset_sum_list)

lemma concat_concat_map: "concat (concat (map f xs)) = concat (map (\<lambda>x. concat (f x)) xs)"
  by (induction xs) auto

lemma outName_0: "outName 0 = ''mr-out-0''"
  by code_simp

lemma mkCorrectOutput_result:
  assumes "inputs_ok fls fs" "\<not> jobFile out"
  shows "mkCorrectOutput unix tmp (mrsequential sortf mapf reducef) fls out fs =
    Some (fs(out \<mapsto> sortProg unix [concat (reduceLoop reducef (sortf (allKv mapf fs fls)))], outName 0 := None))"
proof -
  have "out \<noteq> outName 0" using assms(2) by (auto simp: jobFile_def)
  moreover have "mapFiles mapf fs fls = Some (allKv mapf fs fls)" using assms(1) by (intro mapFiles_all) (auto simp: inputs_ok_def)
  ultimately show ?thesis
    by (simp add: mkCorrectOutput_def mrsequential_def outName_0 Let_def fun_eq_iff)
qed

lemma mergeOutput_result:
  assumes "tools_ok tmp unix" "word tmp" "\<not> jobFile out" "\<forall>r < 10. fs (outName (int r)) = Some (c r)"
  shows "mergeOutput unix tmp out fs = Some (fs(out \<mapsto> sortProg unix (map c [0..<10])))"
proof -
  obtain ps where ps: "findProg unix tmp ''mr-out-[0-9]'' fs = Some (found ps)" "distinct ps" "set ps = digitFiles tmp fs"
    using assms(1) unfolding tools_ok_def by blast
  have ten: "\<forall>n \<in> set ten. fs n \<noteq> None" using assms(4) by (auto simp: ten_def)
  have files: "digitFiles tmp fs = JoinPath tmp ` set ten"
    using ten by (auto simp: digitFiles_def ten_digits)
  have words: "\<forall>p \<in> set ps. word p" using assms(2) ps(3) files by (auto simp: ten_digits word_def JoinPath_def isSpace_def)
  have perm: "mset ps = mset (map (JoinPath tmp) ten)"
  proof (subst set_eq_iff_mset_eq_distinct [symmetric])
    show "distinct (map (JoinPath tmp) ten)" using distinct_ten by (auto simp: distinct_map inj_on_def JoinPath_def)
  qed (use ps(2,3) files in auto)
  define g where "g = fs(out \<mapsto> [])"
  let ?cont = "\<lambda>p. the (g (fromTmp tmp p))"
  have at: "g (outName (int r)) = Some (c r)" if "r < 10" for r using assms(3,4) that by (auto simp: jobFile_def g_def)
  have "\<forall>p \<in> set ps. g (fromTmp tmp p) \<noteq> None" using ps(3) files ten by (auto simp: g_def)
  then have read: "readAll tmp g ps = Some (map ?cont ps)" by (rule readAll_all)
  have "mset (concat (map textLines (map ?cont ps))) = mset (concat (map (textLines \<circ> ?cont) (map (JoinPath tmp) ten)))"
    using mset_concat_map [OF perm, of "textLines \<circ> ?cont"] by simp
  also have "map (textLines \<circ> ?cont) (map (JoinPath tmp) ten) = map textLines (map c [0..<10])"
    unfolding ten_def map_map by (rule map_cong) (use at in simp_all)
  finally have "sortProg unix (map ?cont ps) = sortProg unix (map c [0..<10])" using assms(1) unfolding tools_ok_def by blast
  moreover have "\<not> length ps < 1" using ps(3) files by (auto simp: ten_def)
  ultimately show ?thesis using findFiles_found [OF ps(1) words] read by (simp add: mergeOutput_def Let_def g_def)
qed


text \<open>Programs that behave as documented, and the word-by-word test of \<open>nocrash\<close> with them.\<close>

definition exTools :: "string \<Rightarrow> tools" where
  "exTools tmp =
     \<lparr>findProg = (\<lambda>dir s fs. Some (found (map (JoinPath tmp) (filter (\<lambda>n. fs n \<noteq> None) ten)))),
      sortProg = (\<lambda>cs. concat (map (\<lambda>l. l @ [CHR 0x0A]) (sort (concat (map textLines cs))))),
      cmpProg = (=)\<rparr>"

lemma exTools_ok: "tools_ok tmp (exTools tmp)"
  unfolding tools_ok_def
proof (intro conjI allI impI)
  fix fs :: filesys
  let ?ps = "map (JoinPath tmp) (filter (\<lambda>n. fs n \<noteq> None) ten)"
  have inj: "inj (JoinPath tmp)" by (simp add: inj_def JoinPath_def)
  have "distinct ?ps" using distinct_ten inj by (metis distinct_filter distinct_map inj_on_subset subset_UNIV)
  moreover have "set ?ps = digitFiles tmp fs"
    unfolding digitFiles_def ten_digits set_map set_filter by blast
  moreover have "findProg (exTools tmp) tmp ''mr-out-[0-9]'' fs = Some (found ?ps)" by (simp add: exTools_def)
  ultimately show "\<exists>ps. findProg (exTools tmp) tmp ''mr-out-[0-9]'' fs = Some (found ps) \<and> distinct ps \<and> set ps = digitFiles tmp fs"
    by blast
next
  fix cs ds :: "string list" assume "mset (concat (map textLines cs)) = mset (concat (map textLines ds))"
  then have "sort (concat (map textLines cs)) = sort (concat (map textLines ds))" by (intro properties_for_sort) simp_all
  then show "sortProg (exTools tmp) cs = sortProg (exTools tmp) ds" by (simp add: exTools_def)
qed (simp add: exTools_def)

lemma jobFile_last:
  assumes "jobFile f"
  shows "last f \<in> set ''0123456789''"
proof -
  have digit: "c \<in> set ''0123456789''" if "48 \<le> (of_char c :: nat)" "(of_char c :: nat) \<le> 57" for c
  proof -
    have "\<forall>k \<in> set [48..<58]. char_of k \<in> set ''0123456789''" by code_simp
    moreover have "(of_char c :: nat) \<in> set [48..<58]" unfolding set_upt atLeastLessThan_iff using that by linarith
    ultimately have "char_of (of_char c :: nat) \<in> set ''0123456789''" by (rule bspec)
    then show ?thesis by simp
  qed
  have "last (digits n) \<in> set ''0123456789''" for n using digits_chars [of "last (digits n)" n] digit by simp
  then have "last (Itoa i) \<in> set ''0123456789''" for i unfolding Itoa_def by (cases "i < 0") (simp_all only: if_True if_False last_ConsR digits_nonempty not_False_eq_True)
  moreover have "\<exists>i. last f = last (Itoa i)" using assms by (auto simp: jobFile_def outName_def intermediateName_def Itoa_def)
  ultimately show ?thesis by metis
qed


end
