(* ===== verification/MrApps.thy ===== *)
theory MrApps
  imports MrTest
begin

text \<open>
  The applications of \<open>mrapps/\<close> with which the tests watch a job: \<open>crash.go\<close>, which exits at random, and \<open>jobcount.go\<close>,
  \<open>mtiming.go\<close> and \<open>rtiming.go\<close>, which leave files that tell how often and how many at a time tasks are
  run. Random numbers, the number of the process, the time and the order in which a directory is
  listed are arguments; \<open>None\<close> is a process that exits.
\<close>

subsection \<open>Crashing workers\<close>

definition maybeCrash :: "nat \<Rightarrow> unit option" where
  "maybeCrash rr = (if rr < 330 then None else Some ())"

definition crashMap :: "nat \<Rightarrow> string \<Rightarrow> string \<Rightarrow> KeyValue list option" where
  "crashMap rr filename contents =
     do {
       maybeCrash rr;
       let kva = [];
       let kva = kva @ [\<lparr>Key = ''a'', kvValue = filename\<rparr>];
       let kva = kva @ [\<lparr>Key = ''b'', kvValue = Itoa (int (length filename))\<rparr>];
       let kva = kva @ [\<lparr>Key = ''c'', kvValue = Itoa (int (length contents))\<rparr>];
       let kva = kva @ [\<lparr>Key = ''d'', kvValue = ''xyzzy''\<rparr>];
       Some kva
     }"

definition crashReduce :: "nat \<Rightarrow> string \<Rightarrow> string list \<Rightarrow> string option" where
  "crashReduce rr key values = do { maybeCrash rr; let vv = sort values; Some (Join' vv '' '') }"

text \<open>A worker of the crash test dies or does what the application does that the correct output is made with.\<close>

lemma crash_or_nocrash:
  "crashMap rr f c = (if rr < 330 then None else Some (nocrashMap f c)) \<and>
   crashReduce rr k vs = (if rr < 330 then None else Some (nocrashReduce k vs))"
  by (simp add: crashMap_def crashReduce_def maybeCrash_def nocrashMap_def nocrashReduce_def)

subsection \<open>Counting the runs of map tasks\<close>

definition HasPrefix :: "string \<Rightarrow> string \<Rightarrow> bool" where
  "HasPrefix s p \<longleftrightarrow> length p \<le> length s \<and> take (length p) s = p"

lemma HasPrefix_append [simp]: "HasPrefix (p @ xs) p"
  by (simp add: HasPrefix_def)

definition jobcountFile :: "int \<Rightarrow> int \<Rightarrow> string" where
  "jobcountFile me cnt = ''mr-worker-jobcount-'' @ Itoa me @ ''-'' @ Itoa cnt"

text \<open>The counter is a variable of the worker's process, \<open>me\<close>.\<close>

definition jobcountMap :: "int \<Rightarrow> string \<Rightarrow> string \<Rightarrow> int \<times> filesys \<Rightarrow> KeyValue list \<times> int \<times> filesys" where
  "jobcountMap me filename contents = (\<lambda>(cnt, fs).
     let f = jobcountFile me cnt in
     ([\<lparr>Key = ''a'', kvValue = ''x''\<rparr>], cnt + 1, fs(f \<mapsto> ''x'')))"

definition jobcountReduce :: "string \<Rightarrow> string list \<Rightarrow> string list \<Rightarrow> string" where
  "jobcountReduce key values names =
     Itoa (foldl (\<lambda>invocations f. if HasPrefix f ''mr-worker-jobcount'' then invocations + 1 else invocations) 0 names)"

text \<open>Runs of the map function in the processes listed, each with its counter.\<close>

fun jobcountRuns :: "int list \<Rightarrow> (int \<Rightarrow> int) \<Rightarrow> filesys \<Rightarrow> filesys" where
  "jobcountRuns [] counts fs = fs"
| "jobcountRuns (me # ps) counts fs =
     (case jobcountMap me ''in'' ''text'' (counts me, fs) of
        (kva, cnt, fs1) \<Rightarrow> jobcountRuns ps (counts(me := cnt)) fs1)"

definition markers :: "filesys \<Rightarrow> string set" where
  "markers fs = {n \<in> dom fs. HasPrefix n ''mr-worker-jobcount''}"

lemma jobcountFile_inject:
  assumes "0 \<le> p" "0 \<le> c" "0 \<le> p'" "0 \<le> c'"
  shows "jobcountFile p c = jobcountFile p' c' \<longleftrightarrow> p = p' \<and> c = c'"
  using assms append_sep_inject [of "CHR ''-''" "Itoa p" "Itoa p'" "Itoa c" "Itoa c'"]
  by (simp add: jobcountFile_def Itoa_dash Itoa_inject)

lemma jobcountFile_marker: "HasPrefix (jobcountFile p c) ''mr-worker-jobcount''"
  by (simp add: jobcountFile_def HasPrefix_def)

lemma jobcountRuns_markers:
  assumes "\<forall>p \<in> set ps. 0 \<le> p" "\<forall>p. 0 \<le> counts p" "\<forall>p c. 0 \<le> p \<and> counts p \<le> c \<longrightarrow> jobcountFile p c \<notin> dom fs" "finite (markers fs)"
  shows "finite (markers (jobcountRuns ps counts fs)) \<and> card (markers (jobcountRuns ps counts fs)) = card (markers fs) + length ps"
  using assms
proof (induction ps arbitrary: counts fs)
  case (Cons me ps)
  let ?f = "jobcountFile me (counts me)"
  let ?counts = "counts(me := counts me + 1)" and ?fs = "fs(?f \<mapsto> ''x'')"
  have me: "0 \<le> me" using Cons.prems(1) by simp
  have new: "markers ?fs = insert ?f (markers fs)" "?f \<notin> markers fs"
    using Cons.prems(3) me jobcountFile_marker by (auto simp: markers_def)
  have "jobcountFile p c \<notin> dom ?fs" if "0 \<le> p" "?counts p \<le> c" for p c
  proof -
    have pc: "0 \<le> c" "counts p \<le> c" "p = me \<longrightarrow> c \<noteq> counts me" using that(2) spec [OF Cons.prems(2), of p] by (auto split: if_splits)
    then have "jobcountFile p c \<noteq> ?f" using jobcountFile_inject [OF that(1) pc(1) me] Cons.prems(2) by simp
    then show ?thesis using Cons.prems(3) that(1) pc(2) by simp
  qed
  then have "\<forall>p c. 0 \<le> p \<and> ?counts p \<le> c \<longrightarrow> jobcountFile p c \<notin> dom ?fs" by blast
  moreover have "\<forall>p. 0 \<le> ?counts p" using Cons.prems(2) by (simp add: add_nonneg_nonneg)
  moreover have "finite (markers ?fs)" "\<forall>p \<in> set ps. 0 \<le> p" using new(1) Cons.prems(1,4) by simp_all
  ultimately have "finite (markers (jobcountRuns ps ?counts ?fs)) \<and>
      card (markers (jobcountRuns ps ?counts ?fs)) = card (markers ?fs) + length ps"
    by (intro Cons.IH)
  then show ?case using new Cons.prems(4) by (simp add: jobcountMap_def)
qed simp

lemma jobcount_fold:
  "foldl (\<lambda>n f. if P f then n + 1 else n) (k :: int) names = k + int (length (filter P names))"
  by (induction names arbitrary: k) auto

text \<open>
  The output of \<open>jobcount\<close> is the number of times that map tasks were run, whichever processes ran them, in a directory
  that held no marker file before.
\<close>

lemma jobcount_counts:
  assumes "\<forall>p \<in> set ps. 0 \<le> p" "markers fs = {}"
    and "distinct names" "set names = dom (jobcountRuns ps (\<lambda>_. 0) fs)"
  shows "jobcountReduce key values names = Itoa (int (length ps))"
proof -
  have "\<forall>p c. 0 \<le> p \<and> 0 \<le> c \<longrightarrow> jobcountFile p c \<notin> dom fs"
    using assms(2) jobcountFile_marker unfolding markers_def by blast
  then have "card (markers (jobcountRuns ps (\<lambda>_. 0) fs)) = length ps"
    using jobcountRuns_markers [of ps "\<lambda>_. 0" fs] assms(1,2) by simp
  moreover have "markers (jobcountRuns ps (\<lambda>_. 0) fs) = set (filter (\<lambda>f. HasPrefix f ''mr-worker-jobcount'') names)"
    using assms(4) by (auto simp: markers_def)
  ultimately show ?thesis
    using assms(3) distinct_card [of "filter (\<lambda>f. HasPrefix f ''mr-worker-jobcount'') names"]
    by (simp add: jobcountReduce_def jobcount_fold)
qed

subsection \<open>Counting the workers that run at the same time\<close>

definition pidFile :: "string \<Rightarrow> int \<Rightarrow> string" where
  "pidFile ph pid = ''mr-worker-'' @ ph @ ''-'' @ Itoa pid"

definition isDec :: "char \<Rightarrow> bool" where
  "isDec c \<longleftrightarrow> 48 \<le> (of_char c :: nat) \<and> (of_char c :: nat) \<le> 57"

text \<open>\<open>fmt.Sscanf\<close> with the one verb \<open>%d\<close> at the end of its format; what follows the number is not read.\<close>

definition scanInt :: "string \<Rightarrow> int option" where
  "scanInt s =
     (let cs = dropWhile (\<lambda>c. c = CHR '' '') s;
          (neg, ds) = (case cs of [] \<Rightarrow> (False, []) | c # ds \<Rightarrow>
            if c = CHR ''-'' then (True, ds) else if c = CHR ''+'' then (False, ds) else (False, cs));
          num = takeWhile isDec ds;
          v = (if neg then - int (undigits num) else int (undigits num))
      in if num = [] \<or> v < - (2 ^ 63) \<or> 2 ^ 63 \<le> v then None else Some v)"

definition scanPid :: "string \<Rightarrow> string \<Rightarrow> int option" where
  "scanPid ph name =
     (let pre = ''mr-worker-'' @ ph @ ''-'' in if HasPrefix name pre then scanInt (drop (length pre) name) else None)"

text \<open>\<open>nparallel\<close>, up to its sleep and after it; \<open>alive\<close> says which processes \<open>kill\<close> finds.\<close>

definition nparallelMark :: "string \<Rightarrow> int \<Rightarrow> filesys \<Rightarrow> filesys" where
  "nparallelMark ph pid fs = fs(pidFile ph pid \<mapsto> ''x'')"

definition nparallelCount :: "string \<Rightarrow> (int \<Rightarrow> bool) \<Rightarrow> string list \<Rightarrow> int" where
  "nparallelCount ph alive names =
     foldl (\<lambda>ret name. case scanPid ph name of
       None \<Rightarrow> ret | Some xpid \<Rightarrow> if alive xpid then ret + 1 else ret) 0 names"

definition nparallelRemove :: "string \<Rightarrow> int \<Rightarrow> filesys \<Rightarrow> filesys option" where
  "nparallelRemove ph pid fs = (if fs (pidFile ph pid) = None then None else Some (fs(pidFile ph pid := None)))"

definition mtimingMap :: "string \<Rightarrow> int \<Rightarrow> int \<Rightarrow> KeyValue list" where
  "mtimingMap ts pid n =
     [] @ [\<lparr>Key = ''times-'' @ Itoa pid, kvValue = ts\<rparr>] @ [\<lparr>Key = ''parallel-'' @ Itoa pid, kvValue = Itoa n\<rparr>]"

definition mtimingReduce :: "string \<Rightarrow> string list \<Rightarrow> string" where
  "mtimingReduce key values = (let vv = sort values in Join' vv '' '')"

definition rtimingReduce :: "int \<Rightarrow> string" where
  "rtimingReduce n = Itoa n"

subsection \<open>Workers that start, mark themselves, leave and die\<close>

text \<open>The number of a process is below \<open>2 ^ 22\<close>, the limit of Linux, and is not given again while a file of its last bearer is there.\<close>

record npar =
  npDir :: filesys
  npRun :: "int set"
  npLive :: "int set"

definition marked :: "string \<Rightarrow> string \<Rightarrow> bool" where
  "marked ph n \<longleftrightarrow> HasPrefix n (''mr-worker-'' @ ph @ ''-'')"

inductive npstep :: "string \<Rightarrow> npar \<Rightarrow> npar \<Rightarrow> bool" for ph where
  n_spawn: "0 \<le> pid \<Longrightarrow> pid < 2 ^ 22 \<Longrightarrow> npDir s (pidFile ph pid) = None \<Longrightarrow>
    npstep ph s (s\<lparr>npLive := insert pid (npLive s)\<rparr>)"
| n_enter: "pid \<in> npLive s \<Longrightarrow> pid \<notin> npRun s \<Longrightarrow>
    npstep ph s (s\<lparr>npDir := nparallelMark ph pid (npDir s), npRun := insert pid (npRun s)\<rparr>)"
| n_leave: "pid \<in> npRun s \<Longrightarrow> nparallelRemove ph pid (npDir s) = Some d \<Longrightarrow>
    npstep ph s (s\<lparr>npDir := d, npRun := npRun s - {pid}\<rparr>)"
| n_die: "npstep ph s (s\<lparr>npRun := npRun s - {pid}, npLive := npLive s - {pid}\<rparr>)"
| n_file: "\<not> marked ph n \<Longrightarrow> npstep ph s (s\<lparr>npDir := (npDir s)(n := v)\<rparr>)"

definition np_inv :: "string \<Rightarrow> npar \<Rightarrow> bool" where
  "np_inv ph s \<longleftrightarrow>
     finite (npRun s) \<and> npRun s \<subseteq> npLive s \<and> npLive s \<subseteq> {0..<2 ^ 22} \<and>
     (\<forall>pid \<in> npLive s. npDir s (pidFile ph pid) \<noteq> None \<longleftrightarrow> pid \<in> npRun s) \<and>
     (\<forall>n. npDir s n \<noteq> None \<and> marked ph n \<longrightarrow> (\<exists>pid \<in> {0..<2 ^ 22}. n = pidFile ph pid))"

lemma pidFile_inject: "0 \<le> p \<Longrightarrow> 0 \<le> q \<Longrightarrow> pidFile ph p = pidFile ph q \<longleftrightarrow> p = q"
  by (simp add: pidFile_def Itoa_inject)

lemma marked_pidFile: "marked ph (pidFile ph pid)"
  by (simp add: marked_def pidFile_def HasPrefix_def)

lemma np_inv_step:
  assumes "npstep ph s t" "np_inv ph s"
  shows "np_inv ph t"
  using assms(1)
proof cases
  case (n_spawn pid)
  then have "pid \<notin> npRun s" using assms(2) unfolding np_inv_def by blast
  then show ?thesis using n_spawn assms(2) by (auto simp: np_inv_def)
next
  case (n_enter pid)
  have at: "pidFile ph q = pidFile ph pid \<longleftrightarrow> q = pid" if "q \<in> npLive s" for q
    using that n_enter(2) assms(2) by (intro pidFile_inject) (auto simp: np_inv_def)
  have "pid \<in> {0..<2 ^ 22}" using n_enter(2) assms(2) unfolding np_inv_def by blast
  then show ?thesis using n_enter assms(2) at unfolding np_inv_def nparallelMark_def by simp blast
next
  case (n_leave pid d)
  have at: "pidFile ph q = pidFile ph pid \<longleftrightarrow> q = pid" if "q \<in> npLive s" for q
    using that n_leave(2) assms(2) by (intro pidFile_inject) (auto simp: np_inv_def)
  have "d = (npDir s)(pidFile ph pid := None)" using n_leave(3) by (simp add: nparallelRemove_def split: if_splits)
  then show ?thesis using n_leave(1) assms(2) at unfolding np_inv_def by (simp add: finite_Diff) blast
next
  case (n_die pid)
  then show ?thesis using assms(2) by (auto simp: np_inv_def)
next
  case (n_file n v)
  then show ?thesis using assms(2) marked_pidFile [of ph] by (auto simp: np_inv_def)
qed

lemma scanInt_Itoa:
  assumes "0 \<le> i" "i < 2 ^ 22"
  shows "scanInt (Itoa i) = Some i"
proof -
  obtain c cs where ds: "digits (nat i) = c # cs" by (cases "digits (nat i)") auto
  have dec: "\<forall>x \<in> set (digits (nat i)). isDec x" using digits_chars by (auto simp: isDec_def)
  then have "c \<noteq> CHR '' ''" "c \<noteq> CHR ''-''" "c \<noteq> CHR ''+''" using ds by (auto simp: isDec_def)
  moreover have "takeWhile isDec (c # cs) = c # cs" using dec ds by (simp add: takeWhile_eq_all_conv)
  moreover have "undigits (c # cs) = nat i" using undigits_digits [of "nat i"] ds by simp
  ultimately show ?thesis using assms ds by (simp add: scanInt_def Itoa_def)
qed

lemma scanPid_pidFile: "0 \<le> i \<Longrightarrow> i < 2 ^ 22 \<Longrightarrow> scanPid ph (pidFile ph i) = Some i"
  by (simp add: scanPid_def Let_def pidFile_def HasPrefix_def scanInt_Itoa)

text \<open>
  What \<open>nparallel\<close> returns is the number of workers of its phase that are between its two ends at the moment it lists the directory, itself
  included; workers that died there are not counted although their files stay.
\<close>

lemma nparallel_counts:
  assumes "(npstep ph)\<^sup>*\<^sup>* \<lparr>npDir = fs, npRun = {}, npLive = {}\<rparr> s" "\<forall>n \<in> dom fs. \<not> marked ph n"
    and "distinct names" "set names = dom (npDir s)"
  shows "nparallelCount ph (\<lambda>pid. pid \<in> npLive s) names = int (card (npRun s))"
proof -
  have start: "np_inv ph \<lparr>npDir = fs, npRun = {}, npLive = {}\<rparr>" using assms(2) by (auto simp: np_inv_def)
  have inv: "np_inv ph s" using assms(1) by (induction rule: rtranclp_induct) (use start np_inv_step in blast)+
  let ?P = "\<lambda>n. case scanPid ph n of None \<Rightarrow> False | Some pid \<Rightarrow> pid \<in> npLive s"
  have "nparallelCount ph (\<lambda>pid. pid \<in> npLive s) names = foldl (\<lambda>n f. if ?P f then n + 1 else n) 0 names"
    unfolding nparallelCount_def by (rule arg_cong [where f = "\<lambda>g. foldl g 0 names"]) (auto simp: fun_eq_iff split: option.splits)
  also have "\<dots> = int (card (set (filter ?P names)))"
    unfolding jobcount_fold using distinct_card [of "filter ?P names"] assms(3) by simp
  also have "set (filter ?P names) = pidFile ph ` npRun s"
  proof (intro equalityI subsetI)
    fix n assume n: "n \<in> set (filter ?P names)"
    then have "marked ph n" "npDir s n \<noteq> None" using assms(4) by (auto simp: scanPid_def marked_def Let_def split: if_splits option.splits)
    then have "\<exists>pid \<in> {0..<2 ^ 22}. n = pidFile ph pid" using inv unfolding np_inv_def by blast
    then obtain pid where pid: "pid \<in> {0..<2 ^ 22}" "n = pidFile ph pid" by (rule bexE)
    then have "pid \<in> npLive s" using n scanPid_pidFile [of pid ph] by simp
    then show "n \<in> pidFile ph ` npRun s" using inv pid(2) \<open>npDir s n \<noteq> None\<close> by (auto simp: np_inv_def)
  next
    fix n assume "n \<in> pidFile ph ` npRun s"
    then obtain pid where pid: "pid \<in> npRun s" "n = pidFile ph pid" by blast
    then have "pid \<in> npLive s" "0 \<le> pid" "pid < 2 ^ 22" using inv by (auto simp: np_inv_def)
    then show "n \<in> set (filter ?P names)" using pid inv assms(4) scanPid_pidFile [of pid ph] by (auto simp: np_inv_def)
  qed
  also have "card (pidFile ph ` npRun s) = card (npRun s)"
    using inv by (intro card_image inj_onI) (auto simp: np_inv_def pidFile_inject subset_iff)
  finally show ?thesis by simp
qed

end
