(* ===== verification/ShardCfg.thy ===== *)
theory ShardCfg
  imports Fnv "HOL-Library.AList"
begin

text \<open>
  The shard configuration of \<open>shardkv1/shardcfg/shardcfg.go\<close>: which replica group serves which
  shard, and the rules by which groups join, leave and share the shards. The Go map \<open>Groups\<close>
  is an association list with distinct keys; the order of the list is the (unspecified) order in
  which Go iterates over the map. \<open>log.Fatalf\<close> ends the process: an operation that reaches
  it returns \<open>None\<close>. The loop of \<open>Rebalance\<close> has no bound in the code, so it is a partial
  function, and that it ends is a theorem.
\<close>

subsection \<open>Keys and shards\<close>

definition NShards :: nat where "NShards = 12"

definition Key2Shard :: "string \<Rightarrow> int" where
  "Key2Shard key = uint (Sum32 key) mod int NShards"

subsection \<open>Configurations\<close>

record ShardConfig =
  Num :: int
  Shards :: "int list"
  Groups :: "(int \<times> string list) list"

definition MakeShardConfig :: ShardConfig where
  "MakeShardConfig = \<lparr>Num = 0, Shards = replicate NShards 0, Groups = []\<rparr>"

definition Copy :: "ShardConfig \<Rightarrow> ShardConfig" where
  "Copy cfg =
     (let c = MakeShardConfig\<lparr>Num := Num cfg, Shards := Shards cfg\<rparr>
      in foldl (\<lambda>c (k, srvs). c\<lparr>Groups := AList.update k srvs (Groups c)\<rparr>) c (Groups cfg))"

text \<open>The loop that counts the shards of every group; a missing key of the map reads 0.\<close>

definition shardCounts :: "int list \<Rightarrow> int \<Rightarrow> int" where
  "shardCounts shards = foldl (\<lambda>counts g. counts(g := counts g + 1)) (\<lambda>_. 0) shards"

definition analyzeStep ::
  "(int \<Rightarrow> int) \<Rightarrow> int \<times> int \<times> int \<times> int \<Rightarrow> int \<Rightarrow> int \<times> int \<times> int \<times> int" where
  "analyzeStep counts = (\<lambda>(mg, mn, lg, ln) g.
     let (lg, ln) = (if counts g < ln then (g, counts g) else (lg, ln));
         (mg, mn) = (if mn < counts g then (g, counts g) else (mg, mn))
     in (mg, mn, lg, ln))"

definition analyze :: "ShardConfig \<Rightarrow> int \<times> int \<times> int \<times> int" where
  "analyze c =
     foldl (analyzeStep (shardCounts (Shards c))) (-1, -1, -1, 257) (sort (map fst (Groups c)))"

definition least :: "ShardConfig \<Rightarrow> int" where
  "least c = (case analyze c of (_, _, lg, _) \<Rightarrow> lg)"

definition assignShard :: "ShardConfig \<Rightarrow> nat \<Rightarrow> ShardConfig" where
  "assignShard c s =
     (if map_of (Groups c) (Shards c ! s) = None
      then c\<lparr>Shards := (Shards c)[s := least c]\<rparr> else c)"

text \<open>Move the first shard of group \<open>mg\<close> to group \<open>lg\<close>.\<close>

fun moveShard :: "int \<Rightarrow> int \<Rightarrow> int list \<Rightarrow> int list" where
  "moveShard mg lg [] = []"
| "moveShard mg lg (g # gs) = (if g = mg then lg # gs else g # moveShard mg lg gs)"

partial_function (option) rebalanceLoop :: "ShardConfig \<Rightarrow> ShardConfig option" where
  "rebalanceLoop c =
     (case analyze c of (mg, mn, lg, ln) \<Rightarrow>
        if mn < ln + 2 then Some c
        else rebalanceLoop (c\<lparr>Shards := moveShard mg lg (Shards c)\<rparr>))"

definition Rebalance :: "ShardConfig \<Rightarrow> ShardConfig option" where
  "Rebalance c =
     (if length (Groups c) < 1 then Some (c\<lparr>Shards := map (\<lambda>_. 0) (Shards c)\<rparr>)
      else rebalanceLoop (foldl assignShard c [0..<length (Shards c)]))"

subsection \<open>Groups that join and leave\<close>

definition serverClash :: "string list \<Rightarrow> (int \<times> string list) list \<Rightarrow> bool" where
  "serverClash servers groups \<longleftrightarrow>
     (\<exists>(xgid, xservers) \<in> set groups. \<exists>s1 \<in> set xservers. \<exists>s2 \<in> set servers. s1 = s2)"

text \<open>
  The loop of \<open>Join\<close>: the flag says whether it went through all groups (\<open>changed\<close> is then
  whether there were any); on a re-join the groups entered before stay entered.
\<close>

fun joinLoop :: "(int \<times> string list) list \<Rightarrow> ShardConfig \<Rightarrow> (ShardConfig \<times> bool) option" where
  "joinLoop [] cfg = Some (cfg, True)"
| "joinLoop ((gid, servers) # rest) cfg =
     (if map_of (Groups cfg) gid \<noteq> None then Some (cfg, False)
      else if serverClash servers (Groups cfg) then None
      else joinLoop rest (cfg\<lparr>Groups := AList.update gid servers (Groups cfg)\<rparr>))"

definition Join :: "(int \<times> string list) list \<Rightarrow> ShardConfig \<Rightarrow> (ShardConfig \<times> bool) option" where
  "Join servers cfg =
     do {
       (cfg1, completed) \<leftarrow> joinLoop servers cfg;
       if \<not> completed then Some (cfg1, False)
       else if servers = [] then None
       else Some (cfg1\<lparr>Num := Num cfg1 + 1\<rparr>, True)
     }"

fun leaveLoop :: "int list \<Rightarrow> ShardConfig \<Rightarrow> ShardConfig \<times> bool" where
  "leaveLoop [] cfg = (cfg, True)"
| "leaveLoop (gid # gids) cfg =
     (if map_of (Groups cfg) gid = None then (cfg, False)
      else leaveLoop gids (cfg\<lparr>Groups := AList.delete gid (Groups cfg)\<rparr>))"

definition Leave :: "int list \<Rightarrow> ShardConfig \<Rightarrow> (ShardConfig \<times> bool) option" where
  "Leave gids cfg =
     (case leaveLoop gids cfg of (cfg1, completed) \<Rightarrow>
        if \<not> completed then Some (cfg1, False)
        else if gids = [] then None
        else Some (cfg1\<lparr>Num := Num cfg1 + 1\<rparr>, True))"

definition JoinBalance :: "(int \<times> string list) list \<Rightarrow> ShardConfig \<Rightarrow> (ShardConfig \<times> bool) option" where
  "JoinBalance servers cfg =
     do {
       (cfg1, ok) \<leftarrow> Join servers cfg;
       if \<not> ok then Some (cfg1, False)
       else do { cfg2 \<leftarrow> Rebalance cfg1; Some (cfg2, True) }
     }"

definition LeaveBalance :: "int list \<Rightarrow> ShardConfig \<Rightarrow> (ShardConfig \<times> bool) option" where
  "LeaveBalance gids cfg =
     do {
       (cfg1, ok) \<leftarrow> Leave gids cfg;
       if \<not> ok then Some (cfg1, False)
       else do { cfg2 \<leftarrow> Rebalance cfg1; Some (cfg2, True) }
     }"

subsection \<open>Queries\<close>

text \<open>An index outside the array panics: \<open>None\<close>.\<close>

definition GidServers :: "int \<Rightarrow> ShardConfig \<Rightarrow> (int \<times> string list \<times> bool) option" where
  "GidServers sh cfg =
     do {
       gid \<leftarrow> goindex (Shards cfg) sh;
       Some (case map_of (Groups cfg) gid of
               None \<Rightarrow> (gid, [], False)
             | Some srvs \<Rightarrow> (gid, srvs, True))
     }"

fun memberLoop :: "int \<Rightarrow> int list \<Rightarrow> bool" where
  "memberLoop gid [] = False"
| "memberLoop gid (g # gs) = (if g = gid then True else memberLoop gid gs)"

definition IsMember :: "int \<Rightarrow> ShardConfig \<Rightarrow> bool" where
  "IsMember gid cfg = memberLoop gid (Shards cfg)"

text \<open>The check of the tester: \<open>True\<close> where no \<open>fatalf\<close> is reached.\<close>

definition CheckConfig :: "int list \<Rightarrow> ShardConfig \<Rightarrow> bool" where
  "CheckConfig groups cfg \<longleftrightarrow>
     length (Groups cfg) = length groups \<and>
     (\<forall>g \<in> set groups. map_of (Groups cfg) g \<noteq> None) \<and>
     (0 < length groups \<longrightarrow> (\<forall>g \<in> set (Shards cfg). map_of (Groups cfg) g \<noteq> None)) \<and>
     (let counts = shardCounts (Shards cfg);
          (mx, mi) = foldl (\<lambda>(mx, mi) (g, _).
             (if mx < counts g then counts g else mx, if counts g < mi then counts g else mi))
             (0, 257) (Groups cfg)
      in \<not> mi + 1 < mx)"


subsection \<open>Counting\<close>

lemma shardCounts_snoc [simp]:
  "shardCounts (xs @ [g]) = (shardCounts xs)(g := shardCounts xs g + 1)"
  by (simp add: shardCounts_def)

lemma shardCounts_eq: "shardCounts xs g = int (count_list xs g)"
  by (induction xs rule: rev_induct) (auto simp: shardCounts_def)

lemma memberLoop_eq: "memberLoop gid gs \<longleftrightarrow> gid \<in> set gs"
  by (induction gs) auto

lemma moveShard_length [simp]: "length (moveShard mg lg gs) = length gs"
  by (induction gs) auto

lemma moveShard_set: "set (moveShard mg lg gs) \<subseteq> insert lg (set gs)"
  by (induction gs) auto

lemma count_moveShard:
  "mg \<in> set gs \<Longrightarrow> mg \<noteq> lg \<Longrightarrow> int (count_list (moveShard mg lg gs) g) =
     int (count_list gs g) + (if g = lg then 1 else 0) - (if g = mg then 1 else 0)"
  by (induction gs) auto

subsection \<open>The most and the least loaded group\<close>

text \<open>What the scan of \<open>analyze\<close> has found after the groups \<open>gs\<close>.\<close>

definition scanned :: "(int \<Rightarrow> int) \<Rightarrow> int list \<Rightarrow> int \<times> int \<times> int \<times> int \<Rightarrow> bool" where
  "scanned f gs = (\<lambda>(mg, mn, lg, ln).
     (if gs = [] then mn = -1 \<and> ln = 257
      else mg \<in> set gs \<and> f mg = mn \<and> lg \<in> set gs \<and> f lg = ln) \<and>
     (\<forall>g \<in> set gs. ln \<le> f g \<and> f g \<le> mn))"

lemma scanned_foldl:
  assumes "\<And>g. 0 \<le> f g \<and> f g < 257"
  shows "scanned f gs (foldl (analyzeStep f) (-1, -1, -1, 257) gs)"
proof (induction gs rule: rev_induct)
  case Nil
  show ?case by (simp add: scanned_def)
next
  case (snoc g gs)
  obtain mg mn lg ln where r: "foldl (analyzeStep f) (-1, -1, -1, 257) gs = (mg, mn, lg, ln)"
    by (cases "foldl (analyzeStep f) (-1, -1, -1, 257) gs") auto
  show ?case
    using snoc assms [of g]
    by (auto simp: r scanned_def analyzeStep_def Let_def split: if_splits)
qed

definition cfg_ok :: "ShardConfig \<Rightarrow> bool" where
  "cfg_ok c \<longleftrightarrow> distinct (map fst (Groups c)) \<and> length (Shards c) = NShards"

abbreviation gids :: "ShardConfig \<Rightarrow> int set" where "gids c \<equiv> fst ` set (Groups c)"

lemma map_of_gids: "map_of (Groups c) g = None \<longleftrightarrow> g \<notin> gids c"
  by (simp add: map_of_eq_None_iff)

lemma analyze_correct:
  assumes "length (Shards c) = NShards" "Groups c \<noteq> []" "analyze c = (mg, mn, lg, ln)"
  shows "mg \<in> gids c" "lg \<in> gids c" "mn = int (count_list (Shards c) mg)"
    "ln = int (count_list (Shards c) lg)"
    "\<And>g. g \<in> gids c \<Longrightarrow> ln \<le> int (count_list (Shards c) g) \<and> int (count_list (Shards c) g) \<le> mn"
proof -
  have "0 \<le> shardCounts (Shards c) g \<and> shardCounts (Shards c) g < 257" for g
    using count_le_length [of "Shards c" g] assms(1) by (simp add: shardCounts_eq NShards_def)
  note sc = scanned_foldl [of "shardCounts (Shards c)" "sort (map fst (Groups c))", OF this]
  have ne: "sort (map fst (Groups c)) \<noteq> []"
    using assms(2) by (metis length_0_conv length_map length_sort)
  from sc ne
  show "mg \<in> gids c" "lg \<in> gids c" "mn = int (count_list (Shards c) mg)"
    "ln = int (count_list (Shards c) lg)"
    "\<And>g. g \<in> gids c \<Longrightarrow> ln \<le> int (count_list (Shards c) g) \<and> int (count_list (Shards c) g) \<le> mn"
    using assms(3) by (auto simp: analyze_def scanned_def shardCounts_eq)
qed

subsection \<open>The balancing loop ends\<close>

text \<open>Moving a shard from a group to one with at least two fewer lowers the sum of squares.\<close>

definition load :: "ShardConfig \<Rightarrow> int" where
  "load c = (\<Sum>g \<in> gids c. (int (count_list (Shards c) g))\<^sup>2)"

lemma sum_two:
  assumes "finite A" "a \<in> A" "b \<in> A" "a \<noteq> b"
  shows "sum f A = f a + f b + sum f (A - {a, b})"
proof -
  have "sum f A = f a + sum f (A - {a})" using assms by (simp add: sum.remove)
  also have "sum f (A - {a}) = f b + sum f (A - {a} - {b})" using assms by (subst sum.remove) auto
  finally show ?thesis by (simp add: Diff_insert2 [symmetric] insert_commute algebra_simps)
qed

lemma squares_closer: "b + 2 \<le> a \<Longrightarrow> (a - 1)\<^sup>2 + (b + 1)\<^sup>2 < a\<^sup>2 + (b :: int)\<^sup>2"
  by (simp add: power2_eq_square algebra_simps)

lemma load_decreases:
  assumes "length (Shards c) = NShards" "Groups c \<noteq> []" "analyze c = (mg, mn, lg, ln)"
    and "\<not> mn < ln + 2"
  shows "load (c\<lparr>Shards := moveShard mg lg (Shards c)\<rparr>) < load c"
proof -
  note a = analyze_correct [OF assms(1-3)]
  let ?f = "\<lambda>g. int (count_list (Shards c) g)"
  let ?f' = "\<lambda>g. int (count_list (moveShard mg lg (Shards c)) g)"
  have ne: "mg \<noteq> lg" using a(3,4) assms(4) by auto
  have "0 < count_list (Shards c) mg" using a(3,4) assms(4) by linarith
  then have mem: "mg \<in> set (Shards c)" using count_notin by fastforce
  have c: "?f' g = ?f g + (if g = lg then 1 else 0) - (if g = mg then 1 else 0)" for g
    by (rule count_moveShard [OF mem ne])
  have rest: "(\<Sum>g \<in> gids c - {mg, lg}. (?f' g)\<^sup>2) = (\<Sum>g \<in> gids c - {mg, lg}. (?f g)\<^sup>2)"
    using c by (intro sum.cong) auto
  have "(?f' mg)\<^sup>2 + (?f' lg)\<^sup>2 < (?f mg)\<^sup>2 + (?f lg)\<^sup>2"
    using c [of mg] c [of lg] ne a(3,4) assms(4) squares_closer [of "?f lg" "?f mg"] by simp
  then show ?thesis
    using sum_two [OF _ a(1,2) ne, of "\<lambda>g. (?f g)\<^sup>2"] sum_two [OF _ a(1,2) ne, of "\<lambda>g. (?f' g)\<^sup>2"] rest
    by (simp add: load_def)
qed

definition balanced :: "ShardConfig \<Rightarrow> bool" where
  "balanced c \<longleftrightarrow> (\<forall>g \<in> gids c. \<forall>h \<in> gids c. count_list (Shards c) g \<le> count_list (Shards c) h + 1)"

lemma rebalanceLoop_correct:
  assumes "length (Shards c) = NShards" "Groups c \<noteq> []" "set (Shards c) \<subseteq> gids c"
  shows "\<exists>sh. rebalanceLoop c = Some (c\<lparr>Shards := sh\<rparr>) \<and> length sh = NShards \<and>
    set sh \<subseteq> gids c \<and> balanced (c\<lparr>Shards := sh\<rparr>)"
  using assms
proof (induction "nat (load c)" arbitrary: c rule: less_induct)
  case less
  obtain mg mn lg ln where an: "analyze c = (mg, mn, lg, ln)" by (cases "analyze c") auto
  note a = analyze_correct [OF less.prems(1,2) an]
  show ?case
  proof (cases "mn < ln + 2")
    case True
    have "balanced c" unfolding balanced_def
    proof (intro ballI)
      fix g h assume "g \<in> gids c" "h \<in> gids c"
      with a(5) [of g] a(5) [of h] True
      show "count_list (Shards c) g \<le> count_list (Shards c) h + 1" by linarith
    qed
    with True less.prems show ?thesis
      by (intro exI [of _ "Shards c"]) (subst rebalanceLoop.simps, simp add: an)
  next
    case False
    let ?c = "c\<lparr>Shards := moveShard mg lg (Shards c)\<rparr>"
    have dec: "load ?c < load c" using load_decreases [OF less.prems(1,2) an False] .
    have "0 \<le> load ?c" by (simp add: load_def sum_nonneg)
    with dec have lt: "nat (load ?c) < nat (load c)" by linarith
    have "set (Shards ?c) \<subseteq> gids ?c" using moveShard_set [of mg lg] a(2) less.prems(3) by fastforce
    with less.hyps [OF lt] less.prems
    obtain sh where "rebalanceLoop ?c = Some (?c\<lparr>Shards := sh\<rparr>)" "length sh = NShards"
      "set sh \<subseteq> gids c" "balanced (?c\<lparr>Shards := sh\<rparr>)" by auto
    moreover have "rebalanceLoop c = rebalanceLoop ?c"
      using False by (subst rebalanceLoop.simps) (simp add: an)
    ultimately show ?thesis by (intro exI [of _ sh]) simp
  qed
qed


subsection \<open>Assigning the unassigned shards\<close>

lemma assignShard_Groups [simp]: "Groups (assignShard c s) = Groups c" "Num (assignShard c s) = Num c"
  by (simp_all add: assignShard_def)

lemma least_in_groups:
  assumes "length (Shards c) = NShards" "Groups c \<noteq> []"
  shows "least c \<in> gids c"
  using analyze_correct(2) [OF assms] by (cases "analyze c") (auto simp: least_def)

lemma assignLoop:
  assumes "length (Shards c) = NShards" "Groups c \<noteq> []" "k \<le> NShards"
  shows "\<exists>sh. foldl assignShard c [0..<k] = c\<lparr>Shards := sh\<rparr> \<and> length sh = NShards \<and>
    (\<forall>i<k. sh ! i \<in> gids c) \<and> (\<forall>i<NShards. Shards c ! i \<in> gids c \<longrightarrow> sh ! i = Shards c ! i)"
  using assms(3)
proof (induction k)
  case 0
  show ?case using assms(1) by (intro exI [of _ "Shards c"]) simp
next
  case (Suc k)
  then obtain sh where sh: "foldl assignShard c [0..<k] = c\<lparr>Shards := sh\<rparr>" "length sh = NShards"
    "\<forall>i<k. sh ! i \<in> gids c" "\<forall>i<NShards. Shards c ! i \<in> gids c \<longrightarrow> sh ! i = Shards c ! i" by auto
  let ?c = "c\<lparr>Shards := sh\<rparr>"
  have l: "least ?c \<in> gids c" using least_in_groups [of ?c] sh(2) assms(2) by simp
  let ?sh = "if sh ! k \<in> gids c then sh else sh[k := least ?c]"
  have "foldl assignShard c [0..<Suc k] = c\<lparr>Shards := ?sh\<rparr>"
    by (simp add: sh(1) assignShard_def map_of_gids)
  moreover have "\<forall>i<Suc k. ?sh ! i \<in> gids c"
    using sh(2,3) l Suc.prems by (auto simp: less_Suc_eq nth_list_update)
  moreover have "\<forall>i<NShards. Shards c ! i \<in> gids c \<longrightarrow> ?sh ! i = Shards c ! i"
  proof (intro allI impI)
    fix i assume i: "i < NShards" "Shards c ! i \<in> gids c"
    then have "sh ! i = Shards c ! i" using sh(4) by blast
    with i(2) show "?sh ! i = Shards c ! i" by (cases "i = k") auto
  qed
  ultimately show ?case using sh(2) by (intro exI [of _ ?sh]) auto
qed

subsection \<open>Rebalancing\<close>

lemma Rebalance_result:
  assumes "length (Shards c) = NShards" "Groups c \<noteq> []"
  shows "\<exists>sh. Rebalance c = Some (c\<lparr>Shards := sh\<rparr>) \<and> length sh = NShards \<and>
    set sh \<subseteq> gids c \<and> balanced (c\<lparr>Shards := sh\<rparr>)"
proof -
  obtain sh where sh: "foldl assignShard c [0..<NShards] = c\<lparr>Shards := sh\<rparr>" "length sh = NShards"
    "\<forall>i<NShards. sh ! i \<in> gids c"
    using assignLoop [OF assms, of NShards] by auto
  have "set sh \<subseteq> gids c" using sh(2,3) by (auto simp: in_set_conv_nth)
  with rebalanceLoop_correct [of "c\<lparr>Shards := sh\<rparr>"] sh(2) assms
  have "\<exists>sh'. rebalanceLoop (c\<lparr>Shards := sh\<rparr>) = Some (c\<lparr>Shards := sh'\<rparr>) \<and> length sh' = NShards \<and>
    set sh' \<subseteq> gids c \<and> balanced (c\<lparr>Shards := sh'\<rparr>)" by auto
  then show ?thesis using assms by (simp add: Rebalance_def sh(1))
qed

text \<open>
  C11. \<open>Rebalance\<close> ends on every configuration that has a group. Its result differs in the
  assignment only, assigns every shard to a group of the configuration, and no group has more
  than one shard more than another.
\<close>

theorem Rebalance_correct:
  assumes "cfg_ok c" "Groups c \<noteq> []"
  shows "\<exists>sh. Rebalance c = Some (c\<lparr>Shards := sh\<rparr>) \<and> length sh = NShards \<and>
    set sh \<subseteq> gids c \<and> balanced (c\<lparr>Shards := sh\<rparr>)"
  using Rebalance_result assms by (simp add: cfg_ok_def)

theorem Rebalance_correct_witness:
  "\<exists>sh. Rebalance (MakeShardConfig\<lparr>Groups := [(2, [''b'']), (1, [''a''])]\<rparr>) =
      Some (MakeShardConfig\<lparr>Groups := [(2, [''b'']), (1, [''a''])], Shards := sh\<rparr>) \<and>
    set sh \<subseteq> {1, 2} \<and> count_list sh 1 \<le> count_list sh 2 + 1"
proof -
  let ?c = "MakeShardConfig\<lparr>Groups := [(2, [''b'']), (1, [''a''])]\<rparr>"
  have "cfg_ok ?c" "Groups ?c \<noteq> []" by (simp_all add: cfg_ok_def MakeShardConfig_def)
  from Rebalance_correct [OF this] show ?thesis by (auto simp: balanced_def)
qed

text \<open>
  Minimal movement: a configuration in which every shard has a group and the groups are
  balanced is left as it is, no shard is moved.
\<close>

lemma Rebalance_stable:
  assumes "cfg_ok c" "Groups c \<noteq> []" "set (Shards c) \<subseteq> gids c" "balanced c"
  shows "Rebalance c = Some c"
proof -
  have len: "length (Shards c) = NShards" using assms(1) by (simp add: cfg_ok_def)
  obtain sh where sh: "foldl assignShard c [0..<NShards] = c\<lparr>Shards := sh\<rparr>" "length sh = NShards"
    "\<forall>i<NShards. Shards c ! i \<in> gids c \<longrightarrow> sh ! i = Shards c ! i"
    using assignLoop [OF len assms(2), of NShards] by auto
  have "sh = Shards c"
    using sh(2,3) len assms(3) by (intro nth_equalityI) (auto simp: subset_iff)
  moreover have "rebalanceLoop c = Some c"
  proof -
    obtain mg mn lg ln where an: "analyze c = (mg, mn, lg, ln)" by (cases "analyze c") auto
    note a = analyze_correct [OF len assms(2) an]
    have "count_list (Shards c) mg \<le> count_list (Shards c) lg + 1"
      using a(1,2) assms(4) by (auto simp: balanced_def)
    then have "mn < ln + 2" using a(3,4) by linarith
    then show ?thesis by (subst rebalanceLoop.simps) (simp add: an)
  qed
  ultimately show ?thesis using sh(1) assms(2) len by (simp add: Rebalance_def)
qed

lemma Rebalance_stable_witness:
  "let c = MakeShardConfig\<lparr>Shards := [1, 2, 1, 2, 1, 2, 2, 1, 2, 1, 1, 2],
       Groups := [(2, [''b'']), (1, [''a''])]\<rparr> in Rebalance c = Some c"
proof -
  let ?c = "MakeShardConfig\<lparr>Shards := [1, 2, 1, 2, 1, 2, 2, 1, 2, 1, 1, 2],
       Groups := [(2, [''b'']), (1, [''a''])]\<rparr>"
  have "cfg_ok ?c" "Groups ?c \<noteq> []" "set (Shards ?c) \<subseteq> gids ?c" "balanced ?c"
    by (simp_all add: cfg_ok_def MakeShardConfig_def NShards_def balanced_def)
  from Rebalance_stable [OF this] show ?thesis by simp
qed


subsection \<open>The order of the map does not matter\<close>

lemma analyze_cong:
  assumes "Shards c = Shards d" "sort (map fst (Groups c)) = sort (map fst (Groups d))"
  shows "analyze c = analyze d" "least c = least d"
  using assms by (simp_all add: analyze_def least_def)

lemma sort_keys_eq:
  assumes "cfg_ok c" "cfg_ok d" "gids c = gids d"
  shows "sort (map fst (Groups c)) = sort (map fst (Groups d))"
  using assms by (intro sorted_distinct_set_unique) (auto simp: cfg_ok_def)

lemma rebalanceLoop_cong:
  assumes "Shards c = Shards d" "sort (map fst (Groups c)) = sort (map fst (Groups d))"
    "length (Shards c) = NShards" "Groups c \<noteq> []"
  shows "map_option Shards (rebalanceLoop c) = map_option Shards (rebalanceLoop d)"
  using assms
proof (induction "nat (load c)" arbitrary: c d rule: less_induct)
  case less
  obtain mg mn lg ln where an: "analyze c = (mg, mn, lg, ln)" by (cases "analyze c") auto
  then have an': "analyze d = (mg, mn, lg, ln)" using analyze_cong(1) less.prems(1,2) by metis
  let ?m = "\<lambda>c. c\<lparr>Shards := moveShard mg lg (Shards c)\<rparr>"
  show ?case
  proof (cases "mn < ln + 2")
    case True
    then show ?thesis
      using less.prems(1) rebalanceLoop.simps [of c] rebalanceLoop.simps [of d] by (simp add: an an')
  next
    case False
    have "load (?m c) < load c" by (rule load_decreases [OF less.prems(3,4) an False])
    moreover have "0 \<le> load (?m c)" by (simp add: load_def sum_nonneg)
    ultimately have "nat (load (?m c)) < nat (load c)" by linarith
    then have "map_option Shards (rebalanceLoop (?m c)) = map_option Shards (rebalanceLoop (?m d))"
      by (rule less.hyps) (use less.prems in simp_all)
    then show ?thesis
      using False rebalanceLoop.simps [of c] rebalanceLoop.simps [of d] by (simp add: an an')
  qed
qed

text \<open>
  C19. The assignment \<open>Rebalance\<close> computes does not depend on the order in which Go happens
  to iterate over the map of groups, nor on the server names: it is a function of the
  old assignment and the set of group ids.
\<close>

theorem Rebalance_deterministic:
  assumes "cfg_ok c" "cfg_ok d" "Shards c = Shards d" "gids c = gids d"
  shows "map_option Shards (Rebalance c) = map_option Shards (Rebalance d)"
proof (cases "Groups c = []")
  case True
  then have "Groups d = []" using assms(4) by auto
  with True assms(3) show ?thesis by (simp add: Rebalance_def)
next
  case ne: False
  then have ne': "Groups d \<noteq> []" using assms(4) by auto
  have len: "length (Shards c) = NShards" using assms(1) by (simp add: cfg_ok_def)
  note srt = sort_keys_eq [OF assms(1,2,4)]
  have loop: "Shards (foldl assignShard c [0..<k]) = Shards (foldl assignShard d [0..<k]) \<and>
      Groups (foldl assignShard c [0..<k]) = Groups c \<and> Groups (foldl assignShard d [0..<k]) = Groups d" for k
  proof (induction k)
    case (Suc k)
    let ?c = "foldl assignShard c [0..<k]" and ?d = "foldl assignShard d [0..<k]"
    have "least ?c = least ?d" using analyze_cong(2) [of ?c ?d] Suc srt by simp
    with Suc assms(4) show ?case
      by (simp add: assignShard_def [of ?c k] assignShard_def [of ?d k] map_of_gids)
  qed (simp add: assms(3))
  have "length (Shards (foldl assignShard c [0..<NShards])) = NShards"
    using assignLoop [OF len ne, of NShards] by auto
  then show ?thesis
    using rebalanceLoop_cong [of "foldl assignShard c [0..<NShards]" "foldl assignShard d [0..<NShards]"]
      loop [of NShards] ne ne' srt len assms(3) by (simp add: Rebalance_def)
qed

theorem Rebalance_deterministic_witness:
  "map_option Shards (Rebalance (MakeShardConfig\<lparr>Groups := [(2, [''b'']), (1, [''a''])]\<rparr>)) =
   map_option Shards (Rebalance (MakeShardConfig\<lparr>Groups := [(1, [''c'']), (2, [''d''])]\<rparr>))"
  by (rule Rebalance_deterministic) (auto simp: cfg_ok_def MakeShardConfig_def)

subsection \<open>Joining and leaving\<close>

lemma update_new_key: "k \<notin> fst ` set al \<Longrightarrow> AList.update k v al = al @ [(k, v)]"
  by (induction al) auto

definition servers_disjoint :: "(int \<times> string list) list \<Rightarrow> bool" where
  "servers_disjoint gs \<longleftrightarrow>
     (\<forall>(g, ss) \<in> set gs. \<forall>(h, ts) \<in> set gs. g \<noteq> h \<longrightarrow> set ss \<inter> set ts = {})"

lemma joinLoop_all:
  assumes "distinct (map fst (Groups c @ servers))" "servers_disjoint (Groups c @ servers)"
  shows "joinLoop servers c = Some (c\<lparr>Groups := Groups c @ servers\<rparr>, True)"
  using assms
proof (induction servers c rule: joinLoop.induct)
  case (2 gid servers rest cfg)
  have new: "gid \<notin> gids cfg" using "2.prems"(1) by auto
  have clash: "\<not> serverClash servers (Groups cfg)"
  proof
    assume "serverClash servers (Groups cfg)"
    then obtain xgid xs s where x: "(xgid, xs) \<in> set (Groups cfg)" "s \<in> set xs" "s \<in> set servers"
      by (auto simp: serverClash_def)
    from x(1) new have "xgid \<noteq> gid" by force
    with x "2.prems"(2) show False by (force simp: servers_disjoint_def)
  qed
  have upd: "AList.update gid servers (Groups cfg) = Groups cfg @ [(gid, servers)]"
    using new by (rule update_new_key)
  have "map_of (Groups cfg) gid = None" using new map_of_gids by simp
  moreover have "joinLoop rest (cfg\<lparr>Groups := Groups cfg @ [(gid, servers)]\<rparr>) =
      Some (cfg\<lparr>Groups := Groups cfg @ (gid, servers) # rest\<rparr>, True)"
    using "2.IH" [OF _ clash] calculation "2.prems" by (simp add: upd)
  ultimately show ?case using clash by (simp add: upd)
qed simp

lemma scan_bounds:
  "foldl (\<lambda>(mx, mi) (g, _). (if mx < f g then f g else mx, if f g < mi then f g else mi)) (0, 257) gs
     = (mx, mi) \<Longrightarrow> mx \<in> insert 0 (f ` fst ` set gs) \<and> mi \<in> insert (257::int) (f ` fst ` set gs)"
  by (induction gs arbitrary: mx mi rule: rev_induct)
    (auto split: prod.splits if_splits)

lemma CheckConfig_balanced:
  assumes "cfg_ok c" "set (Shards c) \<subseteq> gids c \<or> Groups c = []" "balanced c"
    and "distinct groups" "set groups = gids c"
  shows "CheckConfig groups c"
proof -
  let ?f = "shardCounts (Shards c)"
  have len: "length (Groups c) = length groups"
  proof -
    have "card (gids c) = length (Groups c)"
      using assms(1) distinct_card [of "map fst (Groups c)"] by (simp add: cfg_ok_def)
    then show ?thesis using distinct_card [OF assms(4)] assms(5) by simp
  qed
  obtain mx mi where fold: "foldl (\<lambda>(mx, mi) (g, _).
      (if mx < ?f g then ?f g else mx, if ?f g < mi then ?f g else mi)) (0, 257) (Groups c) = (mx, mi)"
    by fastforce
  have small: "0 \<le> ?f g \<and> ?f g \<le> 12" for g
    using count_le_length [of "Shards c" g] assms(1) by (simp add: shardCounts_eq NShards_def cfg_ok_def)
  have bal: "?f g \<le> ?f h + 1" if "g \<in> gids c" "h \<in> gids c" for g h
    using assms(3) that by (fastforce simp: balanced_def shardCounts_eq)
  have bd: "mx = 0 \<or> (\<exists>g \<in> gids c. mx = ?f g)" "mi = 257 \<or> (\<exists>h \<in> gids c. mi = ?f h)"
    using scan_bounds [OF fold] by blast+
  have mi: "0 \<le> mi" using bd(2) small by auto
  have "mx \<le> mi + 1" using bd(1)
  proof
    assume "\<exists>g \<in> gids c. mx = ?f g"
    then obtain g where g: "g \<in> gids c" "mx = ?f g" by blast
    from bd(2) show ?thesis
    proof
      assume "mi = 257" then show ?thesis using g(2) small [of g] by linarith
    next
      assume "\<exists>h \<in> gids c. mi = ?f h" then show ?thesis using g bal by blast
    qed
  qed (use mi in simp)
  moreover have "(\<forall>g\<in>set groups. map_of (Groups c) g \<noteq> None)"
    using assms(5) by (simp add: map_of_gids)
  moreover have "\<forall>g\<in>set (Shards c). map_of (Groups c) g \<noteq> None" if "0 < length groups"
    using assms(2) that len by (auto simp: map_of_gids)
  ultimately show ?thesis using fold len by (simp add: CheckConfig_def)
qed

text \<open>
  When fresh groups with servers of their own join, \<open>JoinBalance\<close> succeeds: the new
  configuration has the next number, exactly the old and the new groups, and passes the tester's
  check of membership, assignment and balance.
\<close>

lemma JoinBalance_correct:
  assumes "cfg_ok c" "servers \<noteq> []" "distinct (map fst (Groups c @ servers))"
    "servers_disjoint (Groups c @ servers)"
  shows "\<exists>c'. JoinBalance servers c = Some (c', True) \<and> Num c' = Num c + 1 \<and>
    Groups c' = Groups c @ servers \<and> cfg_ok c' \<and>
    CheckConfig (map fst (Groups c @ servers)) c'"
proof -
  let ?c = "c\<lparr>Groups := Groups c @ servers, Num := Num c + 1\<rparr>"
  have join: "Join servers c = Some (?c, True)"
    using joinLoop_all [OF assms(3,4)] assms(2) by (simp add: Join_def)
  obtain sh where sh: "Rebalance ?c = Some (?c\<lparr>Shards := sh\<rparr>)" "length sh = NShards"
    "set sh \<subseteq> gids ?c" "balanced (?c\<lparr>Shards := sh\<rparr>)"
    using Rebalance_result [of ?c] assms(1,2) by (auto simp: cfg_ok_def)
  have ok: "cfg_ok (?c\<lparr>Shards := sh\<rparr>)" using assms(3) sh(2) by (simp add: cfg_ok_def)
  have "CheckConfig (map fst (Groups c @ servers)) (?c\<lparr>Shards := sh\<rparr>)"
    by (rule CheckConfig_balanced [OF ok _ sh(4)]) (use sh(3) assms(3) in \<open>auto simp: image_Un\<close>)
  then show ?thesis
    using join sh(1) ok by (simp add: JoinBalance_def)
qed

theorem JoinBalance_correct_witness:
  "\<exists>c'. JoinBalance [(1, [''x'', ''y''])] MakeShardConfig = Some (c', True) \<and> Num c' = 1 \<and>
     CheckConfig [1] c'"
  using JoinBalance_correct [of MakeShardConfig "[(1, [''x'', ''y''])]"]
  by (auto simp: MakeShardConfig_def cfg_ok_def servers_disjoint_def)

lemma delete_filter: "AList.delete k al = filter (\<lambda>(k', _). k' \<noteq> k) al"
  by (induction al) auto

lemma leaveLoop_all:
  assumes "distinct leaving" "set leaving \<subseteq> gids c"
  shows "leaveLoop leaving c = (c\<lparr>Groups := filter (\<lambda>(k, _). k \<notin> set leaving) (Groups c)\<rparr>, True)"
  using assms
proof (induction leaving c rule: leaveLoop.induct)
  case (2 gid gids' cfg)
  have "map_of (Groups cfg) gid \<noteq> None" using "2.prems" by (simp add: map_of_gids)
  moreover have "set gids' \<subseteq> fst ` set (AList.delete gid (Groups cfg))"
    using "2.prems" by (fastforce simp: delete_filter)
  ultimately show ?case using 2 by (simp add: delete_filter split_def conj_commute)
qed simp

text \<open>
  When groups of the configuration leave, \<open>LeaveBalance\<close> succeeds: the new
  configuration has the next number and exactly the groups that stay, and passes the tester's check;
  when the last group leaves, every shard is back at group 0.
\<close>

lemma LeaveBalance_correct:
  assumes "cfg_ok c" "leaving \<noteq> []" "distinct leaving" "set leaving \<subseteq> gids c"
  shows "\<exists>c'. LeaveBalance leaving c = Some (c', True) \<and> Num c' = Num c + 1 \<and>
    Groups c' = filter (\<lambda>(k, _). k \<notin> set leaving) (Groups c) \<and> cfg_ok c' \<and>
    CheckConfig (filter (\<lambda>k. k \<notin> set leaving) (map fst (Groups c))) c' \<and>
    (set leaving = gids c \<longrightarrow> Shards c' = replicate NShards 0)"
proof -
  let ?gs = "filter (\<lambda>(k, _). k \<notin> set leaving) (Groups c)"
  let ?c = "c\<lparr>Groups := ?gs, Num := Num c + 1\<rparr>"
  have leave: "Leave leaving c = Some (?c, True)"
    using leaveLoop_all [OF assms(3,4)] assms(2) by (simp add: Leave_def)
  have keys: "map fst ?gs = filter (\<lambda>k. k \<notin> set leaving) (map fst (Groups c))"
    by (simp add: filter_map comp_def split_def)
  have dist: "distinct (map fst ?gs)" using assms(1) unfolding keys by (simp add: cfg_ok_def)
  have len: "length (Shards c) = NShards" using assms(1) by (simp add: cfg_ok_def)
  have "\<exists>sh. Rebalance ?c = Some (?c\<lparr>Shards := sh\<rparr>) \<and> length sh = NShards \<and>
    (set sh \<subseteq> gids ?c \<or> ?gs = []) \<and> balanced (?c\<lparr>Shards := sh\<rparr>) \<and>
    (?gs = [] \<longrightarrow> sh = replicate NShards 0)"
  proof (cases "?gs = []")
    case True
    then show ?thesis using len
      by (intro exI [of _ "replicate NShards 0"]) (simp add: Rebalance_def balanced_def map_replicate_const)
  next
    case False
    then show ?thesis using Rebalance_result [of ?c] len by auto
  qed
  then obtain sh where sh: "Rebalance ?c = Some (?c\<lparr>Shards := sh\<rparr>)" "length sh = NShards"
    "set sh \<subseteq> gids ?c \<or> ?gs = []" "balanced (?c\<lparr>Shards := sh\<rparr>)"
    "?gs = [] \<longrightarrow> sh = replicate NShards 0" by blast
  have ok: "cfg_ok (?c\<lparr>Shards := sh\<rparr>)" using dist sh(2) by (simp add: cfg_ok_def)
  have "CheckConfig (map fst ?gs) (?c\<lparr>Shards := sh\<rparr>)"
    by (rule CheckConfig_balanced [OF ok _ sh(4)]) (use sh(3) dist in auto)
  moreover have "?gs = []" if "set leaving = gids c" using that by (force simp: filter_empty_conv)
  ultimately show ?thesis
    using leave sh(1,5) ok by (simp add: LeaveBalance_def keys)
qed

theorem LeaveBalance_correct_witness:
  "\<exists>c'. LeaveBalance [1] (MakeShardConfig\<lparr>Groups := [(1, [''x''])]\<rparr>) = Some (c', True) \<and>
     CheckConfig [] c' \<and> Shards c' = replicate 12 0"
  using LeaveBalance_correct [of "MakeShardConfig\<lparr>Groups := [(1, [''x''])]\<rparr>" "[1]"]
  by (auto simp: MakeShardConfig_def cfg_ok_def NShards_def)

subsection \<open>Every key has a server\<close>

text \<open>
  Every key belongs to one of the shards, and in a configuration that a join or a leave
  left with at least one group, the shard of every key is served by a group of the
  configuration: \<open>GidServers\<close> neither panics nor misses.
\<close>

lemma Key2Shard_served:
  assumes "cfg_ok c" "Groups c \<noteq> []" "Rebalance c = Some c'"
  shows "0 \<le> Key2Shard key \<and> Key2Shard key < int NShards \<and>
    (\<exists>gid srvs. GidServers (Key2Shard key) c' = Some (gid, srvs, True) \<and>
       (gid, srvs) \<in> set (Groups c) \<and> IsMember gid c')"
proof -
  obtain sh where sh: "c' = c\<lparr>Shards := sh\<rparr>" "length sh = NShards" "set sh \<subseteq> gids c"
    using Rebalance_result [of c] assms by (auto simp: cfg_ok_def)
  have key: "0 \<le> Key2Shard key" "Key2Shard key < int NShards"
    by (simp_all add: Key2Shard_def NShards_def)
  let ?g = "sh ! nat (Key2Shard key)"
  have mem: "?g \<in> set sh" using key sh(2) by (intro nth_mem) simp
  then have "map_of (Groups c) ?g \<noteq> None" using sh(3) map_of_gids by blast
  then obtain srvs where "map_of (Groups c) ?g = Some srvs" by blast
  then show ?thesis
    using key sh mem by (auto simp: GidServers_def IsMember_def memberLoop_eq dest: map_of_SomeD)
qed

theorem Key2Shard_served_witness:
  "\<exists>c' gid srvs. Rebalance (MakeShardConfig\<lparr>Groups := [(1, [''x''])]\<rparr>) = Some c' \<and>
     GidServers (Key2Shard ''a'') c' = Some (gid, srvs, True)"
proof -
  let ?c = "MakeShardConfig\<lparr>Groups := [(1, [''x''])]\<rparr>"
  have ok: "cfg_ok ?c" "Groups ?c \<noteq> []" by (simp_all add: cfg_ok_def MakeShardConfig_def)
  from Rebalance_result [of ?c] obtain c' where "Rebalance ?c = Some c'"
    by (auto simp: MakeShardConfig_def)
  with Key2Shard_served [OF ok this, of "''a''"] show ?thesis by blast
qed

lemma Copy_eq: "cfg_ok c \<Longrightarrow> Copy c = c"
proof -
  assume "cfg_ok c"
  then have d: "distinct (map fst (Groups c))" by (simp add: cfg_ok_def)
  have "foldl (\<lambda>c (k, srvs). c\<lparr>Groups := AList.update k srvs (Groups c)\<rparr>) b gs = b\<lparr>Groups := Groups b @ gs\<rparr>"
    if "distinct (map fst (Groups b @ gs))" for b :: ShardConfig and gs
    using that by (induction gs arbitrary: b) (auto simp: update_new_key split: prod.splits)
  then show ?thesis using d by (simp add: Copy_def MakeShardConfig_def)
qed

end
