(* ===== verification/KvSrv.thy ===== *)
theory KvSrv
  imports Prelude "HOL-Library.Word" "HOL-Library.Char_ord" "HOL-Library.List_Lexorder"
begin

text \<open>
  The versioned key/value service: the RPC types of \<open>kvsrv1/rpc/rpc.go\<close>, the server of
  \<open>kvsrv1/server.go\<close>, the clerk of \<open>kvsrv1/client.go\<close> and the sequential specification
  \<open>KvModel\<close> of \<open>models1/kv.go\<close>. Versions are 64-bit words. The clerk's endless retry
  loop runs over a schedule: what the network does to each of its calls, and which
  requests of other clients the server executes in between. Running out of the
  schedule means that the clerk is still in its loop.
\<close>

subsection \<open>RPC types\<close>

datatype Err = ErrEmpty | OK | ErrNoKey | ErrVersion | ErrMaybe | ErrWrongLeader | ErrWrongGroup

type_synonym Tversion = "64 word"

record PutArgs =
  paKey :: string
  paValue :: string
  paVersion :: Tversion

record PutReply =
  prErr :: Err

record GetArgs =
  gaKey :: string

record GetReply =
  grValue :: string
  grVersion :: Tversion
  grErr :: Err

subsection \<open>The server\<close>

record KVEntry =
  Value :: string
  Version :: Tversion

record KVServer =
  data :: "string \<rightharpoonup> KVEntry"

definition MakeKVServer :: KVServer where
  "MakeKVServer = \<lparr>data = Map.empty\<rparr>"

definition Get :: "GetArgs \<Rightarrow> KVServer \<Rightarrow> GetReply" where
  "Get args kv =
     (case data kv (gaKey args) of
        None \<Rightarrow> \<lparr>grValue = [], grVersion = 0, grErr = ErrNoKey\<rparr>
      | Some entry \<Rightarrow> \<lparr>grValue = Value entry, grVersion = Version entry, grErr = OK\<rparr>)"

definition Put :: "PutArgs \<Rightarrow> KVServer \<Rightarrow> KVServer \<times> PutReply" where
  "Put args kv =
     (case data kv (paKey args) of
        None \<Rightarrow>
          if paVersion args = 0
          then (kv\<lparr>data := (data kv)(paKey args \<mapsto> \<lparr>Value = paValue args, Version = 1\<rparr>)\<rparr>, \<lparr>prErr = OK\<rparr>)
          else (kv, \<lparr>prErr = ErrNoKey\<rparr>)
      | Some entry \<Rightarrow>
          if paVersion args \<noteq> Version entry then (kv, \<lparr>prErr = ErrVersion\<rparr>)
          else (kv\<lparr>data := (data kv)(paKey args \<mapsto> \<lparr>Value = paValue args, Version = Version entry + 1\<rparr>)\<rparr>,
                \<lparr>prErr = OK\<rparr>))"

subsection \<open>The clerk\<close>

text \<open>
  What \<open>clnt.Call\<close> may do: lose the request, have it executed and lose the reply, or
  return the reply. A schedule gives for each call the requests of other clients executed
  before it, and its outcome.
\<close>

datatype outcome = Dropped | NoReply | Replied

type_synonym attempt = "PutArgs list \<times> outcome"

definition putAll :: "PutArgs list \<Rightarrow> KVServer \<Rightarrow> KVServer" where
  "putAll reqs kv = fold (\<lambda>a kv. fst (Put a kv)) reqs kv"

definition CallGet :: "outcome \<Rightarrow> GetArgs \<Rightarrow> KVServer \<Rightarrow> GetReply option" where
  "CallGet out args kv = (if out = Replied then Some (Get args kv) else None)"

definition CallPut :: "outcome \<Rightarrow> PutArgs \<Rightarrow> KVServer \<Rightarrow> KVServer \<times> PutReply option" where
  "CallPut out args kv =
     (if out = Dropped then (kv, None)
      else case Put args kv of (kv', reply) \<Rightarrow> (kv', if out = Replied then Some reply else None))"

fun clerkGetLoop :: "GetArgs \<Rightarrow> attempt list \<Rightarrow> KVServer \<Rightarrow> (KVServer \<times> string \<times> Tversion \<times> Err) option" where
  "clerkGetLoop args [] kv = None"
| "clerkGetLoop args ((reqs, out) # sched) kv =
     (let kv1 = putAll reqs kv in
      case CallGet out args kv1 of
        Some reply \<Rightarrow> Some (kv1, grValue reply, grVersion reply, grErr reply)
      | None \<Rightarrow> clerkGetLoop args sched kv1)"

definition clerkGet :: "string \<Rightarrow> attempt list \<Rightarrow> KVServer \<Rightarrow> (KVServer \<times> string \<times> Tversion \<times> Err) option" where
  "clerkGet key = clerkGetLoop \<lparr>gaKey = key\<rparr>"

fun clerkPutLoop :: "bool \<Rightarrow> PutArgs \<Rightarrow> attempt list \<Rightarrow> KVServer \<Rightarrow> (KVServer \<times> Err) option" where
  "clerkPutLoop first args [] kv = None"
| "clerkPutLoop first args ((reqs, out) # sched) kv =
     (case CallPut out args (putAll reqs kv) of
        (kv1, Some reply) \<Rightarrow>
          if prErr reply = ErrVersion
          then (if first then Some (kv1, ErrVersion) else Some (kv1, ErrMaybe))
          else Some (kv1, prErr reply)
      | (kv1, None) \<Rightarrow> clerkPutLoop False args sched kv1)"

definition clerkPut :: "string \<Rightarrow> string \<Rightarrow> Tversion \<Rightarrow> attempt list \<Rightarrow> KVServer \<Rightarrow> (KVServer \<times> Err) option" where
  "clerkPut key value version =
     clerkPutLoop True \<lparr>paKey = key, paValue = value, paVersion = version\<rparr>"

subsection \<open>The sequential specification\<close>

record KvInput =
  inOp :: nat
  inKey :: string
  inValue :: string
  inVersion :: Tversion

record KvOutput =
  outValue :: string
  outVersion :: Tversion
  outErr :: Err

record KvState =
  stValue :: string
  stVersion :: Tversion

definition kvInit :: KvState where "kvInit = \<lparr>stValue = [], stVersion = 0\<rparr>"

text \<open>The state after an operation that is neither a get nor a put is the string \<open><invalid>\<close>: \<open>None\<close>.\<close>

definition kvStep :: "KvState \<Rightarrow> KvInput \<Rightarrow> KvOutput \<Rightarrow> bool \<times> KvState option" where
  "kvStep st inp out =
     (if inOp inp = 0 then (outValue out = stValue st, Some st)
      else if inOp inp = 1 then
        (if stVersion st = inVersion inp
         then (outErr out = OK \<or> outErr out = ErrMaybe, Some \<lparr>stValue = inValue inp, stVersion = stVersion st + 1\<rparr>)
         else (outErr out = ErrVersion \<or> outErr out = ErrMaybe, Some st))
      else (False, None))"

text \<open>\<open>Partition\<close>: the operations of each key, keys in order.\<close>

definition kvPartition :: "('op \<Rightarrow> string) \<Rightarrow> 'op list \<Rightarrow> 'op list list" where
  "kvPartition keyOf history =
     (let m = foldl (\<lambda>m v. m(keyOf v := m (keyOf v) @ [v])) (\<lambda>_. []) history;
          keys = sort (remdups (map keyOf history))
      in map m keys)"

subsection \<open>One request\<close>

definition absKey :: "string \<Rightarrow> KVServer \<Rightarrow> KvState" where
  "absKey k kv = (case data kv k of None \<Rightarrow> kvInit
     | Some e \<Rightarrow> \<lparr>stValue = Value e, stVersion = Version e\<rparr>)"

definition putInput :: "PutArgs \<Rightarrow> KvInput" where
  "putInput a = \<lparr>inOp = 1, inKey = paKey a, inValue = paValue a, inVersion = paVersion a\<rparr>"

definition putOutput :: "Err \<Rightarrow> KvOutput" where
  "putOutput e = \<lparr>outValue = [], outVersion = 0, outErr = e\<rparr>"

lemma Put_cases:
  obtains (fresh) "data kv (paKey a) = None" "paVersion a = 0" "snd (Put a kv) = \<lparr>prErr = OK\<rparr>"
      "fst (Put a kv) = kv\<lparr>data := (data kv)(paKey a \<mapsto> \<lparr>Value = paValue a, Version = 1\<rparr>)\<rparr>"
  | (missing) "data kv (paKey a) = None" "paVersion a \<noteq> 0" "Put a kv = (kv, \<lparr>prErr = ErrNoKey\<rparr>)"
  | (stale) e where "data kv (paKey a) = Some e" "paVersion a \<noteq> Version e"
      "Put a kv = (kv, \<lparr>prErr = ErrVersion\<rparr>)"
  | (update) e where "data kv (paKey a) = Some e" "paVersion a = Version e"
      "snd (Put a kv) = \<lparr>prErr = OK\<rparr>"
      "fst (Put a kv) = kv\<lparr>data := (data kv)(paKey a \<mapsto> \<lparr>Value = paValue a, Version = Version e + 1\<rparr>)\<rparr>"
  by (cases "data kv (paKey a)") (auto simp: Put_def split: if_splits)

lemma Put_err: "prErr (snd (Put a kv)) \<in> {OK, ErrNoKey, ErrVersion}"
  by (rule Put_cases [of kv a]) auto

lemma Put_failed: "prErr (snd (Put a kv)) \<noteq> OK \<Longrightarrow> fst (Put a kv) = kv"
  by (rule Put_cases [of kv a]) auto

lemma Put_step:
  assumes "prErr (snd (Put a kv)) \<noteq> ErrNoKey"
  shows "kvStep (absKey (paKey a) kv) (putInput a) (putOutput (prErr (snd (Put a kv)))) =
      (True, Some (absKey (paKey a) (fst (Put a kv))))"
    and "prErr (snd (Put a kv)) = ErrVersion \<Longrightarrow>
      kvStep (absKey (paKey a) kv) (putInput a) (putOutput ErrMaybe) = (True, Some (absKey (paKey a) kv))"
    and "prErr (snd (Put a kv)) = OK \<Longrightarrow>
      kvStep (absKey (paKey a) kv) (putInput a) (putOutput ErrMaybe) =
        (True, Some (absKey (paKey a) (fst (Put a kv))))"
proof -
  show "kvStep (absKey (paKey a) kv) (putInput a) (putOutput (prErr (snd (Put a kv)))) =
      (True, Some (absKey (paKey a) (fst (Put a kv))))"
    by (rule Put_cases [of kv a])
      (use assms in \<open>auto simp: kvStep_def absKey_def putInput_def putOutput_def kvInit_def\<close>)
  show "prErr (snd (Put a kv)) = ErrVersion \<Longrightarrow>
      kvStep (absKey (paKey a) kv) (putInput a) (putOutput ErrMaybe) = (True, Some (absKey (paKey a) kv))"
    by (rule Put_cases [of kv a]) (auto simp: kvStep_def absKey_def putInput_def putOutput_def)
  show "prErr (snd (Put a kv)) = OK \<Longrightarrow>
      kvStep (absKey (paKey a) kv) (putInput a) (putOutput ErrMaybe) =
        (True, Some (absKey (paKey a) (fst (Put a kv))))"
    by (rule Put_cases [of kv a])
      (auto simp: kvStep_def absKey_def putInput_def putOutput_def kvInit_def)
qed

text \<open>The stored version as a number; 0 for a missing key.\<close>

definition ver :: "string \<Rightarrow> KVServer \<Rightarrow> nat" where
  "ver k kv = unat (stVersion (absKey k kv))"

lemma unat_inc: "unat w + 1 < 2 ^ 64 \<Longrightarrow> unat (w + 1 :: 64 word) = unat w + 1"
  by (subst unat_add_lem [THEN iffD1]) auto

lemma ver_Put:
  assumes "ver k kv + 1 < 2 ^ 64"
  shows "ver k (fst (Put a kv)) =
    ver k kv + (if paKey a = k \<and> prErr (snd (Put a kv)) = OK then 1 else 0)"
  by (rule Put_cases [of kv a])
    (use assms in \<open>auto simp: ver_def absKey_def kvInit_def unat_inc split: option.splits\<close>)

lemma Put_OK_ver: "prErr (snd (Put a kv)) = OK \<Longrightarrow> unat (paVersion a) = ver (paKey a) kv"
  by (rule Put_cases [of kv a]) (auto simp: ver_def absKey_def kvInit_def)

lemma ver_putAll:
  "ver k kv + length reqs < 2 ^ 64 \<Longrightarrow>
     ver k kv \<le> ver k (putAll reqs kv) \<and> ver k (putAll reqs kv) \<le> ver k kv + length reqs"
proof (induction reqs arbitrary: kv)
  case (Cons a reqs)
  have "ver k kv + 1 < 2 ^ 64" using Cons.prems by simp
  note v = ver_Put [OF this, of a]
  then have "ver k (fst (Put a kv)) + length reqs < 2 ^ 64" using Cons.prems by simp
  from Cons.IH [OF this] v show ?case by (auto simp: putAll_def split: if_splits)
qed (simp add: putAll_def)

subsection \<open>Linearisation of the clerk's put\<close>

text \<open>The server before and after each call of the loop, up to the call that returned.\<close>

fun putTrace :: "PutArgs \<Rightarrow> attempt list \<Rightarrow> KVServer \<Rightarrow> (KVServer \<times> KVServer) list" where
  "putTrace args [] kv = []"
| "putTrace args ((reqs, out) # sched) kv =
     (let kv1 = putAll reqs kv; kv2 = fst (CallPut out args kv1) in
      (kv1, kv2) # (if out = Replied then [] else putTrace args sched kv2))"

definition puts :: "attempt list \<Rightarrow> nat" where
  "puts sched = (\<Sum>(reqs, out) \<leftarrow> sched. length reqs + 1)"

definition linearized :: "PutArgs \<Rightarrow> Err \<Rightarrow> (KVServer \<times> KVServer) list \<Rightarrow> bool" where
  "linearized args err tr \<longleftrightarrow>
     (\<exists>i < length tr.
        kvStep (absKey (paKey args) (fst (tr ! i))) (putInput args) (putOutput err) =
          (True, Some (absKey (paKey args) (snd (tr ! i)))) \<and>
        (\<forall>j < length tr. j \<noteq> i \<longrightarrow> fst (tr ! j) = snd (tr ! j)))"

lemma linearized_head:
  assumes "kvStep (absKey (paKey args) b) (putInput args) (putOutput err) =
      (True, Some (absKey (paKey args) a))" "\<forall>(x, y) \<in> set tr. x = y"
  shows "linearized args err ((b, a) # tr)"
proof -
  have "fst (((b, a) # tr) ! j) = snd (((b, a) # tr) ! j)" if j: "j < length ((b, a) # tr)" "j \<noteq> 0" for j
  proof -
    have "((b, a) # tr) ! j \<in> set tr" using j by (cases j) auto
    then show ?thesis using assms(2) by (auto split: prod.splits)
  qed
  then show ?thesis using assms(1) unfolding linearized_def by (intro exI [of _ 0]) auto
qed

lemma linearized_skip: "linearized args err tr \<Longrightarrow> linearized args err ((b, b) # tr)"
  unfolding linearized_def
proof (elim exE conjE, goal_cases)
  case (1 i)
  then show ?case by (intro exI [of _ "Suc i"]) (auto simp: nth_Cons split: nat.splits)
qed

text \<open>Once the version has passed the one of the request, the loop can only end with \<open>ErrMaybe\<close>.\<close>

lemma clerkPut_passed:
  assumes "clerkPutLoop False args sched kv = Some (kv', err)"
    "unat (paVersion args) < ver (paKey args) kv" "ver (paKey args) kv + puts sched < 2 ^ 64"
  shows "err = ErrMaybe \<and> (\<forall>(x, y) \<in> set (putTrace args sched kv). x = y)"
  using assms
proof (induction sched arbitrary: kv)
  case (Cons att sched)
  obtain reqs out where att: "att = (reqs, out)" by (cases att)
  let ?kv = "putAll reqs kv"
  have v: "ver (paKey args) kv \<le> ver (paKey args) ?kv"
    "ver (paKey args) ?kv \<le> ver (paKey args) kv + length reqs"
    using ver_putAll [of "paKey args" kv reqs] Cons.prems(3) by (auto simp: puts_def att)
  have stale: "Put args ?kv = (?kv, \<lparr>prErr = ErrVersion\<rparr>)"
    by (rule Put_cases [of ?kv args])
      (use v(1) Cons.prems(2) in \<open>auto simp: ver_def absKey_def kvInit_def\<close>)
  show ?case
  proof (cases "out = Replied")
    case True
    then show ?thesis using Cons.prems(1) stale by (auto simp: att CallPut_def)
  next
    case False
    then have loop: "clerkPutLoop False args sched ?kv = Some (kv', err)"
      using Cons.prems(1) stale by (auto simp: att CallPut_def split: if_splits)
    have "err = ErrMaybe \<and> (\<forall>(x, y) \<in> set (putTrace args sched ?kv). x = y)"
      using Cons.IH [OF loop] v Cons.prems(2,3) by (simp add: puts_def att)
    then show ?thesis using False stale by (simp add: att CallPut_def Let_def)
  qed
qed simp

lemma clerkPut_linearized:
  assumes "clerkPutLoop first args sched kv = Some (kv', err)"
    "ver (paKey args) kv + puts sched < 2 ^ 64"
  shows "err \<in> {OK, ErrNoKey, ErrVersion, ErrMaybe} \<and>
    (err \<noteq> ErrNoKey \<longrightarrow> linearized args err (putTrace args sched kv)) \<and>
    (err \<in> {ErrNoKey, ErrVersion} \<longrightarrow> (\<forall>(x, y) \<in> set (putTrace args sched kv). x = y))"
  using assms
proof (induction sched arbitrary: first kv)
  case (Cons att sched)
  obtain reqs out where att: "att = (reqs, out)" by (cases att)
  let ?kv = "putAll reqs kv"
  obtain kv2 reply where put: "Put args ?kv = (kv2, reply)" by fastforce
  have v: "ver (paKey args) ?kv + puts sched + 1 < 2 ^ 64"
    using ver_putAll [of "paKey args" kv reqs] Cons.prems(2) by (auto simp: puts_def att)
  note st = Put_step [of args ?kv] and er = Put_err [of args ?kv] and fl = Put_failed [of args ?kv]
  show ?case
  proof (cases out)
    case Dropped
    then have "clerkPutLoop False args sched ?kv = Some (kv', err)"
      using Cons.prems(1) by (simp add: att CallPut_def)
    from Cons.IH [OF this] v Dropped show ?thesis
      by (auto simp: att CallPut_def Let_def linearized_skip)
  next
    case Replied
    have tr: "putTrace args (att # sched) kv = [(?kv, kv2)]"
      using put by (simp add: att Replied CallPut_def Let_def)
    have res: "kv' = kv2"
      "err = (if prErr reply = ErrVersion then (if first then ErrVersion else ErrMaybe) else prErr reply)"
      using Cons.prems(1) put by (auto simp: att Replied CallPut_def split: if_splits)
    have "linearized args err [(?kv, kv2)]" if "err \<noteq> ErrNoKey"
      by (rule linearized_head) (use that st er fl put res in auto)
    then show ?thesis unfolding tr using er fl put res by auto
  next
    case NoReply
    have loop: "clerkPutLoop False args sched kv2 = Some (kv', err)"
      using Cons.prems(1) put by (simp add: att NoReply CallPut_def)
    have tr: "putTrace args (att # sched) kv = (?kv, kv2) # putTrace args sched kv2"
      using put by (simp add: att NoReply CallPut_def Let_def)
    show ?thesis
    proof (cases "prErr reply = OK")
      case True
      have vv: "ver (paKey args) kv2 = ver (paKey args) ?kv + 1"
        using ver_Put [of "paKey args" ?kv args] v put True by simp
      have "unat (paVersion args) < ver (paKey args) kv2"
        using Put_OK_ver [of args ?kv] put True vv by simp
      from clerkPut_passed [OF loop this] v vv
      have "err = ErrMaybe" "\<forall>(x, y) \<in> set (putTrace args sched kv2). x = y" by auto
      moreover have "linearized args ErrMaybe ((?kv, kv2) # putTrace args sched kv2)"
        by (rule linearized_head) (use st True put calculation in auto)
      ultimately show ?thesis unfolding tr by simp
    next
      case False
      then have same: "kv2 = ?kv" using fl put by simp
      from Cons.IH [OF loop] v same show ?thesis unfolding tr by (auto simp: linearized_skip)
    qed
  qed
qed simp



text \<open>
  C20. The clerk returns: a put or a get ends with the first call whose reply arrives, and a get
  then returns what the server holds at that moment, as \<open>KvModel\<close> allows.
\<close>

theorem clerk_returns:
  assumes "Replied \<in> snd ` set sched"
  shows "(\<exists>kv' err. clerkPut key value version sched kv = Some (kv', err)) \<and>
    (\<exists>kv' v n err. clerkGet key sched kv = Some (kv', v, n, err) \<and>
       \<lparr>stValue = v, stVersion = n\<rparr> = absKey key kv' \<and>
       (err = OK \<longleftrightarrow> data kv' key \<noteq> None) \<and>
       kvStep (absKey key kv') \<lparr>inOp = 0, inKey = key, inValue = [], inVersion = 0\<rparr>
         \<lparr>outValue = v, outVersion = n, outErr = err\<rparr> = (True, Some (absKey key kv')))"
proof -
  have "\<exists>kv' err. clerkPutLoop first args sched kv = Some (kv', err)" for first args
    using assms
  proof (induction sched arbitrary: first kv)
    case (Cons att sched)
    then show ?case by (cases att; cases "snd att") (auto simp: CallPut_def split: prod.splits)
  qed simp
  moreover have "\<exists>kv' v n err. clerkGetLoop \<lparr>gaKey = key\<rparr> sched kv = Some (kv', v, n, err) \<and>
      \<lparr>stValue = v, stVersion = n\<rparr> = absKey key kv' \<and> (err = OK \<longleftrightarrow> data kv' key \<noteq> None)"
    using assms
  proof (induction sched arbitrary: kv)
    case (Cons att sched)
    then show ?case
      by (cases att; cases "snd att")
        (auto simp: CallGet_def Get_def absKey_def kvInit_def Let_def split: option.splits)
  qed simp
  moreover have "kvStep (absKey key kv') \<lparr>inOp = 0, inKey = key, inValue = [], inVersion = 0\<rparr>
      \<lparr>outValue = v, outVersion = n, outErr = err\<rparr> = (True, Some (absKey key kv'))"
    if "\<lparr>stValue = v, stVersion = n\<rparr> = absKey key kv'" for kv' v n err
    by (simp add: kvStep_def that [symmetric])
  ultimately show ?thesis unfolding clerkPut_def clerkGet_def by blast
qed

theorem clerk_returns_witness:
  "\<exists>kv' v n err. clerkGet ''k'' [([\<lparr>paKey = ''k'', paValue = ''w'', paVersion = 0\<rparr>], Dropped), ([], Replied)]
     MakeKVServer = Some (kv', v, n, err)"
  using clerk_returns [of "[([\<lparr>paKey = ''k'', paValue = ''w'', paVersion = 0\<rparr>], Dropped), ([], Replied)]"
      "''k''" "[]" 0 MakeKVServer] by auto

subsection \<open>One winner for each version\<close>

fun putResults :: "PutArgs list \<Rightarrow> KVServer \<Rightarrow> Err list" where
  "putResults [] kv = []"
| "putResults (a # reqs) kv = prErr (snd (Put a kv)) # putResults reqs (fst (Put a kv))"

lemma putResults_length [simp]: "length (putResults reqs kv) = length reqs"
  by (induction reqs arbitrary: kv) auto

lemma putResults_ver:
  assumes "j < length reqs" "putResults reqs kv ! j = OK" "paKey (reqs ! j) = k"
    "ver k kv + length reqs < 2 ^ 64"
  shows "ver k kv \<le> unat (paVersion (reqs ! j))"
  using assms
proof (induction reqs arbitrary: kv j)
  case (Cons a reqs)
  have v: "ver k (fst (Put a kv)) =
      ver k kv + (if paKey a = k \<and> prErr (snd (Put a kv)) = OK then 1 else 0)"
    by (rule ver_Put) (use Cons.prems(4) in simp)
  show ?case
  proof (cases j)
    case 0
    then show ?thesis using Cons.prems Put_OK_ver [of a kv] by simp
  next
    case (Suc j')
    then have "ver k (fst (Put a kv)) \<le> unat (paVersion (reqs ! j'))"
      using Cons.IH [of j' "fst (Put a kv)"] Cons.prems v by (simp split: if_splits)
    then show ?thesis using v Suc by (simp split: if_splits)
  qed
qed simp

text \<open>
  The server decides every version of a key once: among all the puts it executes, in
  whatever order they arrive, at most one with a given key and version succeeds.
\<close>

lemma put_version_unique_winner:
  assumes "i < j" "j < length reqs" "putResults reqs kv ! i = OK" "putResults reqs kv ! j = OK"
    "paKey (reqs ! i) = paKey (reqs ! j)" "ver (paKey (reqs ! i)) kv + length reqs < 2 ^ 64"
  shows "paVersion (reqs ! i) \<noteq> paVersion (reqs ! j)"
  using assms
proof (induction reqs arbitrary: kv i j)
  case (Cons a reqs)
  let ?k = "paKey ((a # reqs) ! i)"
  obtain j' where j: "j = Suc j'" using Cons.prems(1) by (cases j) auto
  have v: "ver ?k (fst (Put a kv)) =
      ver ?k kv + (if paKey a = ?k \<and> prErr (snd (Put a kv)) = OK then 1 else 0)"
    by (rule ver_Put) (use Cons.prems(6) in simp)
  show ?case
  proof (cases i)
    case 0
    then have "ver ?k kv + 1 \<le> unat (paVersion (reqs ! j'))"
      using putResults_ver [of j' reqs "fst (Put a kv)" ?k] Cons.prems v j by simp
    moreover have "unat (paVersion a) = ver ?k kv" using Put_OK_ver [of a kv] Cons.prems(3) 0 by simp
    ultimately show ?thesis using 0 j by auto
  next
    case (Suc i')
    then show ?thesis
      using Cons.IH [of i' j' "fst (Put a kv)"] Cons.prems v j by (simp split: if_splits)
  qed
qed simp

theorem put_version_unique_winner_witness:
  "putResults [\<lparr>paKey = ''k'', paValue = ''a'', paVersion = 0\<rparr>, \<lparr>paKey = ''k'', paValue = ''b'', paVersion = 1\<rparr>]
     MakeKVServer = [OK, OK] \<and> (0 :: Tversion) \<noteq> 1"
proof -
  let ?r = "[\<lparr>paKey = ''k'', paValue = ''a'', paVersion = 0\<rparr>, \<lparr>paKey = ''k'', paValue = ''b'', paVersion = 1\<rparr>]"
  have r: "putResults ?r MakeKVServer = [OK, OK]" by (simp add: Put_def MakeKVServer_def)
  have "ver ''k'' MakeKVServer + length ?r < 2 ^ 64"
    by (simp add: ver_def absKey_def kvInit_def MakeKVServer_def)
  with put_version_unique_winner [of 0 1 ?r MakeKVServer] r show ?thesis by simp
qed

subsection \<open>The server implements the specification\<close>

text \<open>
  Request by request the server implements \<open>KvModel\<close> on every key: a get returns the value
  of the model, a put moves the state of its key as the model does and leaves all other keys
  alone, with an error the model accepts, unless the put names a version other than 0 for a key
  that does not exist. That case the server answers with \<open>ErrNoKey\<close>, which changes nothing.
\<close>

lemma server_refines_model:
  "kvStep (absKey (paKey a) kv) (putInput a) (putOutput (prErr (snd (Put a kv)))) =
     (data kv (paKey a) \<noteq> None \<or> paVersion a = 0, Some (absKey (paKey a) (fst (Put a kv)))) \<and>
   (\<forall>k. k \<noteq> paKey a \<longrightarrow> absKey k (fst (Put a kv)) = absKey k kv) \<and>
   \<lparr>stValue = grValue (Get \<lparr>gaKey = key\<rparr> kv), stVersion = grVersion (Get \<lparr>gaKey = key\<rparr> kv)\<rparr> = absKey key kv"
  by (rule Put_cases [of kv a])
    (auto simp: kvStep_def absKey_def putInput_def putOutput_def kvInit_def Get_def split: option.splits)

theorem server_refines_model_witness:
  "fst (kvStep kvInit (putInput \<lparr>paKey = ''k'', paValue = ''a'', paVersion = 3\<rparr>)
     (putOutput (prErr (snd (Put \<lparr>paKey = ''k'', paValue = ''a'', paVersion = 3\<rparr> MakeKVServer))))) = False"
  using server_refines_model [of "\<lparr>paKey = ''k'', paValue = ''a'', paVersion = 3\<rparr>" MakeKVServer "''k''"]
  by (simp add: absKey_def MakeKVServer_def)

lemma kvPartition_fold:
  "foldl (\<lambda>m v. m(keyOf v := m (keyOf v) @ [v])) (\<lambda>_. []) history k = filter (\<lambda>v. keyOf v = k) history"
  by (induction history rule: rev_induct) auto

text \<open>
  \<open>Partition\<close> splits a history into one history per key: the keys that occur, each once
  and in order, each with exactly its own operations in their original order, none lost.
\<close>

theorem kvPartition_correct:
  "kvPartition keyOf history =
     map (\<lambda>k. filter (\<lambda>v. keyOf v = k) history) (sorted_list_of_set (keyOf ` set history)) \<and>
   set (concat (kvPartition keyOf history)) = set history \<and>
   length (concat (kvPartition keyOf history)) = length history"
proof -
  have eq: "kvPartition keyOf history =
      map (\<lambda>k. filter (\<lambda>v. keyOf v = k) history) (sorted_list_of_set (keyOf ` set history))"
    using sorted_list_of_set_sort_remdups [of "map keyOf history"]
    by (simp add: kvPartition_def kvPartition_fold Let_def)
  have "(\<Sum>k \<leftarrow> ks. length (filter (\<lambda>v. keyOf v = k) h)) = length (filter (\<lambda>v. keyOf v \<in> set ks) h)"
    if "distinct ks" for ks and h :: "'a list"
    using that
  proof (induction ks)
    case (Cons k ks)
    have "length (filter (\<lambda>v. keyOf v = k \<or> keyOf v \<in> set ks) h) =
        length (filter (\<lambda>v. keyOf v = k) h) + length (filter (\<lambda>v. keyOf v \<in> set ks) h)"
      using Cons.prems by (induction h) auto
    then show ?case using Cons by simp
  qed simp
  from this [of "sorted_list_of_set (keyOf ` set history)" history]
  have "length (concat (kvPartition keyOf history)) = length history"
    by (simp add: eq length_concat comp_def)
  then show ?thesis by (auto simp: eq)
qed

end
