(* ===== verification/KvTest.thy ===== *)
theory KvTest
  imports KvSrv
begin

text \<open>
  The clients the tester runs against a key/value service: \<open>kvtest1/kvtest.go\<close> and the
  operation log of \<open>kvtest1/porcupine.go\<close>. A clerk is the Go interface \<open>IKVClerk\<close>: its two
  methods are arguments of the definitions, on a state \<open>'s\<close> of the world. What the clients rely on
  is the locale \<open>ikv_clerk\<close>; its interpretation is the clerk of \<open>kvsrv1/client.go\<close> on a
  reliable network. \<open>encoding/json\<close> is a pair of functions \<open>marshal\<close> and \<open>unmarshal\<close>.
  A call of \<open>Fatalf\<close> ends the test: \<open>Fatal\<close>. A loop \<open>for true\<close> is a partial function.
\<close>

datatype 'a test = Fatal | Ret 'a

subsection \<open>The operation log\<close>

record Operation =
  opInput :: KvInput
  opOutput :: KvOutput
  opCall :: int
  opReturn :: int
  ClientId :: int

record 's world =
  store :: 's
  oplog :: "Operation list"
  ops :: nat

type_synonym 's ckGet = "string \<Rightarrow> 's \<Rightarrow> 's \<times> string \<times> Tversion \<times> Err"
type_synonym 's ckPut = "string \<Rightarrow> string \<Rightarrow> Tversion \<Rightarrow> 's \<Rightarrow> 's \<times> Err"

definition OpLogLen :: "'s world \<Rightarrow> nat" where "OpLogLen w = length (oplog w)"

definition OpLogAppend :: "Operation \<Rightarrow> 's world \<Rightarrow> 's world" where
  "OpLogAppend op w = w\<lparr>oplog := oplog w @ [op]\<rparr>"

definition OpLogRead :: "'s world \<Rightarrow> Operation list" where "OpLogRead w = oplog w"

definition OpInc :: "'s world \<Rightarrow> 's world" where "OpInc w = w\<lparr>ops := ops w + 1\<rparr>"

definition getOp :: "string \<Rightarrow> string \<Rightarrow> Tversion \<Rightarrow> Err \<Rightarrow> int \<Rightarrow> int \<Rightarrow> int \<Rightarrow> Operation" where
  "getOp key val n err start end' cli =
     \<lparr>opInput = \<lparr>inOp = 0, inKey = key, inValue = [], inVersion = 0\<rparr>,
      opOutput = \<lparr>outValue = val, outVersion = n, outErr = err\<rparr>,
      opCall = start, opReturn = end', ClientId = cli\<rparr>"

definition putOp :: "string \<Rightarrow> string \<Rightarrow> Tversion \<Rightarrow> Err \<Rightarrow> int \<Rightarrow> int \<Rightarrow> int \<Rightarrow> Operation" where
  "putOp key val n err start end' cli =
     \<lparr>opInput = \<lparr>inOp = 1, inKey = key, inValue = val, inVersion = n\<rparr>,
      opOutput = \<lparr>outValue = [], outVersion = 0, outErr = err\<rparr>,
      opCall = start, opReturn = end', ClientId = cli\<rparr>"

text \<open>The package functions \<open>Get\<close> and \<open>Put\<close>; \<open>clock\<close> reads the monotonic clock.\<close>

definition logGet ::
  "('s \<Rightarrow> int) \<Rightarrow> 's ckGet \<Rightarrow> string \<Rightarrow> int \<Rightarrow> 's world \<Rightarrow> 's world \<times> string \<times> Tversion \<times> Err" where
  "logGet clock ckGet key cli w =
     (let start = clock (store w) in
      case ckGet key (store w) of (s, val, n, err) \<Rightarrow>
        (OpLogAppend (getOp key val n err start (clock s) cli) (OpInc (w\<lparr>store := s\<rparr>)), val, n, err))"

definition logPut ::
  "('s \<Rightarrow> int) \<Rightarrow> 's ckPut \<Rightarrow> string \<Rightarrow> string \<Rightarrow> Tversion \<Rightarrow> int \<Rightarrow> 's world \<Rightarrow> 's world \<times> Err" where
  "logPut clock ckPut key val n cli w =
     (let start = clock (store w) in
      case ckPut key val n (store w) of (s, err) \<Rightarrow>
        (OpLogAppend (putOp key val n err start (clock s) cli) (OpInc (w\<lparr>store := s\<rparr>)), err))"

text \<open>The methods of \<open>Test\<close>: \<open>Put\<close> does not count the operation.\<close>

definition tsGet ::
  "('s \<Rightarrow> int) \<Rightarrow> 's ckGet \<Rightarrow> string \<Rightarrow> int \<Rightarrow> 's world \<Rightarrow> 's world \<times> string \<times> Tversion \<times> Err" where
  "tsGet = logGet"

definition tsPut ::
  "('s \<Rightarrow> int) \<Rightarrow> 's ckPut \<Rightarrow> string \<Rightarrow> string \<Rightarrow> Tversion \<Rightarrow> int \<Rightarrow> 's world \<Rightarrow> 's world \<times> Err" where
  "tsPut clock ckPut key val n cli w =
     (let start = clock (store w) in
      case ckPut key val n (store w) of (s, err) \<Rightarrow>
        (OpLogAppend (putOp key val n err start (clock s) cli) (w\<lparr>store := s\<rparr>), err))"

subsection \<open>Clients\<close>

partial_function (option) PutAtLeastOnce ::
  "('s \<Rightarrow> int) \<Rightarrow> 's ckPut \<Rightarrow> string \<Rightarrow> string \<Rightarrow> Tversion \<Rightarrow> int \<Rightarrow> 's world
    \<Rightarrow> ('s world \<times> Tversion) test option" where
  "PutAtLeastOnce clock ckPut key val n me w =
     (case tsPut clock ckPut key val n me w of (w1, err) \<Rightarrow>
        if err = OK then Some (Ret (w1, n + 1))
        else if err = ErrMaybe \<or> err = ErrVersion
          then PutAtLeastOnce clock ckPut key val (n + 1) me w1
        else if n \<noteq> 0 then Some Fatal
        else PutAtLeastOnce clock ckPut key val n me w1)"

definition CheckGet ::
  "('s \<Rightarrow> int) \<Rightarrow> 's ckGet \<Rightarrow> string \<Rightarrow> string \<Rightarrow> Tversion \<Rightarrow> 's world \<Rightarrow> 's world test" where
  "CheckGet clock ckGet key value version w =
     (case tsGet clock ckGet key 0 w of (w1, val, n, err) \<Rightarrow>
        if err \<noteq> OK then Fatal
        else if val \<noteq> value \<or> n \<noteq> version then Fatal
        else Ret w1)"

definition GetJson ::
  "('s \<Rightarrow> int) \<Rightarrow> 's ckGet \<Rightarrow> (string \<Rightarrow> 'v option) \<Rightarrow> string \<Rightarrow> int \<Rightarrow> 's world
    \<Rightarrow> ('s world \<times> 'v \<times> Tversion) test" where
  "GetJson clock ckGet unmarshal key me w =
     (case logGet clock ckGet key me w of (w1, val, n, err) \<Rightarrow>
        if err = OK then
          (case unmarshal val of None \<Rightarrow> Fatal | Some v \<Rightarrow> Ret (w1, v, n))
        else Fatal)"

definition PutJson ::
  "('s \<Rightarrow> int) \<Rightarrow> 's ckPut \<Rightarrow> ('v \<Rightarrow> string option) \<Rightarrow> string \<Rightarrow> 'v \<Rightarrow> Tversion \<Rightarrow> int \<Rightarrow> 's world
    \<Rightarrow> ('s world \<times> Err) test" where
  "PutJson clock ckPut marshal key v n me w =
     (case marshal v of None \<Rightarrow> Fatal | Some b \<Rightarrow> Ret (logPut clock ckPut key b n me w))"

partial_function (option) PutAtLeastOnceJson ::
  "('s \<Rightarrow> int) \<Rightarrow> 's ckPut \<Rightarrow> ('v \<Rightarrow> string option) \<Rightarrow> string \<Rightarrow> 'v \<Rightarrow> Tversion \<Rightarrow> int \<Rightarrow> 's world
    \<Rightarrow> ('s world \<times> Tversion) test option" where
  "PutAtLeastOnceJson clock ckPut marshal key v n me w =
     (case PutJson clock ckPut marshal key v 0 me w of
        Fatal \<Rightarrow> Some Fatal
      | Ret (w1, err) \<Rightarrow>
          if err \<noteq> ErrMaybe then Some (Ret (w1, n))
          else PutAtLeastOnceJson clock ckPut marshal key v (n + 1) me w1)"

record EntryV =
  evId :: int
  evV :: Tversion

partial_function (option) OnePut ::
  "('s \<Rightarrow> int) \<Rightarrow> 's ckGet \<Rightarrow> 's ckPut \<Rightarrow> (EntryV \<Rightarrow> string option) \<Rightarrow> (string \<Rightarrow> EntryV option)
    \<Rightarrow> int \<Rightarrow> string \<Rightarrow> Tversion \<Rightarrow> 's world \<Rightarrow> ('s world \<times> Tversion \<times> bool) test option" where
  "OnePut clock ckGet ckPut marshal unmarshal me key n w =
     (case PutJson clock ckPut marshal key \<lparr>evId = me, evV = n\<rparr> n me w of
        Fatal \<Rightarrow> Some Fatal
      | Ret (w1, err) \<Rightarrow>
          if \<not> (err = OK \<or> err = ErrVersion \<or> err = ErrMaybe) then Some Fatal
          else (case GetJson clock ckGet unmarshal key me w1 of
             Fatal \<Rightarrow> Some Fatal
           | Ret (w2, e, n0) \<Rightarrow>
               if (err = OK \<and> n0 = n + 1) \<and> (evId e \<noteq> me \<and> evV e \<noteq> n) then Some Fatal
               else if err = OK \<or> err = ErrMaybe then Some (Ret (w2, n0, err = OK))
               else OnePut clock ckGet ckPut marshal unmarshal me key n0 w2))"

record ClntRes =
  Nok :: int
  Nmaybe :: int

text \<open>The round of \<open>OneClientAppend\<close> for its number \<open>i\<close>, and \<open>m\<close> rounds before \<open>done\<close>.\<close>

partial_function (option) appendRound ::
  "('s \<Rightarrow> int) \<Rightarrow> 's ckGet \<Rightarrow> 's ckPut \<Rightarrow> ((int \<times> int) list \<Rightarrow> string option)
    \<Rightarrow> (string \<Rightarrow> (int \<times> int) list option) \<Rightarrow> int \<Rightarrow> int \<Rightarrow> ClntRes \<Rightarrow> 's world
    \<Rightarrow> ('s world \<times> ClntRes) test option" where
  "appendRound clock ckGet ckPut marshal unmarshal me i res w =
     (case GetJson clock ckGet unmarshal ''k'' me w of
        Fatal \<Rightarrow> Some Fatal
      | Ret (w1, es, n) \<Rightarrow>
          (case PutJson clock ckPut marshal ''k'' (es @ [(me, i)]) n me w1 of
             Fatal \<Rightarrow> Some Fatal
           | Ret (w2, err) \<Rightarrow>
               if err = OK then Some (Ret (w2, res\<lparr>Nok := Nok res + 1\<rparr>))
               else if err = ErrMaybe then Some (Ret (w2, res\<lparr>Nmaybe := Nmaybe res + 1\<rparr>))
               else appendRound clock ckGet ckPut marshal unmarshal me i res w2))"

fun OneClientAppend ::
  "('s \<Rightarrow> int) \<Rightarrow> 's ckGet \<Rightarrow> 's ckPut \<Rightarrow> ((int \<times> int) list \<Rightarrow> string option)
    \<Rightarrow> (string \<Rightarrow> (int \<times> int) list option) \<Rightarrow> int \<Rightarrow> int \<Rightarrow> nat \<Rightarrow> ClntRes \<Rightarrow> 's world
    \<Rightarrow> ('s world \<times> ClntRes) test option" where
  "OneClientAppend clock ckGet ckPut marshal unmarshal me i 0 res w = Some (Ret (w, res))"
| "OneClientAppend clock ckGet ckPut marshal unmarshal me i (Suc m) res w =
     do {
       r \<leftarrow> appendRound clock ckGet ckPut marshal unmarshal me i res w;
       case r of Fatal \<Rightarrow> Some Fatal
       | Ret (w1, res1) \<Rightarrow> OneClientAppend clock ckGet ckPut marshal unmarshal me (i + 1) m res1 w1
     }"

subsection \<open>Checks on the results\<close>

definition CheckPutConcurrent ::
  "('s \<Rightarrow> int) \<Rightarrow> 's ckGet \<Rightarrow> (string \<Rightarrow> EntryV option) \<Rightarrow> string \<Rightarrow> ClntRes list \<Rightarrow> ClntRes \<Rightarrow> bool
    \<Rightarrow> 's world \<Rightarrow> ('s world \<times> ClntRes) test" where
  "CheckPutConcurrent clock ckGet unmarshal key rs res reliable w =
     (case GetJson clock ckGet unmarshal key (-1) w of
        Fatal \<Rightarrow> Fatal
      | Ret (w1, e, n0) \<Rightarrow>
          let res1 = foldl (\<lambda>res r. res\<lparr>Nok := Nok res + Nok r, Nmaybe := Nmaybe res + Nmaybe r\<rparr>) res rs
          in if reliable then (if n0 \<noteq> word_of_int (Nok res1) then Fatal else Ret (w1, res1))
             else if word_of_int (Nok res1 + Nmaybe res1) < n0 then Fatal
             else Ret (w1, res1))"

text \<open>
  \<open>CheckAppends\<close>: the scan of the appended tuples (\<open>None\<close> where it fails), then the
  checks on every client of the map \<open>expect\<close>.
\<close>

fun appendsScan ::
  "(int \<times> int) list \<Rightarrow> (int \<Rightarrow> int) \<Rightarrow> (int \<Rightarrow> int) \<Rightarrow> ((int \<Rightarrow> int) \<times> (int \<Rightarrow> int)) option" where
  "appendsScan [] expect skipped = Some (expect, skipped)"
| "appendsScan ((c, n) # es) expect skipped =
     (if n < expect c then None
      else if expect c = n then appendsScan es (expect(c := expect c + 1)) skipped
      else appendsScan es (expect(c := n + 1)) (skipped(c := skipped c + (n - expect c))))"

definition appendsClients :: "(int \<times> int) list \<Rightarrow> int \<Rightarrow> int set" where
  "appendsClients es nclnt = {0..<nclnt} \<union> set (map fst es)"

definition CheckAppends :: "(int \<times> int) list \<Rightarrow> int \<Rightarrow> ClntRes list \<Rightarrow> Tversion \<Rightarrow> bool" where
  "CheckAppends es nclnt rs n =
     (case appendsScan es (\<lambda>_. 0) (\<lambda>_. 0) of
        None \<Rightarrow> False
      | Some (expect, skipped) \<Rightarrow>
          int (length es) + 1 = sint n \<and>
          (\<forall>c \<in> appendsClients es nclnt.
             case goindex rs c of None \<Rightarrow> False
             | Some r \<Rightarrow> skipped c \<le> Nmaybe r \<and> expect c \<le> Nok r + Nmaybe r))"

lemma tsPut_store:
  "tsPut clock put k v n me w = (w', e) \<Longrightarrow>
     put k v n (store w) = (store w', e) \<and> length (oplog w') = Suc (length (oplog w))"
  by (auto simp: tsPut_def OpLogAppend_def split: prod.splits)

lemma logPut_store: "logPut clock put k v n me w = (w', e) \<Longrightarrow> put k v n (store w) = (store w', e)"
  by (auto simp: logPut_def OpLogAppend_def OpInc_def split: prod.splits)

lemma logGet_store: "logGet clock get k me w = (w', v, n, e) \<Longrightarrow> get k (store w) = (store w', v, n, e)"
  by (auto simp: logGet_def OpLogAppend_def OpInc_def split: prod.splits)

subsection \<open>The contract of a clerk\<close>

text \<open>
  What the clients rely on when no one else writes and no message is lost: a put is a
  compare-and-set on the version, a get reads. \<open>look\<close> is the contents of the store.
\<close>

locale ikv_clerk =
  fixes ckGet :: "'s ckGet"
    and ckPut :: "'s ckPut"
    and look :: "'s \<Rightarrow> string \<rightharpoonup> string \<times> Tversion"
  assumes get_look: "ckGet k s = (s', v, n, e) \<Longrightarrow> look s' = look s"
    and get_missing: "look s k = None \<Longrightarrow> ckGet k s = (s', v, n, e) \<Longrightarrow> e = ErrNoKey"
    and get_present: "look s k = Some (v0, n0) \<Longrightarrow> ckGet k s = (s', v, n, e) \<Longrightarrow> v = v0 \<and> n = n0 \<and> e = OK"
    and put_create: "look s k = None \<Longrightarrow> ckPut k v 0 s = (s', e) \<Longrightarrow> e = OK \<and> look s' = (look s)(k \<mapsto> (v, 1))"
    and put_match: "look s k = Some (v0, n) \<Longrightarrow> ckPut k v n s = (s', e) \<Longrightarrow>
        e = OK \<and> look s' = (look s)(k \<mapsto> (v, n + 1))"
    and put_stale: "look s k = Some (v0, n0) \<Longrightarrow> n \<noteq> n0 \<Longrightarrow> ckPut k v n s = (s', e) \<Longrightarrow>
        e = ErrVersion \<and> look s' = look s"
begin

lemmas put_laws = put_create put_match put_stale

lemma logGet_spec:
  assumes "logGet clock ckGet k me w = (w', v, n, e)" "look (store w) k = Some (v0, n0)"
  shows "v = v0 \<and> n = n0 \<and> e = OK \<and> look (store w') = look (store w)"
  using get_look [OF logGet_store [OF assms(1)]] get_present [OF assms(2) logGet_store [OF assms(1)]]
  by simp

lemma PutAtLeastOnce_present:
  assumes "look (store w) k = Some (v0, cur)" "unat n \<le> unat cur"
  shows "\<exists>w'. PutAtLeastOnce clock ckPut k v n me w = Some (Ret (w', cur + 1)) \<and>
    look (store w') = (look (store w))(k \<mapsto> (v, cur + 1)) \<and>
    length (oplog w') = length (oplog w) + (unat cur - unat n) + 1"
  using assms
proof (induction "unat cur - unat n" arbitrary: n w)
  case 0
  then have n: "n = cur" by (simp add: word_unat_eq_iff)
  obtain w1 e where p: "tsPut clock ckPut k v n me w = (w1, e)" by fastforce
  note st = tsPut_store [OF p]
  from put_match [OF _ st [THEN conjunct1]] 0 n
  have "e = OK" "look (store w1) = (look (store w))(k \<mapsto> (v, cur + 1))" by auto
  moreover have "length (oplog w1) = length (oplog w) + 1" using st by simp
  ultimately show ?case using p n by (subst PutAtLeastOnce.simps) simp
next
  case (Suc d)
  then have ne: "n \<noteq> cur" by auto
  obtain w1 e where p: "tsPut clock ckPut k v n me w = (w1, e)" by fastforce
  note st = tsPut_store [OF p]
  from put_stale [OF Suc.prems(1) ne st [THEN conjunct1]]
  have e: "e = ErrVersion" "look (store w1) = look (store w)" by auto
  have len: "length (oplog w1) = length (oplog w) + 1" using st by simp
  have "unat n + 1 \<le> unat cur" using Suc.hyps(2) by linarith
  moreover have "unat cur < 2 ^ 64" using unsigned_less [of cur] by simp
  ultimately have inc: "unat (n + 1) = unat n + 1" by (intro unat_inc) linarith
  have "PutAtLeastOnce clock ckPut k v n me w = PutAtLeastOnce clock ckPut k v (n + 1) me w1"
    using p e by (subst PutAtLeastOnce.simps) simp
  moreover obtain w' where "PutAtLeastOnce clock ckPut k v (n + 1) me w1 = Some (Ret (w', cur + 1))"
      "look (store w') = (look (store w1))(k \<mapsto> (v, cur + 1))"
      "length (oplog w') = length (oplog w1) + (unat cur - unat (n + 1)) + 1"
  proof -
    have "d = unat cur - unat (n + 1)" "unat (n + 1) \<le> unat cur"
      using Suc.hyps(2) inc by linarith+
    then show ?thesis using Suc.hyps(1) [of "n + 1" w1] Suc.prems(1) e that by auto
  qed
  ultimately show ?case using e len inc Suc.hyps(2) by (intro exI [of _ w']) simp
qed

lemma PutAtLeastOnce_fresh:
  assumes "look (store w) k = None"
  shows "\<exists>w'. PutAtLeastOnce clock ckPut k v 0 me w = Some (Ret (w', 1)) \<and>
    look (store w') = (look (store w))(k \<mapsto> (v, 1))"
proof -
  obtain w1 e where p: "tsPut clock ckPut k v 0 me w = (w1, e)" by fastforce
  from put_create [OF assms tsPut_store [OF p, THEN conjunct1]] p show ?thesis by (subst PutAtLeastOnce.simps) simp
qed

lemma appendRound_spec:
  assumes "look (store w) ''k'' = Some (b, n)" "unmarshal b = Some es"
    "marshal (es @ [(me, i)]) = Some b'"
  shows "\<exists>w'. appendRound clock ckGet ckPut marshal unmarshal me i res w =
      Some (Ret (w', res\<lparr>Nok := Nok res + 1\<rparr>)) \<and> look (store w') ''k'' = Some (b', n + 1)"
proof -
  obtain w1 v n1 e where g: "logGet clock ckGet ''k'' me w = (w1, v, n1, e)" by (metis surj_pair)
  from logGet_spec [OF g assms(1)] have r: "v = b" "n1 = n" "e = OK" "look (store w1) = look (store w)"
    by auto
  obtain w2 e2 where p: "logPut clock ckPut ''k'' b' n me w1 = (w2, e2)" by fastforce
  from put_match [OF _ logPut_store [OF p]] r assms(1) have "e2 = OK" "look (store w2) ''k'' = Some (b', n + 1)" by auto
  then show ?thesis
    using g p r assms(2,3) by (subst appendRound.simps) (simp add: GetJson_def PutJson_def)
qed

lemma OneClientAppend_spec:
  assumes "\<And>es :: (int \<times> int) list. \<exists>b. marshal es = Some b \<and> unmarshal b = Some es"
    and "look (store w) ''k'' = Some (b, n)" "unmarshal b = Some es"
  shows "\<exists>w' b'. OneClientAppend clock ckGet ckPut marshal unmarshal me i m res w =
      Some (Ret (w', res\<lparr>Nok := Nok res + int m\<rparr>)) \<and>
    look (store w') ''k'' = Some (b', n + of_nat m) \<and>
    unmarshal b' = Some (es @ map (\<lambda>j. (me, j)) [i..i + int m - 1])"
  using assms(2,3)
proof (induction m arbitrary: i b n es res w)
  case (Suc m)
  obtain b1 where b1: "marshal (es @ [(me, i)]) = Some b1" "unmarshal b1 = Some (es @ [(me, i)])"
    using assms(1) by blast
  from appendRound_spec [of w b n unmarshal es marshal me i b1 clock res, OF Suc.prems b1(1)]
  obtain w1 where w1: "appendRound clock ckGet ckPut marshal unmarshal me i res w =
      Some (Ret (w1, res\<lparr>Nok := Nok res + 1\<rparr>))" "look (store w1) ''k'' = Some (b1, n + 1)" by blast
  from Suc.IH [OF w1(2) b1(2), of "i + 1" "res\<lparr>Nok := Nok res + 1\<rparr>"] w1(1) show ?case
    by (auto simp: upto_rec1 [of i] algebra_simps)
qed simp

end

text \<open>The clerk of \<open>kvsrv1/client.go\<close> on a reliable network: every call is answered.\<close>

definition relGet :: "KVServer ckGet" where
  "relGet key kv = the (clerkGet key [([], Replied)] kv)"

definition relPut :: "KVServer ckPut" where
  "relPut key v n kv = the (clerkPut key v n [([], Replied)] kv)"

definition lookup :: "KVServer \<Rightarrow> string \<rightharpoonup> string \<times> Tversion" where
  "lookup kv k = map_option (\<lambda>e. (Value e, Version e)) (data kv k)"

interpretation rel: ikv_clerk relGet relPut lookup
proof
  fix k v s s' n e
  show "relGet k s = (s', v, n, e) \<Longrightarrow> lookup s' = lookup s"
    by (simp add: relGet_def clerkGet_def CallGet_def putAll_def Get_def lookup_def split: option.splits)
  show "lookup s k = None \<Longrightarrow> relGet k s = (s', v, n, e) \<Longrightarrow> e = ErrNoKey"
    by (simp add: relGet_def clerkGet_def CallGet_def putAll_def Get_def lookup_def split: option.splits)
  show "lookup s k = Some (v0, n0) \<Longrightarrow> relGet k s = (s', v, n, e) \<Longrightarrow> v = v0 \<and> n = n0 \<and> e = OK" for v0 n0
    by (auto simp: relGet_def clerkGet_def CallGet_def putAll_def Get_def lookup_def split: option.splits)
  show "lookup s k = None \<Longrightarrow> relPut k v 0 s = (s', e) \<Longrightarrow> e = OK \<and> lookup s' = (lookup s)(k \<mapsto> (v, 1))"
    by (auto simp: relPut_def clerkPut_def CallPut_def putAll_def Put_def lookup_def split: option.splits)
  show "lookup s k = Some (v0, n) \<Longrightarrow> relPut k v n s = (s', e) \<Longrightarrow>
      e = OK \<and> lookup s' = (lookup s)(k \<mapsto> (v, n + 1))" for v0
    by (auto simp: relPut_def clerkPut_def CallPut_def putAll_def Put_def lookup_def split: option.splits)
  show "lookup s k = Some (v0, n0) \<Longrightarrow> n \<noteq> n0 \<Longrightarrow> relPut k v n s = (s', e) \<Longrightarrow>
      e = ErrVersion \<and> lookup s' = lookup s" for v0 n0
    by (auto simp: relPut_def clerkPut_def CallPut_def putAll_def Put_def lookup_def split: option.splits)
qed

subsection \<open>Clients on a reliable network\<close>



text \<open>
  On a reliable network a client that appends to the shared key for \<open>m\<close> rounds ends with all
  \<open>m\<close> rounds counted as successful: the value has grown by exactly its \<open>m\<close> tuples in order and
  the version by \<open>m\<close>, for every JSON codec that decodes what it encodes.
\<close>

lemma OneClientAppend_appends:
  assumes "\<And>es :: (int \<times> int) list. \<exists>b. marshal es = Some b \<and> unmarshal b = Some es"
    "lookup (store w) ''k'' = Some (b, n)" "unmarshal b = Some es"
  shows "\<exists>w' b'. OneClientAppend clock relGet relPut marshal unmarshal me 0 m \<lparr>Nok = 0, Nmaybe = 0\<rparr> w =
      Some (Ret (w', \<lparr>Nok = int m, Nmaybe = 0\<rparr>)) \<and>
    lookup (store w') ''k'' = Some (b', n + of_nat m) \<and>
    unmarshal b' = Some (es @ map (\<lambda>j. (me, j)) [0..int m - 1])"
  using rel.OneClientAppend_spec [of marshal unmarshal w b n es clock me 0 m "\<lparr>Nok = 0, Nmaybe = 0\<rparr>"]
    assms by simp

text \<open>A codec that satisfies the hypothesis: tuples as pairs of characters of unary numerals.\<close>

definition unary :: "int \<Rightarrow> string" where
  "unary i = (if 0 \<le> i then replicate (nat i) CHR ''p'' else replicate (nat (- i)) CHR ''m'') @ '';''"

fun ununary :: "string \<Rightarrow> int \<times> string" where
  "ununary [] = (0, [])"
| "ununary (c # cs) =
     (if c = CHR '';'' then (0, cs)
      else case ununary cs of (i, r) \<Rightarrow> (if c = CHR ''p'' then i + 1 else i - 1, r))"

lemma ununary_unary: "ununary (unary i @ cs) = (i, cs)"
proof -
  have "ununary (replicate n CHR ''p'' @ CHR '';'' # cs) = (int n, cs)"
    "ununary (replicate n CHR ''m'' @ CHR '';'' # cs) = (- int n, cs)" for n
    by (induction n) auto
  then show ?thesis by (auto simp: unary_def)
qed

lemma ununary_shorter: "cs \<noteq> [] \<Longrightarrow> ununary cs = (i, r) \<Longrightarrow> length r < length cs"
proof (induction cs arbitrary: i r)
  case (Cons c cs)
  then show ?case by (cases cs) (auto split: if_splits prod.splits)
qed simp

lemma ununary_le: "ununary cs = (i, r) \<Longrightarrow> length r \<le> length cs \<and> (cs \<noteq> [] \<longrightarrow> length r < length cs)"
  using ununary_shorter [of cs i r] by (cases "cs = []") auto

definition encPairs :: "(int \<times> int) list \<Rightarrow> string" where
  "encPairs es = concat (map (\<lambda>(a, b). unary a @ unary b) es)"

function decPairs :: "string \<Rightarrow> (int \<times> int) list" where
  "decPairs cs =
     (if cs = [] then []
      else case ununary cs of (a, r) \<Rightarrow> (case ununary r of (b, r') \<Rightarrow> (a, b) # decPairs r'))"
  by pat_completeness auto
termination
  by (relation "measure length") (auto dest!: ununary_le [OF sym])

declare decPairs.simps [simp del]

lemma dec_encPairs: "decPairs (encPairs es) = es"
proof (induction es)
  case Nil
  show ?case by (simp add: encPairs_def decPairs.simps)
next
  case (Cons e es)
  obtain a b where e: "e = (a, b)" by (cases e)
  have eq: "encPairs (e # es) = unary a @ (unary b @ encPairs es)" by (simp add: encPairs_def e)
  have "unary a \<noteq> []" by (simp add: unary_def)
  then show ?case
    unfolding eq by (subst decPairs.simps) (simp add: ununary_unary Cons.IH e)
qed

theorem OneClientAppend_appends_witness:
  "\<exists>w' b'. OneClientAppend (\<lambda>_. 0) relGet relPut (Some \<circ> encPairs) (Some \<circ> decPairs) 5 0 2
      \<lparr>Nok = 0, Nmaybe = 0\<rparr> \<lparr>store = \<lparr>data = [''k'' \<mapsto> \<lparr>Value = [], Version = 1\<rparr>]\<rparr>, oplog = [], ops = 0\<rparr> =
      Some (Ret (w', \<lparr>Nok = 2, Nmaybe = 0\<rparr>)) \<and> lookup (store w') ''k'' = Some (b', 3) \<and>
      decPairs b' = [(5, 0), (5, 1)]"
proof -
  let ?w = "\<lparr>store = \<lparr>data = [''k'' \<mapsto> \<lparr>Value = [], Version = 1\<rparr>]\<rparr>, oplog = [], ops = 0\<rparr> :: KVServer world"
  have json: "\<exists>b. (Some \<circ> encPairs) es = Some b \<and> (Some \<circ> decPairs) b = Some es" for es
    by (simp add: dec_encPairs)
  have w: "lookup (store ?w) ''k'' = Some ([], 1)" "(Some \<circ> decPairs) [] = Some []"
    by (simp_all add: lookup_def decPairs.simps)
  from OneClientAppend_appends [of "Some \<circ> encPairs" "Some \<circ> decPairs", OF json w, of "\<lambda>_. 0" 5 2]
  show ?thesis by (simp add: upto_rec1)
qed

subsection \<open>The check of the appended tuples\<close>

definition clientSeq :: "int \<Rightarrow> (int \<times> int) list \<Rightarrow> int list" where
  "clientSeq c es = map snd (filter (\<lambda>e. fst e = c) es)"

text \<open>
  The numbers of one client are in order from \<open>e\<close> on, and the next number expected after them.
\<close>

fun inOrder :: "int \<Rightarrow> int list \<Rightarrow> bool" where
  "inOrder e [] = True"
| "inOrder e (n # ns) = (e \<le> n \<and> inOrder (n + 1) ns)"

fun nextNum :: "int \<Rightarrow> int list \<Rightarrow> int" where
  "nextNum e [] = e"
| "nextNum e (n # ns) = nextNum (n + 1) ns"

lemma inOrder_iff: "inOrder e ns \<longleftrightarrow> sorted_wrt (<) ns \<and> (\<forall>n \<in> set ns. e \<le> n)"
  by (induction e ns rule: inOrder.induct) force+

lemma nextNum_last: "nextNum e ns = (if ns = [] then e else last ns + 1)"
  by (induction e ns rule: nextNum.induct) auto

lemma appendsScan_Cons:
  "appendsScan ((c, n) # es) expect skipped =
     (if n < expect c then None
      else appendsScan es (expect(c := n + 1)) (skipped(c := skipped c + (n - expect c))))"
  by auto

lemma clientSeq_Cons:
  "clientSeq d ((c, n) # es) = (if d = c then n # clientSeq c es else clientSeq d es)"
  by (simp add: clientSeq_def)

lemma appendsScan_spec:
  "appendsScan es expect skipped =
     (if \<forall>c. inOrder (expect c) (clientSeq c es)
      then Some (\<lambda>c. nextNum (expect c) (clientSeq c es),
                 \<lambda>c. skipped c + (nextNum (expect c) (clientSeq c es) - expect c - int (length (clientSeq c es))))
      else None)"
proof (induction es arbitrary: expect skipped)
  case Nil
  show ?case by (simp add: clientSeq_def)
next
  case (Cons x es)
  obtain c n where x: "x = (c, n)" by (cases x)
  show ?case
  proof (cases "n < expect c")
    case True
    then have "\<not> inOrder (expect c) (clientSeq c (x # es))" by (simp add: x clientSeq_Cons)
    then show ?thesis using True by (auto simp: x)
  next
    case False
    have iff: "(\<forall>d. inOrder ((expect(c := n + 1)) d) (clientSeq d es)) \<longleftrightarrow>
        (\<forall>d. inOrder (expect d) (clientSeq d (x # es)))"
      using False by (auto simp: x clientSeq_Cons)
    have nx: "(\<lambda>d. nextNum ((expect(c := n + 1)) d) (clientSeq d es)) =
        (\<lambda>d. nextNum (expect d) (clientSeq d (x # es)))"
      by (rule ext) (simp add: x clientSeq_Cons)
    have sk: "(\<lambda>d. (skipped(c := skipped c + (n - expect c))) d +
        (nextNum ((expect(c := n + 1)) d) (clientSeq d es) - (expect(c := n + 1)) d - int (length (clientSeq d es)))) =
        (\<lambda>d. skipped d + (nextNum (expect d) (clientSeq d (x # es)) - expect d - int (length (clientSeq d (x # es)))))"
      by (rule ext) (simp add: x clientSeq_Cons)
    have "appendsScan (x # es) expect skipped =
        appendsScan es (expect(c := n + 1)) (skipped(c := skipped c + (n - expect c)))"
      using False by (simp only: x appendsScan_Cons if_False)
    then show ?thesis
      using Cons.IH [of "expect(c := n + 1)" "skipped(c := skipped c + (n - expect c))"]
      by (simp only: iff nx sk)
  qed
qed

lemma CheckAppends_eq:
  "CheckAppends es nclnt rs n \<longleftrightarrow>
     (\<forall>c. inOrder 0 (clientSeq c es)) \<and> int (length es) + 1 = sint n \<and>
     (\<forall>c \<in> appendsClients es nclnt. \<exists>r. goindex rs c = Some r \<and>
        nextNum 0 (clientSeq c es) - int (length (clientSeq c es)) \<le> Nmaybe r \<and>
        nextNum 0 (clientSeq c es) \<le> Nok r + Nmaybe r)"
  by (auto simp: CheckAppends_def appendsScan_spec split: option.splits)

text \<open>
  \<open>CheckAppends\<close> raises no false alarm: when every client's tuples are on the server in the
  order of its rounds, none from a round it did not run, all of its successful rounds among them, and the
  version counts one put for every tuple and one for the creation, the check passes.
\<close>

lemma CheckAppends_complete:
  assumes "\<And>c. sorted_wrt (<) (clientSeq c es)" "int (length es) + 1 = sint n"
    "fst ` set es \<subseteq> {0..<nclnt}" "nclnt = int (length rs)"
    "\<And>c m. 0 \<le> c \<Longrightarrow> c < nclnt \<Longrightarrow> m \<in> set (clientSeq c es) \<Longrightarrow> 0 \<le> m \<and> m < Nok (rs ! nat c) + Nmaybe (rs ! nat c)"
    "\<And>c. 0 \<le> c \<Longrightarrow> c < nclnt \<Longrightarrow> Nok (rs ! nat c) \<le> int (length (clientSeq c es))"
    "\<And>r. r \<in> set rs \<Longrightarrow> 0 \<le> Nok r \<and> 0 \<le> Nmaybe r"
  shows "CheckAppends es nclnt rs n"
proof -
  have none: "clientSeq c es = []" if "\<not> (0 \<le> c \<and> c < nclnt)" for c
    using that assms(3) by (force simp: clientSeq_def filter_empty_conv)
  have order: "inOrder 0 (clientSeq c es)" for c
    using assms(1) assms(5) [of c] none [of c] by (cases "0 \<le> c \<and> c < nclnt") (auto simp: inOrder_iff)
  have clients: "appendsClients es nclnt = {0..<nclnt}" using assms(3) by (auto simp: appendsClients_def)
  have "goindex rs c = Some (rs ! nat c) \<and>
        nextNum 0 (clientSeq c es) - int (length (clientSeq c es)) \<le> Nmaybe (rs ! nat c) \<and>
        nextNum 0 (clientSeq c es) \<le> Nok (rs ! nat c) + Nmaybe (rs ! nat c)"
    if c: "0 \<le> c" "c < nclnt" for c
  proof -
    have r: "0 \<le> Nok (rs ! nat c) \<and> 0 \<le> Nmaybe (rs ! nat c)"
      using assms(4,7) c by (intro assms(7)) simp
    have nn: "nextNum 0 (clientSeq c es) \<le> Nok (rs ! nat c) + Nmaybe (rs ! nat c)"
      using assms(5) [OF c, of "last (clientSeq c es)"] r by (auto simp: nextNum_last)
    then show ?thesis using assms(4,6) c by fastforce
  qed
  then show ?thesis using assms(2) order by (auto simp: CheckAppends_eq clients)
qed

theorem CheckAppends_complete_witness:
  "CheckAppends [(0, 0), (1, 1), (0, 1)] 2 [\<lparr>Nok = 2, Nmaybe = 0\<rparr>, \<lparr>Nok = 1, Nmaybe = 1\<rparr>] 4"
proof (rule CheckAppends_complete)
  have *: "c = 0 \<or> c = 1" if "0 \<le> c" "c < 2" for c :: int using that by linarith
  show "sorted_wrt (<) (clientSeq c [(0, 0), (1, 1), (0, 1)])" for c by (simp add: clientSeq_def)
  show "0 \<le> m \<and> m < Nok ([\<lparr>Nok = 2, Nmaybe = 0\<rparr>, \<lparr>Nok = 1, Nmaybe = 1\<rparr>] ! nat c) +
      Nmaybe ([\<lparr>Nok = 2, Nmaybe = 0\<rparr>, \<lparr>Nok = 1, Nmaybe = 1\<rparr>] ! nat c)"
    if "0 \<le> c" "c < 2" "m \<in> set (clientSeq c [(0, 0), (1, 1), (0, 1)])" for c m
    using that * [of c] by (auto simp: clientSeq_def)
  show "Nok ([\<lparr>Nok = 2, Nmaybe = 0\<rparr>, \<lparr>Nok = 1, Nmaybe = 1\<rparr>] ! nat c) \<le>
      int (length (clientSeq c [(0, 0), (1, 1), (0, 1)]))" if "0 \<le> c" "c < 2" for c
    using that * [of c] by (auto simp: clientSeq_def)
qed auto

end
