(* ===== verification/ShardTest.thy ===== *)
theory ShardTest
  imports ShardCfg TesterGroup KvTest
begin

text \<open>
  The tester of the sharded service, \<open>shardkv1/test.go\<close>: groups that are started and join a configuration, groups that leave and are
  shut down, and the verdicts of its tests. The controller of \<open>shardkv1/shardctrler/\<close> is a stub, so its three methods are
  arguments, and what its comments promise of them is \<open>ctl_ok\<close>; with the methods as they are, every
  change of the configuration panics. \<open>None\<close> is a panic or \<open>log.Fatalf\<close>.
\<close>

subsection \<open>The controller\<close>

record 'k ctl =
  InitConfig :: "ShardConfig \<Rightarrow> 'k \<Rightarrow> 'k"
  ChangeConfigTo :: "ShardConfig \<Rightarrow> 'k \<Rightarrow> 'k"
  Query :: "'k \<Rightarrow> 'k \<times> ShardConfig option"

text \<open>The controller of the tree: \<open>InitConfig\<close> and \<open>ChangeConfigTo\<close> do nothing and \<open>Query\<close> returns nil.\<close>

definition stubCtl :: "'k ctl" where
  "stubCtl = \<lparr>InitConfig = (\<lambda>cfg k. k), ChangeConfigTo = (\<lambda>new k. k), Query = (\<lambda>k. (k, None))\<rparr>"

text \<open>What the comments promise while no other controller takes over: \<open>cfgOf\<close> is the current configuration.\<close>

definition ctl_ok :: "'k ctl \<Rightarrow> ('k \<Rightarrow> ShardConfig) \<Rightarrow> bool" where
  "ctl_ok ct cfgOf \<longleftrightarrow>
     (\<forall>cfg k. cfgOf (InitConfig ct cfg k) = cfg) \<and> (\<forall>new k. cfgOf (ChangeConfigTo ct new k) = new) \<and>
     (\<forall>k. \<exists>k'. Query ct k = (k', Some (cfgOf k)) \<and> cfgOf k' = cfgOf k)"

subsection \<open>Joining and leaving\<close>

definition NSRV :: nat where "NSRV = 3"
definition Gid1 :: int where "Gid1 = 1"

record ('k, 'b, 'st) shardTest =
  sck :: 'k
  sgroups :: "'b Groups \<times> 'st Network"
  ngid :: int

definition newGid :: "('k, 'b, 'st) shardTest \<Rightarrow> ('k, 'b, 'st) shardTest \<times> int" where
  "newGid ts = (ts\<lparr>ngid := ngid ts + 1\<rparr>, ngid ts)"

fun newGroups :: "nat \<Rightarrow> ('k, 'b, 'st) shardTest \<Rightarrow> ('k, 'b, 'st) shardTest \<times> int list" where
  "newGroups 0 ts = (ts, [])"
| "newGroups (Suc n) ts =
     (case newGroups n ts of (ts1, grps) \<Rightarrow> case newGid ts1 of (ts2, gid) \<Rightarrow> (ts2, grps @ [gid]))"

definition checkMember :: "'k ctl \<Rightarrow> int \<Rightarrow> 'k \<Rightarrow> ('k \<times> bool) option" where
  "checkMember ct gid k = (case Query ct k of (k1, cfg) \<Rightarrow> do { c \<leftarrow> cfg; Some (k1, IsMember gid c) })"

definition joinOne :: "'k ctl \<Rightarrow> int \<Rightarrow> string list \<Rightarrow> 'k \<Rightarrow> 'k option" where
  "joinOne ct gid names k =
     (case Query ct k of (k1, cfg) \<Rightarrow> do {
        c \<leftarrow> cfg;
        (newcfg, ok) \<leftarrow> JoinBalance [(gid, names)] (Copy c);
        if \<not> ok then None else Some (ChangeConfigTo ct newcfg k1)
      })"

definition leaveOne :: "'k ctl \<Rightarrow> int \<Rightarrow> 'k \<Rightarrow> 'k option" where
  "leaveOne ct gid k =
     (case Query ct k of (k1, cfg) \<Rightarrow> do {
        c \<leftarrow> cfg;
        (newcfg, ok) \<leftarrow> LeaveBalance [gid] (Copy c);
        if \<not> ok then None else Some (ChangeConfigTo ct newcfg k1)
      })"

text \<open>\<open>rs\<close> and \<open>ls\<close> are the random names and the launches of the servers of each group.\<close>

fun joinGroups :: "'k ctl \<Rightarrow> (int \<Rightarrow> nat \<Rightarrow> string list) \<Rightarrow> (int \<Rightarrow> nat \<Rightarrow> 'st launch) \<Rightarrow> int list
    \<Rightarrow> ('k, 'b, 'st) shardTest \<Rightarrow> (('k, 'b, 'st) shardTest \<times> bool) option" where
  "joinGroups ct rs ls [] ts = Some (ts, True)"
| "joinGroups ct rs ls (gid # rest) ts =
     do {
       g \<leftarrow> MakeGroupStart (rs gid) (ls gid) gid NSRV (sgroups ts);
       sg \<leftarrow> lookupGroup gid (fst g);
       k \<leftarrow> joinOne ct gid (servernames sg) (sck ts);
       (k1, ok) \<leftarrow> checkMember ct gid k;
       let ts1 = ts\<lparr>sgroups := g, sck := k1\<rparr>;
       if \<not> ok then Some (ts1, False) else joinGroups ct rs ls rest ts1
     }"

fun leaveGroups :: "'k ctl \<Rightarrow> int list \<Rightarrow> ('k, 'b, 'st) shardTest \<Rightarrow> (('k, 'b, 'st) shardTest \<times> bool) option" where
  "leaveGroups ct [] ts = Some (ts, True)"
| "leaveGroups ct (gid # rest) ts =
     do {
       k \<leftarrow> leaveOne ct gid (sck ts);
       (k1, member) \<leftarrow> checkMember ct gid k;
       if member then Some (ts\<lparr>sck := k1\<rparr>, False)
       else do {
         g \<leftarrow> ExitGroup gid (sgroups ts);
         leaveGroups ct rest (ts\<lparr>sck := k1, sgroups := g\<rparr>)
       }
     }"

definition setupKVService :: "'k ctl \<Rightarrow> (nat \<Rightarrow> string list) \<Rightarrow> (nat \<Rightarrow> 'st launch) \<Rightarrow> ('k, 'b, 'st) shardTest
    \<Rightarrow> (('k, 'b, 'st) shardTest \<times> int) option" where
  "setupKVService ct rs ls ts =
     do {
       let scfg = MakeShardConfig;
       g \<leftarrow> MakeGroupStart rs ls Gid1 NSRV (sgroups ts);
       sg \<leftarrow> lookupGroup Gid1 (fst g);
       (scfg1, ok) \<leftarrow> JoinBalance [(Gid1, servernames sg)] scfg;
       Some (ts\<lparr>sgroups := g, sck := InitConfig ct scfg1 (sck ts)\<rparr>, Gid1)
     }"

subsection \<open>Verdicts\<close>

text \<open>
  The loop of \<open>checkShutdownSharding\<close> over the gets that end before two seconds pass without one: which key, and the value.
\<close>

fun shardingLoop :: "string list \<Rightarrow> nat \<Rightarrow> nat \<Rightarrow> (nat \<times> string) list \<Rightarrow> unit test" where
  "shardingLoop va n ndone [] = (if n \<le> ndone then Fatal else Ret ())"
| "shardingLoop va n ndone ((i, v) # results) = (if v \<noteq> va ! i then Fatal else shardingLoop va n (ndone + 1) results)"

definition checkShutdownSharding :: "string list \<Rightarrow> string list \<Rightarrow> (nat \<times> string) list \<Rightarrow> unit test" where
  "checkShutdownSharding ka va results = shardingLoop va (length ka) 0 results"

text \<open>
  The verdict of \<open>partitionCtrler\<close> on the configuration after recovery, \<open>state\<close> being 1 while the first controller joined group \<open>ngid\<close> and
  2 while the group left: fatal, or whether the group is taken out again.
\<close>

definition recoveryVerdict :: "int \<Rightarrow> nat \<Rightarrow> int \<Rightarrow> ShardConfig \<Rightarrow> bool test" where
  "recoveryVerdict num st gid cfg =
     (if Num cfg \<le> num then Fatal
      else let present = IsMember gid cfg in
        if st = 1 \<and> \<not> present \<or> st = 2 \<and> present then Fatal else Ret (st = 1 \<and> present))"

subsection \<open>Every group of a configuration has a shard\<close>

lemma balanced_all_members:
  assumes "balanced c" "length (Shards c) = NShards" "set (Shards c) \<subseteq> gids c" "card (gids c) \<le> NShards" "g \<in> gids c"
  shows "g \<in> set (Shards c)"
proof (rule ccontr)
  assume "g \<notin> set (Shards c)"
  then have z: "count_list (Shards c) g = 0" by simp
  have le: "count_list (Shards c) h \<le> 1" if "h \<in> gids c" for h using assms(1,5) z that by (fastforce simp: balanced_def)
  have "NShards = sum (count_list (Shards c)) (gids c)" using assms(2,3) by (simp add: sum_count_set)
  also have "\<dots> = sum (count_list (Shards c)) (gids c - {g})" using z assms(5) by (simp add: sum.remove)
  also have "\<dots> \<le> (\<Sum>h \<in> gids c - {g}. 1)" using le by (intro sum_mono) simp
  also have "\<dots> < card (gids c)" using assms(5) card_gt_0_iff [of "gids c"] by (auto simp: card_Diff_singleton)
  finally show False using assms(4) by simp
qed

lemma JoinBalance_members:
  assumes "cfg_ok c" "distinct (map fst (Groups c @ [(gid, names)]))" "servers_disjoint (Groups c @ [(gid, names)])" "length (Groups c) < NShards"
  shows "\<exists>c'. JoinBalance [(gid, names)] c = Some (c', True) \<and> Groups c' = Groups c @ [(gid, names)] \<and> cfg_ok c' \<and>
    CheckConfig (map fst (Groups c')) c' \<and> Num c' = Num c + 1 \<and> set (Shards c') = gids c'"
proof -
  obtain c' where c': "JoinBalance [(gid, names)] c = Some (c', True)" "Num c' = Num c + 1" "Groups c' = Groups c @ [(gid, names)]" "cfg_ok c'"
    "CheckConfig (map fst (Groups c')) c'" using JoinBalance_correct [OF assms(1) _ assms(2,3)] by auto
  obtain c1 where c1: "Join [(gid, names)] c = Some (c1, True)" "Rebalance c1 = Some c'"
    using c'(1) by (auto simp: JoinBalance_def bind_eq_Some_conv split: if_splits)
  have "Groups c1 \<noteq> [] \<and> length (Shards c1) = NShards"
    using joinLoop_all [OF assms(2,3)] c1(1) assms(1) by (auto simp: Join_def cfg_ok_def)
  then obtain sh where sh: "c' = c1\<lparr>Shards := sh\<rparr>" "length sh = NShards" "set sh \<subseteq> gids c1" "balanced (c1\<lparr>Shards := sh\<rparr>)"
    using Rebalance_result [of c1] c1(2) by auto
  have "card (gids c') \<le> NShards" using card_image_le [of "set (Groups c')" fst] card_length [of "Groups c'"] c'(3) assms(4) by simp
  then have "gids c' \<subseteq> set (Shards c')" using balanced_all_members [of c'] sh by auto
  then show ?thesis using c' sh by auto
qed

subsection \<open>Joining and leaving groups\<close>

lemma connect_names: "connect i to st = Some st' \<Longrightarrow> servernames (fst st') = servernames (fst st)"
  by (cases st) (auto simp: connect_def bind_eq_Some_conv Let_def split: if_splits)

lemma StartServer_names: "StartServer l i st = Some (st', res) \<Longrightarrow> servernames (fst st') = servernames (fst st)"
  by (cases st) (auto simp: StartServer_def bind_eq_Some_conv Let_def split: if_splits)

lemma StartServers_names:
  assumes "StartServers ls st = Some st'"
  shows "servernames (fst st') = servernames (fst st)"
proof -
  obtain st1 where st1: "StartSrvs ls (TesterGroup.all (fst st)) st = Some st1" "ConnectAll st1 = Some st'"
    using assms by (auto simp: StartServers_def bind_eq_Some_conv)
  have "servernames (fst st1) = servernames (fst st)"
    by (rule for_each_invariant [OF st1(1) [unfolded StartSrvs_def], of "\<lambda>s. servernames (fst s) = servernames (fst st)"])
      (auto dest: StartServer_names)
  moreover have "servernames (fst st') = servernames (fst st1)"
    by (rule for_each_invariant [OF st1(2) [unfolded ConnectAll_def], of "\<lambda>s. servernames (fst s) = servernames (fst st1)"])
      (auto simp: ConnectOne_def dest: connect_names)
  ultimately show ?thesis by simp
qed

lemma MakeGroupStart_names:
  assumes "MakeGroupStart rs ls gid n st = Some g"
  shows "\<exists>sg. lookupGroup gid (fst g) = Some sg \<and> servernames sg = map (ServerName gid) [0..<n]"
proof -
  obtain gs nw where st: "st = (gs, nw)" by (cases st)
  obtain sg0 nw0 sg nw' where s: "makeSrvGrp rs gid n nw = Some (sg0, nw0)" "StartServers ls (sg0, nw0) = Some (sg, nw')" "g = (gs(gid \<mapsto> sg), nw')"
    using assms by (auto simp: st MakeGroupStart_def MakeGroup_def lookupGroup_def bind_eq_Some_conv)
  have "servernames sg0 = map (ServerName gid) [0..<n]" using s(1) by (auto simp: makeSrvGrp_def bind_eq_Some_conv)
  then show ?thesis using StartServers_names [OF s(2)] s(3) by (simp add: lookupGroup_def)
qed

text \<open>Configurations whose groups have the servers the tester started for them.\<close>

definition tester_cfg :: "ShardConfig \<Rightarrow> bool" where
  "tester_cfg c \<longleftrightarrow> cfg_ok c \<and> (\<forall>(g, names) \<in> set (Groups c). 0 \<le> g \<and> names = map (ServerName g) [0..<NSRV])"

lemma ServerName_group: "0 \<le> g \<Longrightarrow> 0 \<le> h \<Longrightarrow> ServerName g i = ServerName h j \<Longrightarrow> g = h"
  using append_sep_inject [of "CHR ''-''" "Itoa g" "Itoa h" "Itoa (int i)" "Itoa (int j)"]
  by (simp add: ServerName_def Itoa_dash Itoa_inject)

lemma newGroups_fresh:
  "newGroups n ts = (ts\<lparr>ngid := ngid ts + int n\<rparr>, map (\<lambda>i. ngid ts + int i) [0..<n])"
  by (induction n) (simp_all add: newGid_def add.assoc)

lemma started_disjoint:
  assumes "\<forall>(g, names) \<in> set gs. 0 \<le> g \<and> names = map (ServerName g) [0..<NSRV]"
  shows "servers_disjoint gs"
proof -
  have "set ss \<inter> set ts = {}" if "(g, ss) \<in> set gs" "(h, ts) \<in> set gs" "g \<noteq> h" for g h ss ts
  proof -
    have "ss = map (ServerName g) [0..<NSRV]" "ts = map (ServerName h) [0..<NSRV]" "0 \<le> g" "0 \<le> h" using assms that(1,2) by auto
    then show ?thesis using ServerName_group [of g h] that(3) by auto
  qed
  then show ?thesis unfolding servers_disjoint_def by blast
qed

lemma tester_cfg_join:
  assumes "tester_cfg c" "0 \<le> gid" "gid \<notin> gids c" "length (Groups c) < NShards"
  shows "\<exists>c'. JoinBalance [(gid, map (ServerName gid) [0..<NSRV])] (Copy c) = Some (c', True) \<and> tester_cfg c' \<and>
    Groups c' = Groups c @ [(gid, map (ServerName gid) [0..<NSRV])] \<and> Num c' = Num c + 1 \<and>
    CheckConfig (map fst (Groups c')) c' \<and> IsMember gid c'"
proof -
  let ?new = "(gid, map (ServerName gid) [0..<NSRV])"
  have c: "cfg_ok c" using assms(1) by (simp add: tester_cfg_def)
  have "distinct (map fst (Groups c @ [?new]))" using c assms(3) by (auto simp: cfg_ok_def)
  moreover have "servers_disjoint (Groups c @ [?new])"
    using assms(1,2) by (intro started_disjoint) (auto simp: tester_cfg_def)
  ultimately obtain c' where "JoinBalance [?new] c = Some (c', True)" "Groups c' = Groups c @ [?new]" "cfg_ok c'"
    "CheckConfig (map fst (Groups c')) c'" "Num c' = Num c + 1" "set (Shards c') = gids c'"
    using JoinBalance_members [OF c] assms(4) by blast
  then show ?thesis using assms(1,2) Copy_eq [OF c] by (auto simp: tester_cfg_def IsMember_def memberLoop_eq)
qed

text \<open>
  As long as there are no more groups than shards, groups that the tester starts with new numbers all become members, and the
  configuration passes the checks after each: \<open>joinGroups\<close> reports success when it ends. With more groups than shards the last
  ones would own no shard and count as not joined.
\<close>

lemma joinGroups_joins:
  assumes "ctl_ok ct cfgOf" "joinGroups ct rs ls gs ts = Some (ts', res)"
    and "tester_cfg (cfgOf (sck ts))" "distinct gs" "\<forall>g \<in> set gs. 0 \<le> g \<and> g \<notin> gids (cfgOf (sck ts))"
    and "length (Groups (cfgOf (sck ts))) + length gs \<le> NShards"
  shows "res \<and> tester_cfg (cfgOf (sck ts')) \<and> Num (cfgOf (sck ts')) = Num (cfgOf (sck ts)) + int (length gs) \<and>
    map fst (Groups (cfgOf (sck ts'))) = map fst (Groups (cfgOf (sck ts))) @ gs \<and>
    (gs \<noteq> [] \<longrightarrow> CheckConfig (map fst (Groups (cfgOf (sck ts')))) (cfgOf (sck ts')))"
  using assms(2-)
proof (induction gs arbitrary: ts)
  case (Cons gid gs)
  let ?c = "cfgOf (sck ts)"
  obtain g sg k k1 mem where s: "MakeGroupStart (rs gid) (ls gid) gid NSRV (sgroups ts) = Some g" "lookupGroup gid (fst g) = Some sg"
    "joinOne ct gid (servernames sg) (sck ts) = Some k" "checkMember ct gid k = Some (k1, mem)"
    and rest: "(if \<not> mem then Some (ts\<lparr>sgroups := g, sck := k1\<rparr>, False) else joinGroups ct rs ls gs (ts\<lparr>sgroups := g, sck := k1\<rparr>)) = Some (ts', res)"
    using Cons.prems(1) by (auto simp: bind_eq_Some_conv Let_def)
  have names: "servernames sg = map (ServerName gid) [0..<NSRV]" using MakeGroupStart_names [OF s(1)] s(2) by auto
  obtain c' where c': "JoinBalance [(gid, map (ServerName gid) [0..<NSRV])] (Copy ?c) = Some (c', True)" "tester_cfg c'"
    "Groups c' = Groups ?c @ [(gid, map (ServerName gid) [0..<NSRV])]" "Num c' = Num ?c + 1" "CheckConfig (map fst (Groups c')) c'" "IsMember gid c'"
    using tester_cfg_join [OF Cons.prems(2), of gid] Cons.prems(4,5) by (elim meta_impE exE) auto
  have "cfgOf k = c'" using s(3) assms(1) spec [of _ "sck ts"] c'(1) names
    unfolding joinOne_def ctl_ok_def by (auto simp: bind_eq_Some_conv split: prod.splits if_splits dest!: spec [of _ "sck ts"])
  moreover have "mem \<longleftrightarrow> IsMember gid (cfgOf k)" "cfgOf k1 = cfgOf k"
    using s(4) assms(1) unfolding checkMember_def ctl_ok_def by (force split: prod.splits dest!: spec [of _ k])+
  ultimately have k1: "mem" "cfgOf k1 = c'" using c'(6) by simp_all
  show ?case
  proof (cases "gs = []")
    case True
    then show ?thesis using rest k1 c' by auto
  next
    case False
    have IH: "res \<and> tester_cfg (cfgOf (sck ts')) \<and> Num (cfgOf (sck ts')) = Num c' + int (length gs) \<and>
        map fst (Groups (cfgOf (sck ts'))) = map fst (Groups c') @ gs \<and>
        (gs \<noteq> [] \<longrightarrow> CheckConfig (map fst (Groups (cfgOf (sck ts')))) (cfgOf (sck ts')))"
      using Cons.IH [of "ts\<lparr>sgroups := g, sck := k1\<rparr>"] rest k1 c'(2,3) Cons.prems(3-5) by auto
    then have cc: "CheckConfig (map fst (Groups (cfgOf (sck ts')))) (cfgOf (sck ts'))" using False by blast
    show ?thesis
    proof (intro conjI impI)
      show "CheckConfig (map fst (Groups (cfgOf (sck ts')))) (cfgOf (sck ts'))" by (rule cc)
    qed (use IH c'(3,4) in simp_all)
  qed
qed simp

lemma tester_cfg_leave:
  assumes "tester_cfg c" "gid \<in> gids c" "gid \<noteq> 0"
  shows "\<exists>c'. LeaveBalance [gid] (Copy c) = Some (c', True) \<and> tester_cfg c' \<and> Groups c' = filter (\<lambda>(k, _). k \<noteq> gid) (Groups c) \<and>
    Num c' = Num c + 1 \<and> CheckConfig (map fst (Groups c')) c' \<and> \<not> IsMember gid c'"
proof -
  have c: "cfg_ok c" using assms(1) by (simp add: tester_cfg_def)
  obtain c' where c': "LeaveBalance [gid] c = Some (c', True)" "Num c' = Num c + 1" "Groups c' = filter (\<lambda>(k, _). k \<noteq> gid) (Groups c)" "cfg_ok c'"
    "CheckConfig (filter (\<lambda>k. k \<noteq> gid) (map fst (Groups c))) c'" "{gid} = gids c \<longrightarrow> Shards c' = replicate NShards 0"
    using LeaveBalance_correct [OF c, of "[gid]"] assms(2) by auto
  have fst: "map fst (Groups c') = filter (\<lambda>k. k \<noteq> gid) (map fst (Groups c))"
    unfolding c'(3) by (simp add: filter_map comp_def split_def)
  then have gone: "gid \<notin> gids c'" by (metis (mono_tags, lifting) filter_set list.set_map mem_Collect_eq set_filter)
  have "gid \<notin> set (Shards c')"
  proof (cases "Groups c' = []")
    case True
    then have "filter (\<lambda>k. k \<noteq> gid) (map fst (Groups c)) = []" using fst by simp
    then have "\<forall>k \<in> set (map fst (Groups c)). k = gid" by (simp only: filter_empty_conv not_not)
    then have "gids c = {gid}" using assms(2) by auto
    then show ?thesis using c'(6) assms(3) by simp
  next
    case False
    then have "\<forall>h \<in> set (Shards c'). map_of (Groups c') h \<noteq> None" using c'(5) fst [symmetric] by (auto simp: CheckConfig_def)
    then show ?thesis using gone by (auto simp: map_of_gids)
  qed
  then show ?thesis using c' fst assms(1) Copy_eq [OF c] by (auto simp: tester_cfg_def IsMember_def memberLoop_eq)
qed

text \<open>Groups that leave are gone from the configuration, and it passes the checks after each.\<close>

lemma leaveGroups_leaves:
  assumes "ctl_ok ct cfgOf" "leaveGroups ct gs ts = Some (ts', res)"
    and "tester_cfg (cfgOf (sck ts))" "distinct gs" "set gs \<subseteq> gids (cfgOf (sck ts))" "0 \<notin> set gs"
  shows "res \<and> tester_cfg (cfgOf (sck ts')) \<and> Num (cfgOf (sck ts')) = Num (cfgOf (sck ts)) + int (length gs) \<and>
    gids (cfgOf (sck ts')) = gids (cfgOf (sck ts)) - set gs \<and>
    (gs \<noteq> [] \<longrightarrow> CheckConfig (map fst (Groups (cfgOf (sck ts')))) (cfgOf (sck ts')))"
  using assms(2-)
proof (induction gs arbitrary: ts)
  case (Cons gid gs)
  let ?c = "cfgOf (sck ts)"
  obtain k k1 mem where s: "leaveOne ct gid (sck ts) = Some k" "checkMember ct gid k = Some (k1, mem)"
    and rest: "(if mem then Some (ts\<lparr>sck := k1\<rparr>, False)
      else do { g \<leftarrow> ExitGroup gid (sgroups ts); leaveGroups ct gs (ts\<lparr>sck := k1, sgroups := g\<rparr>) }) = Some (ts', res)"
    using Cons.prems(1) by (auto simp: bind_eq_Some_conv)
  obtain c' where c': "LeaveBalance [gid] (Copy ?c) = Some (c', True)" "tester_cfg c'" "Groups c' = filter (\<lambda>(k, _). k \<noteq> gid) (Groups ?c)"
    "Num c' = Num ?c + 1" "CheckConfig (map fst (Groups c')) c'" "\<not> IsMember gid c'"
    using tester_cfg_leave [OF Cons.prems(2), of gid] Cons.prems(4,5) by (elim meta_impE exE) auto
  have "cfgOf k = c'" using s(1) assms(1) c'(1)
    unfolding leaveOne_def ctl_ok_def by (auto simp: bind_eq_Some_conv split: prod.splits if_splits dest!: spec [of _ "sck ts"])
  moreover have "mem \<longleftrightarrow> IsMember gid (cfgOf k)" "cfgOf k1 = cfgOf k"
    using s(2) assms(1) unfolding checkMember_def ctl_ok_def by (force split: prod.splits dest!: spec [of _ k])+
  ultimately have k1: "\<not> mem" "cfgOf k1 = c'" using c'(6) by simp_all
  obtain g where g: "leaveGroups ct gs (ts\<lparr>sck := k1, sgroups := g\<rparr>) = Some (ts', res)" using rest k1(1) by (auto simp: bind_eq_Some_conv)
  have gids: "gids c' = gids ?c - {gid}" unfolding c'(3) by force
  show ?case
  proof (cases "gs = []")
    case True
    then show ?thesis using g k1 c' gids by auto
  next
    case False
    have IH: "res \<and> tester_cfg (cfgOf (sck ts')) \<and> Num (cfgOf (sck ts')) = Num c' + int (length gs) \<and> gids (cfgOf (sck ts')) = gids c' - set gs \<and>
        (gs \<noteq> [] \<longrightarrow> CheckConfig (map fst (Groups (cfgOf (sck ts')))) (cfgOf (sck ts')))"
    proof -
      have "set gs \<subseteq> gids c'" "distinct gs" "0 \<notin> set gs" using gids Cons.prems(3-5) by auto
      then show ?thesis using Cons.IH [OF g] k1 c'(2) by simp
    qed
    then have cc: "CheckConfig (map fst (Groups (cfgOf (sck ts')))) (cfgOf (sck ts'))" using False by blast
    show ?thesis
    proof (intro conjI impI)
      show "CheckConfig (map fst (Groups (cfgOf (sck ts')))) (cfgOf (sck ts'))" by (rule cc)
    qed (use IH c'(4) gids in auto)
  qed
qed simp

text \<open>With the stub of the tree every change of the configuration panics.\<close>

lemma stub_panics: "joinGroups stubCtl rs ls (gid # gs) ts = None \<and> leaveGroups stubCtl (gid # gs) ts = None"
  by (simp add: joinOne_def leaveOne_def stubCtl_def)

text \<open>The test with a group that is down passes exactly if every get that ended had the right value and some did not end.\<close>

lemma sharding_verdict:
  "checkShutdownSharding ka va results = Ret () \<longleftrightarrow> (\<forall>(i, v) \<in> set results. v = va ! i) \<and> length results < length ka"
proof -
  have "shardingLoop va n m results = Ret () \<longleftrightarrow> (\<forall>(i, v) \<in> set results. v = va ! i) \<and> m + length results < n" for n m
    by (induction va n m results rule: shardingLoop.induct) auto
  then show ?thesis by (simp add: checkShutdownSharding_def)
qed

end
