(* ===== verification/Demux.thy ===== *)
theory Demux
  imports LabRpc
begin

text \<open>
  The calls of the tester's processes over a stream connection: the frames of
  \<open>tester1/demux/transport.go\<close>, the map of outstanding calls of \<open>callmap.go\<close>, the client of
  \<open>dmxclnt.go\<close>, the server of \<open>dmxsrv.go\<close>, and on top the calls of \<open>tester1/sockrpc/\<close>. A byte slice
  is a \<open>string\<close>; \<open>labrpc.Marshall\<close> of a frame and of a request and their inverses are parameters.
  \<open>log.Fatalf\<close> is \<open>None\<close>. A channel is the identity of the caller that waits on it.
\<close>

subsection \<open>Frames\<close>

type_synonym Ttag = "32 word"

record msg =
  mTag :: Ttag
  mData :: string
  mOk :: bool

text \<open>\<open>binary.Write\<close> and \<open>binary.Read\<close> of a \<open>uint32\<close> in little-endian order.\<close>

definition putUint32 :: "32 word \<Rightarrow> string" where
  "putUint32 w = map (\<lambda>i. char_of (unat w div 256 ^ i)) [0, 1, 2, 3]"

fun getUint :: "string \<Rightarrow> nat" where
  "getUint [] = 0"
| "getUint (c # cs) = of_char c + 256 * getUint cs"

definition WriteCall :: "(msg \<Rightarrow> string) \<Rightarrow> Ttag \<Rightarrow> string \<Rightarrow> bool \<Rightarrow> string" where
  "WriteCall enc tag d okay =
     (let b = enc \<lparr>mTag = tag, mData = d, mOk = okay\<rparr>
      in putUint32 (of_nat (length b)) @ b)"

text \<open>
  What a read of the stream can do: wait for more bytes, fail because the connection ended,
  or return a frame and leave the rest of the bytes.
\<close>

datatype readResult = Waits | ReadError | ReadMsg msg string

definition ReadCall :: "(string \<Rightarrow> msg option) \<Rightarrow> bool \<Rightarrow> string \<Rightarrow> readResult option" where
  "ReadCall dec eof s =
     (if length s < 4 then Some (if eof then ReadError else Waits)
      else
        let nbyte = getUint (take 4 s); b = drop 4 s
        in if length b < nbyte then Some (if eof then ReadError else Waits)
           else case dec (take nbyte b) of
                  None \<Rightarrow> None
                | Some m \<Rightarrow> Some (ReadMsg m (drop nbyte b)))"

subsection \<open>The map of outstanding calls\<close>

record callMap =
  cmClosed :: bool
  cmCalls :: "Ttag \<rightharpoonup> nat"

definition newCallMap :: callMap where "newCallMap = \<lparr>cmClosed = False, cmCalls = Map.empty\<rparr>"

definition closeMap :: "callMap \<Rightarrow> callMap" where "closeMap cm = cm\<lparr>cmClosed := True\<rparr>"

definition isClosed :: "callMap \<Rightarrow> bool" where "isClosed cm = cmClosed cm"

definition putCall :: "Ttag \<Rightarrow> nat \<Rightarrow> callMap \<Rightarrow> callMap option" where
  "putCall tag ch cm = (if cmClosed cm then None else Some (cm\<lparr>cmCalls := (cmCalls cm)(tag \<mapsto> ch)\<rparr>))"

definition removeCall :: "Ttag \<Rightarrow> callMap \<Rightarrow> callMap \<times> nat option" where
  "removeCall tag cm =
     (case cmCalls cm tag of
        Some ch \<Rightarrow> (cm\<lparr>cmCalls := (cmCalls cm)(tag := None)\<rparr>, Some ch)
      | None \<Rightarrow> (cm, None))"

text \<open>A list the iteration over the map may give.\<close>

definition outstanding :: "callMap \<Rightarrow> Ttag list \<Rightarrow> bool" where
  "outstanding cm ts \<longleftrightarrow> distinct ts \<and> set ts = dom (cmCalls cm)"

subsection \<open>The client\<close>

record DemuxClnt =
  callmap :: callMap
  nextTag :: Ttag

record dreply =
  drep :: string
  dok :: bool
  derr :: bool

definition newTag :: "DemuxClnt \<Rightarrow> Ttag \<times> DemuxClnt" where
  "newTag dmx = (nextTag dmx, dmx\<lparr>nextTag := nextTag dmx + 1\<rparr>)"

text \<open>\<open>NewDemuxClnt\<close>: the first tag goes into the frame of \<open>InitMsg\<close>, \<open>b\<close> encoded.\<close>

definition NewDemuxClnt :: "(msg \<Rightarrow> string) \<Rightarrow> string \<Rightarrow> DemuxClnt \<times> string" where
  "NewDemuxClnt enc b =
     (case newTag \<lparr>callmap = newCallMap, nextTag = 0\<rparr> of (t, dmx) \<Rightarrow> (dmx, WriteCall enc t b True))"

text \<open>\<open>DemuxClnt.reply\<close>: which channel gets the reply.\<close>

definition replyTo :: "Ttag \<Rightarrow> DemuxClnt \<Rightarrow> (DemuxClnt \<times> nat) option" where
  "replyTo tag dmx =
     (case removeCall tag (callmap dmx) of
        (cm, Some ch) \<Rightarrow> Some (dmx\<lparr>callmap := cm\<rparr>, ch)
      | (cm, None) \<Rightarrow> None)"

text \<open>The call has got its tag and waits for the lock of the map: \<open>put\<close>, or the error.\<close>

definition sendPut :: "nat \<Rightarrow> Ttag \<Rightarrow> DemuxClnt \<Rightarrow> (dreply + DemuxClnt)" where
  "sendPut ch t dmx =
     (case putCall t ch (callmap dmx) of
        None \<Rightarrow> Inl \<lparr>drep = [], dok = False, derr = True\<rparr>
      | Some cm \<Rightarrow> Inr (dmx\<lparr>callmap := cm\<rparr>))"

definition CloseClnt :: "bool \<times> DemuxClnt \<Rightarrow> bool \<times> DemuxClnt" where
  "CloseClnt = (\<lambda>(conn, dmx).
     if isClosed (callmap dmx) then (conn, dmx) else (False, dmx\<lparr>callmap := closeMap (callmap dmx)\<rparr>))"

definition IsClosed :: "DemuxClnt \<Rightarrow> bool" where "IsClosed dmx = isClosed (callmap dmx)"

subsection \<open>Calls of a process\<close>

record RPCArgs =
  Method :: string
  Args :: string

definition RPCRequest :: "(RPCArgs \<Rightarrow> string) \<Rightarrow> string \<Rightarrow> string \<Rightarrow> string" where
  "RPCRequest encArgs m args = encArgs \<lparr>Method = m, Args = args\<rparr>"

text \<open>The end of \<open>RPCClnt.RPC\<close>: an error of the connection is a call that failed.\<close>

definition RPCResult :: "dreply \<Rightarrow> string \<times> bool" where
  "RPCResult r = (if derr r then ([], False) else (drep r, dok r))"

text \<open>\<open>RPCMarshall\<close>: a failed call leaves the reply alone; bytes that do not decode stop the process.\<close>

definition RPCMarshall :: "(string \<Rightarrow> 'b option) \<Rightarrow> string \<times> bool \<Rightarrow> 'b option option" where
  "RPCMarshall dec = (\<lambda>(rep, okay). if \<not> okay then Some None else map_option Some (dec rep))"

definition ServeRequest ::
  "(string \<Rightarrow> RPCArgs option) \<Rightarrow> string \<Rightarrow> string \<Rightarrow> 'st Server \<Rightarrow> ('st Server \<times> string \<times> bool) option" where
  "ServeRequest decArgs clntEnd b rs =
     do { req \<leftarrow> decArgs b; Dispatch (Method req) clntEnd (Args req) rs }"

definition SockName :: "string \<Rightarrow> string" where
  "SockName endName = ''/tmp/6.5840-'' @ endName"

text \<open>The loop of \<open>dial\<close>: the outcomes of the attempts to connect, at most \<open>MAXRETRY\<close> of them.\<close>

definition MAXRETRY :: nat where "MAXRETRY = 100"

fun dialLoop :: "nat \<Rightarrow> (nat \<Rightarrow> 'conn + 'e) \<Rightarrow> nat \<Rightarrow> 'e option \<Rightarrow> 'conn option \<times> 'e option" where
  "dialLoop 0 attempt i r = (None, r)"
| "dialLoop (Suc k) attempt i r =
     (case attempt i of Inl c \<Rightarrow> (Some c, None) | Inr e \<Rightarrow> dialLoop k attempt (Suc i) (Some e))"

definition dial :: "(nat \<Rightarrow> 'conn + 'e) \<Rightarrow> 'conn option \<times> 'e option" where
  "dial attempt = dialLoop MAXRETRY attempt 0 None"

subsection \<open>The first frame of a connection\<close>

record DemuxSrv =
  dsClosed :: bool
  dsClntEnd :: string

text \<open>\<open>NewDemuxSrv\<close> on the bytes received: not enough of them yet, or the server and the bytes left.\<close>

definition NewDemuxSrv ::
  "(string \<Rightarrow> msg option) \<Rightarrow> (string \<Rightarrow> string option) \<Rightarrow> bool \<Rightarrow> string \<Rightarrow> (DemuxSrv \<times> string) option option" where
  "NewDemuxSrv dec decInit eof s =
     (case ReadCall dec eof s of
        None \<Rightarrow> None
      | Some ReadError \<Rightarrow> None
      | Some Waits \<Rightarrow> Some None
      | Some (ReadMsg m rest) \<Rightarrow>
          (case decInit (mData m) of
             None \<Rightarrow> None
           | Some cname \<Rightarrow> Some (Some (\<lparr>dsClosed = False, dsClntEnd = cname\<rparr>, rest))))"

definition setClosed :: "DemuxSrv \<Rightarrow> bool \<times> DemuxSrv" where
  "setClosed dmx = (dsClosed dmx, dmx\<lparr>dsClosed := True\<rparr>)"

definition CloseSrv :: "bool \<times> DemuxSrv \<Rightarrow> bool \<times> DemuxSrv" where
  "CloseSrv = (\<lambda>(conn, dmx). case setClosed dmx of (c, dmx') \<Rightarrow> (if c then (conn, dmx') else (False, dmx')))"

text \<open>A connection that cannot be dialled stops the process; otherwise the client and its first frame.\<close>

definition getDmx ::
  "(msg \<Rightarrow> string) \<Rightarrow> (string \<Rightarrow> string) \<Rightarrow> (nat \<Rightarrow> 'conn + 'e) \<Rightarrow> string \<Rightarrow> ('conn \<times> DemuxClnt \<times> string) option" where
  "getDmx enc encInit attempt clntName =
     (case dial attempt of
        (None, r) \<Rightarrow> None
      | (Some c, r) \<Rightarrow> Some (c, NewDemuxClnt enc (encInit clntName)))"

subsection \<open>Frames survive the stream\<close>

lemma base256: "n mod 256 + 256 * (n div 256) = (n :: nat)"
  by simp

lemma getUint_digits:
  assumes "n < 256 ^ 4"
  shows "n mod 256 + 256 * (n div 256 mod 256 + 256 * (n div 65536 mod 256 + 256 * (n div 16777216 mod 256))) = (n :: nat)"
proof -
  have d: "n div 65536 = n div 256 div 256" "n div 16777216 = n div 256 div 256 div 256" by (simp_all add: div_mult2_eq [symmetric])
  have "n div 256 div 256 div 256 < 256" using assms by (simp add: div_mult2_eq [symmetric] less_mult_imp_div_less)
  then have "n div 256 div 256 div 256 mod 256 = n div 256 div 256 div 256" by simp
  then show ?thesis unfolding d by (simp only: base256)
qed

lemma getUint_put: "getUint (putUint32 w) = unat w"
proof -
  have "unat w < 2 ^ LENGTH(32)" by (rule unsigned_less)
  then have "unat w < 256 ^ 4" by simp
  then show ?thesis using getUint_digits [of "unat w"] by (simp add: putUint32_def)
qed

lemma putUint32_length [simp]: "length (putUint32 w) = 4"
  by (simp add: putUint32_def)

definition fits :: "(msg \<Rightarrow> string) \<Rightarrow> Ttag \<Rightarrow> string \<Rightarrow> bool \<Rightarrow> bool" where
  "fits enc t d b \<longleftrightarrow> length (enc \<lparr>mTag = t, mData = d, mOk = b\<rparr>) < 2 ^ 32"

text \<open>What the code relies on of the encoding of frames: a frame is decoded again, and its length fits the header.\<close>

definition frames_ok :: "(msg \<Rightarrow> string) \<Rightarrow> (string \<Rightarrow> msg option) \<Rightarrow> bool" where
  "frames_ok enc dec \<longleftrightarrow> (\<forall>m. dec (enc m) = Some m)"

lemma ReadCall_WriteCall:
  assumes "frames_ok enc dec" "fits enc t d b"
  shows "ReadCall dec eof (WriteCall enc t d b @ rest) = Some (ReadMsg \<lparr>mTag = t, mData = d, mOk = b\<rparr> rest)"
proof -
  let ?b = "enc \<lparr>mTag = t, mData = d, mOk = b\<rparr>"
  have "unat (of_nat (length ?b) :: 32 word) = length ?b" using assms(2) by (simp add: fits_def unat_of_nat)
  then show ?thesis using assms(1) by (simp add: ReadCall_def WriteCall_def Let_def getUint_put frames_ok_def)
qed

text \<open>A frame that has not arrived in full is never delivered in part.\<close>

lemma ReadCall_partial:
  assumes "frames_ok enc dec" "fits enc t d b"
    and "s @ tl' = WriteCall enc t d b" "tl' \<noteq> []"
  shows "ReadCall dec eof s = Some (if eof then ReadError else Waits)"
proof (cases "length s < 4")
  case False
  let ?b = "enc \<lparr>mTag = t, mData = d, mOk = b\<rparr>" let ?h = "putUint32 (of_nat (length ?b))"
  have u: "unat (of_nat (length ?b) :: 32 word) = length ?b" using assms(2) by (simp add: fits_def unat_of_nat)
  have w: "s @ tl' = ?h @ ?b" using assms(3) by (simp add: WriteCall_def Let_def)
  then have "take 4 (s @ tl') = ?h" "drop 4 (s @ tl') = ?b" by simp_all
  then have "take 4 s = ?h" "drop 4 s @ tl' = ?b" using False by simp_all
  moreover from this(2) have "length (drop 4 s) < length ?b" using assms(4) by (metis length_append length_greater_0_conv less_add_same_cancel1)
  ultimately show ?thesis using False u by (simp add: ReadCall_def Let_def getUint_put)
qed (simp add: ReadCall_def)

lemma dialLoop_bound:
  "fst (dialLoop k attempt i r) = None \<longleftrightarrow> (\<forall>j < k. \<exists>e. attempt (i + j) = Inr e)"
proof (induction k arbitrary: i r)
  case (Suc k)
  have *: "(\<forall>j < Suc k. P (i + j)) \<longleftrightarrow> P i \<and> (\<forall>j<k. P (Suc i + j))" for P
    by (auto simp: less_Suc_eq_0_disj)
  show ?case using Suc * [of "\<lambda>j. \<exists>e. attempt j = Inr e"] by (auto split: sum.splits)
qed simp

subsection \<open>A stream of frames\<close>

definition partial :: "(msg \<Rightarrow> string) \<Rightarrow> string \<Rightarrow> bool" where
  "partial enc junk \<longleftrightarrow> (\<exists>t d b tl'. tl' \<noteq> [] \<and> fits enc t d b \<and> junk @ tl' = WriteCall enc t d b)"

definition stream :: "(msg \<Rightarrow> string) \<Rightarrow> bool \<Rightarrow> string \<Rightarrow> (Ttag \<times> string \<times> bool) list \<Rightarrow> bool" where
  "stream enc isopen s xs \<longleftrightarrow> (\<forall>(t, d, b) \<in> set xs. fits enc t d b) \<and>
     (\<exists>junk. s = concat (map (\<lambda>(t, d, b). WriteCall enc t d b) xs) @ junk \<and> (isopen \<longrightarrow> junk = []) \<and>
        (junk \<noteq> [] \<longrightarrow> partial enc junk))"

lemma stream_empty [simp]: "stream enc isopen [] []"
  by (simp add: stream_def)

lemma stream_write:
  "stream enc True s xs \<Longrightarrow> fits enc t d b \<Longrightarrow> stream enc True (s @ WriteCall enc t d b) (xs @ [(t, d, b)])"
  by (auto simp: stream_def)

lemma stream_read:
  assumes "frames_ok enc dec" "stream enc isopen s xs" "ReadCall dec eof s = Some (ReadMsg m rest)"
  shows "\<exists>ys. xs = (mTag m, mData m, mOk m) # ys \<and> stream enc isopen rest ys"
proof -
  obtain junk where s: "s = concat (map (\<lambda>(t, d, b). WriteCall enc t d b) xs) @ junk" "isopen \<longrightarrow> junk = []"
    "junk \<noteq> [] \<longrightarrow> partial enc junk"
    and f: "\<forall>(t, d, b) \<in> set xs. fits enc t d b" using assms(2) by (auto simp: stream_def)
  show ?thesis
  proof (cases xs)
    case Nil
    show ?thesis
    proof (cases "junk = []")
      case True
      then show ?thesis using Nil s(1) assms(3) by (simp add: ReadCall_def split: if_splits)
    next
      case False
      then obtain t d b tl' where "tl' \<noteq> []" "fits enc t d b" "junk @ tl' = WriteCall enc t d b"
        using s(3) unfolding partial_def by blast
      then show ?thesis using ReadCall_partial [OF assms(1), of t d b junk tl' eof] Nil s(1) assms(3) by (simp split: if_splits)
    qed
  next
    case (Cons x ys)
    obtain t d b where x: "x = (t, d, b)" by (cases x)
    have "fits enc t d b" using f Cons x by auto
    from ReadCall_WriteCall [OF assms(1) this, of eof "concat (map (\<lambda>(t, d, b). WriteCall enc t d b) ys) @ junk"]
    have "m = \<lparr>mTag = t, mData = d, mOk = b\<rparr>" "rest = concat (map (\<lambda>(t, d, b). WriteCall enc t d b) ys) @ junk"
      using assms(3) s(1) Cons x by simp_all
    moreover from this(2) have "stream enc isopen rest ys" using s(2,3) f Cons by (auto simp: stream_def)
    ultimately show ?thesis using Cons x by simp
  qed
qed

lemma stream_decodes:
  assumes "frames_ok enc dec" "stream enc isopen s xs"
  shows "ReadCall dec eof s \<noteq> None"
proof -
  obtain junk where s: "s = concat (map (\<lambda>(t, d, b). WriteCall enc t d b) xs) @ junk"
    "junk \<noteq> [] \<longrightarrow> partial enc junk"
    and f: "\<forall>(t, d, b) \<in> set xs. fits enc t d b" using assms(2) by (auto simp: stream_def)
  show ?thesis
  proof (cases xs)
    case Nil
    show ?thesis
    proof (cases "junk = []")
      case True
      then show ?thesis using Nil s(1) by (simp add: ReadCall_def)
    next
      case False
      then obtain t d b tl' where "tl' \<noteq> []" "fits enc t d b" "junk @ tl' = WriteCall enc t d b"
        using s(2) unfolding partial_def by blast
      then show ?thesis using ReadCall_partial [OF assms(1), of t d b junk tl' eof] Nil s(1) by simp
    qed
  next
    case (Cons x ys)
    then show ?thesis using s(1) f ReadCall_WriteCall [OF assms(1)] by (cases x) auto
  qed
qed

lemma stream_cut:
  assumes "stream enc isopen s xs"
  shows "\<exists>ys zs. xs = ys @ zs \<and> stream enc False (take k s) ys"
  using assms
proof (induction xs arbitrary: s k)
  case Nil
  then obtain junk where j: "s = junk" "junk \<noteq> [] \<longrightarrow> partial enc junk"
    by (auto simp: stream_def)
  have "partial enc (take k s)" if ne: "take k s \<noteq> []"
  proof -
    obtain t d b tl' where "tl' \<noteq> []" "fits enc t d b" "junk @ tl' = WriteCall enc t d b" using j ne unfolding partial_def by auto
    then have "drop k s @ tl' \<noteq> [] \<and> fits enc t d b \<and> take k s @ (drop k s @ tl') = WriteCall enc t d b"
      using j(1) by (simp flip: append_assoc)
    then show ?thesis unfolding partial_def by blast
  qed
  then show ?case by (auto simp: stream_def)
next
  case (Cons x xs)
  obtain t d b where x: "x = (t, d, b)" by (cases x)
  let ?w = "WriteCall enc t d b"
  obtain junk where s: "s = ?w @ (concat (map (\<lambda>(t, d, b). WriteCall enc t d b) xs) @ junk)" "isopen \<longrightarrow> junk = []"
    "junk \<noteq> [] \<longrightarrow> partial enc junk"
    and f: "fits enc t d b" "\<forall>(t, d, b) \<in> set xs. fits enc t d b" using Cons.prems x by (auto simp: stream_def)
  show ?case
  proof (cases "k < length ?w")
    case True
    then have "take k s @ drop k ?w = ?w" "drop k ?w \<noteq> []" using s(1) by simp_all
    then have "partial enc (take k s)" using f(1) unfolding partial_def by blast
    then have "stream enc False (take k s) []" by (simp add: stream_def)
    then show ?thesis by (intro exI [of _ "[]"] exI [of _ "x # xs"]) simp
  next
    case False
    have "stream enc isopen (drop (length ?w) s) xs" using s f by (auto simp: stream_def)
    from Cons.IH [OF this, of "k - length ?w"] obtain ys zs where
      y: "xs = ys @ zs" "stream enc False (take (k - length ?w) (drop (length ?w) s)) ys" by blast
    have "take k s = ?w @ take (k - length ?w) (drop (length ?w) s)" using False s(1) by simp
    then have "stream enc False (take k s) (x # ys)" using y(2) f(1) x by (auto simp: stream_def)
    then show ?thesis using y(1) by (intro exI [of _ "x # ys"] exI [of _ zs]) simp
  qed
qed

subsection \<open>Client, connection and server together\<close>

text \<open>
  A caller is one call of \<open>SendReceive\<close>: it has drawn a tag, it has entered the map, it has written its
  request (or failed to) and waits on its channel, or it has returned.
\<close>

datatype caller =
    Idle
  | Tagged Ttag string
  | Queued Ttag string
  | Waiting Ttag string
  | Returned Ttag string dreply

datatype rdrState = Reading | Draining "Ttag list" | Stopped

record 'st dsys =
  clnt :: DemuxClnt
  callers :: "nat \<Rightarrow> caller"
  c2s :: string
  s2c :: string
  conn :: bool
  rdr :: rdrState
  running :: "(Ttag \<times> string) list"
  answers :: "(Ttag \<times> string \<times> bool) list"
  srvState :: 'st
  served :: "(Ttag \<times> string \<times> string \<times> bool) list"
  issued :: nat

text \<open>
  The parameters: the encoding of frames and its inverse, and what the server does with a request.
  \<open>served\<close> and \<open>issued\<close> are history: the requests the server ran and the number of tags
  drawn. Frames of 4 GB, whose length does not fit the header, are left out. When the connection
  ends, the bytes not read yet may be lost.
\<close>

inductive dstep :: "(msg \<Rightarrow> string) \<Rightarrow> (string \<Rightarrow> msg option) \<Rightarrow> (string \<Rightarrow> 'st \<Rightarrow> ('st \<times> string \<times> bool) option) \<Rightarrow>
    'st dsys \<Rightarrow> 'st dsys \<Rightarrow> bool" for enc dec srv where
  d_tag: "callers s c = Idle \<Longrightarrow> newTag (clnt s) = (t, dmx) \<Longrightarrow>
    dstep enc dec srv s (s\<lparr>clnt := dmx, callers := (callers s)(c := Tagged t b), issued := Suc (issued s)\<rparr>)"
| d_put: "callers s c = Tagged t b \<Longrightarrow> sendPut c t (clnt s) = Inr dmx \<Longrightarrow>
    dstep enc dec srv s (s\<lparr>clnt := dmx, callers := (callers s)(c := Queued t b)\<rparr>)"
| d_refused: "callers s c = Tagged t b \<Longrightarrow> sendPut c t (clnt s) = Inl r \<Longrightarrow>
    dstep enc dec srv s (s\<lparr>callers := (callers s)(c := Returned t b r)\<rparr>)"
| d_write: "callers s c = Queued t b \<Longrightarrow> conn s \<Longrightarrow> fits enc t b True \<Longrightarrow>
    dstep enc dec srv s (s\<lparr>c2s := c2s s @ WriteCall enc t b True, callers := (callers s)(c := Waiting t b)\<rparr>)"
| d_write_error: "callers s c = Queued t b \<Longrightarrow> \<not> conn s \<Longrightarrow>
    dstep enc dec srv s (s\<lparr>callers := (callers s)(c := Waiting t b)\<rparr>)"
| d_srv_read: "ReadCall dec (\<not> conn s) (c2s s) = Some (ReadMsg m rest) \<Longrightarrow>
    dstep enc dec srv s (s\<lparr>c2s := rest, running := (mTag m, mData m) # running s\<rparr>)"
| d_run: "(t, b) \<in> set (running s) \<Longrightarrow> srv b (srvState s) = Some (st', rep, okay) \<Longrightarrow>
    dstep enc dec srv s (s\<lparr>running := remove1 (t, b) (running s), answers := (t, rep, okay) # answers s,
      srvState := st', served := (t, b, rep, okay) # served s\<rparr>)"
| d_answer: "(t, rep, okay) \<in> set (answers s) \<Longrightarrow> fits enc t rep okay \<Longrightarrow>
    dstep enc dec srv s (s\<lparr>answers := remove1 (t, rep, okay) (answers s),
      s2c := (if conn s then s2c s @ WriteCall enc t rep okay else s2c s)\<rparr>)"
| d_reply: "rdr s = Reading \<Longrightarrow> ReadCall dec (\<not> conn s) (s2c s) = Some (ReadMsg m rest) \<Longrightarrow>
    replyTo (mTag m) (clnt s) = Some (dmx, c) \<Longrightarrow> callers s c = Waiting t b \<Longrightarrow>
    dstep enc dec srv s (s\<lparr>clnt := dmx, s2c := rest,
      callers := (callers s)(c := Returned t b \<lparr>drep = mData m, dok = mOk m, derr = False\<rparr>)\<rparr>)"
| d_close: "CloseClnt (conn s, clnt s) = (conn', dmx) \<Longrightarrow>
    dstep enc dec srv s (s\<lparr>conn := conn', clnt := dmx\<rparr>)"
| d_break: "dstep enc dec srv s (s\<lparr>conn := False, c2s := take j (c2s s), s2c := take k (s2c s)\<rparr>)"
| d_eof: "rdr s = Reading \<Longrightarrow> \<not> conn s \<Longrightarrow> ReadCall dec True (s2c s) = Some ReadError \<Longrightarrow>
    outstanding (closeMap (callmap (clnt s))) ts \<Longrightarrow>
    dstep enc dec srv s (s\<lparr>clnt := (clnt s)\<lparr>callmap := closeMap (callmap (clnt s))\<rparr>, rdr := Draining ts\<rparr>)"
| d_fail: "rdr s = Draining (t # ts) \<Longrightarrow> replyTo t (clnt s) = Some (dmx, c) \<Longrightarrow> callers s c = Waiting u b \<Longrightarrow>
    dstep enc dec srv s (s\<lparr>clnt := dmx, rdr := Draining ts,
      callers := (callers s)(c := Returned u b \<lparr>drep = [], dok = False, derr = True\<rparr>)\<rparr>)"
| d_stop: "rdr s = Draining [] \<Longrightarrow> dstep enc dec srv s (s\<lparr>rdr := Stopped\<rparr>)"

definition startDemux :: "(msg \<Rightarrow> string) \<Rightarrow> string \<Rightarrow> 'st \<Rightarrow> 'st dsys" where
  "startDemux enc b st =
     \<lparr>clnt = fst (NewDemuxClnt enc b), callers = (\<lambda>_. Idle), c2s = [], s2c = [], conn = True, rdr = Reading,
      running = [], answers = [], srvState = st, served = [], issued = 1\<rparr>"

inductive dreach for enc dec srv where
  dr_init: "dreach enc dec srv (startDemux enc b st)"
| dr_step: "dreach enc dec srv s \<Longrightarrow> dstep enc dec srv s t \<Longrightarrow> dreach enc dec srv t"

fun callOf :: "caller \<Rightarrow> (Ttag \<times> string) option" where
  "callOf Idle = None"
| "callOf (Tagged t b) = Some (t, b)"
| "callOf (Queued t b) = Some (t, b)"
| "callOf (Waiting t b) = Some (t, b)"
| "callOf (Returned t b r) = Some (t, b)"

definition pendingC :: "caller \<Rightarrow> Ttag \<Rightarrow> bool" where
  "pendingC x t \<longleftrightarrow> (\<exists>b. x = Queued t b \<or> x = Waiting t b)"

text \<open>The call of a tag waits for its reply, or the reader gave it up.\<close>

definition waits :: "'st dsys \<Rightarrow> Ttag \<Rightarrow> string \<Rightarrow> bool" where
  "waits s t b \<longleftrightarrow> (\<exists>c. callers s c = Waiting t b \<or>
     rdr s \<noteq> Reading \<and> (\<exists>r. callers s c = Returned t b r \<and> derr r))"

definition tags_inv :: "'st dsys \<Rightarrow> bool" where
  "tags_inv s \<longleftrightarrow> nextTag (clnt s) = of_nat (issued s) \<and>
     (\<forall>c t b. callOf (callers s c) = Some (t, b) \<longrightarrow> unat t < issued s) \<and>
     (\<forall>c d t b b'. callOf (callers s c) = Some (t, b) \<longrightarrow> callOf (callers s d) = Some (t, b') \<longrightarrow> c = d) \<and>
     (\<forall>c t. cmCalls (callmap (clnt s)) t = Some c \<longleftrightarrow> pendingC (callers s c) t)"

definition inflight :: "'st dsys \<Rightarrow> (Ttag \<times> string \<times> bool) list \<Rightarrow> (Ttag \<times> string \<times> bool) list \<Rightarrow> Ttag list" where
  "inflight s rs as = map fst rs @ map fst (running s) @ map fst (answers s) @ map fst as"

definition flow_inv :: "(msg \<Rightarrow> string) \<Rightarrow> 'st dsys \<Rightarrow> (Ttag \<times> string \<times> bool) list \<Rightarrow> (Ttag \<times> string \<times> bool) list \<Rightarrow> bool" where
  "flow_inv enc s rs as \<longleftrightarrow> stream enc (conn s) (c2s s) rs \<and> stream enc (conn s) (s2c s) as \<and>
     distinct (inflight s rs as) \<and> distinct (map fst (served s)) \<and>
     (\<forall>t b x. (t, b, x) \<in> set rs \<longrightarrow> waits s t b) \<and> (\<forall>t b. (t, b) \<in> set (running s) \<longrightarrow> waits s t b) \<and>
     (\<forall>t rep okay. (t, rep, okay) \<in> set (answers s @ as) \<longrightarrow> (\<exists>b. waits s t b \<and> (t, b, rep, okay) \<in> set (served s))) \<and>
     (\<forall>t. t \<in> set (map fst (served s)) \<longrightarrow> t \<notin> set (map fst rs @ map fst (running s))) \<and>
     (\<forall>t b rep okay. (t, b, rep, okay) \<in> set (served s) \<longrightarrow>
        (\<exists>c. callers s c = Waiting t b \<or> (\<exists>r. callers s c = Returned t b r))) \<and>
     (\<forall>c t b r. callers s c = Returned t b r \<longrightarrow> \<not> derr r \<longrightarrow> (t, b, drep r, dok r) \<in> set (served s)) \<and>
     (\<forall>c t b. conn s \<longrightarrow> callers s c = Waiting t b \<longrightarrow> t \<in> set (inflight s rs as))"

definition reader_inv :: "'st dsys \<Rightarrow> bool" where
  "reader_inv s \<longleftrightarrow> (case rdr s of
     Reading \<Rightarrow> True
   | Draining ts \<Rightarrow> \<not> conn s \<and> cmClosed (callmap (clnt s)) \<and> distinct ts \<and> set ts = dom (cmCalls (callmap (clnt s)))
   | Stopped \<Rightarrow> \<not> conn s \<and> cmClosed (callmap (clnt s)) \<and> dom (cmCalls (callmap (clnt s))) = {})"

lemma tags_invD:
  assumes "tags_inv s"
  shows "nextTag (clnt s) = of_nat (issued s)"
    and "callOf (callers s c) = Some (t, b) \<Longrightarrow> unat t < issued s"
    and "callOf (callers s c) = Some (t, b) \<Longrightarrow> callOf (callers s d) = Some (t, b') \<Longrightarrow> c = d"
    and "cmCalls (callmap (clnt s)) t = Some c \<longleftrightarrow> pendingC (callers s c) t"
  using assms unfolding tags_inv_def by blast+

lemma tags_invI:
  assumes "nextTag (clnt s) = of_nat (issued s)"
    and "\<And>c t b. callOf (callers s c) = Some (t, b) \<Longrightarrow> unat t < issued s"
    and "\<And>c d t b b'. callOf (callers s c) = Some (t, b) \<Longrightarrow> callOf (callers s d) = Some (t, b') \<Longrightarrow> c = d"
    and "\<And>c t. cmCalls (callmap (clnt s)) t = Some c \<longleftrightarrow> pendingC (callers s c) t"
  shows "tags_inv s"
  using assms unfolding tags_inv_def by blast

lemma pendingC_simps [simp]:
  "\<not> pendingC Idle t" "\<not> pendingC (Tagged u b) t" "pendingC (Queued u b) t = (t = u)"
  "pendingC (Waiting u b) t = (t = u)" "\<not> pendingC (Returned u b r) t"
  by (auto simp: pendingC_def)

lemma pendingC_call: "pendingC x t \<Longrightarrow> \<exists>b. callOf x = Some (t, b)"
  by (auto simp: pendingC_def)

lemma replyTo_Some:
  "replyTo t dmx = Some (dmx', c) \<longleftrightarrow> cmCalls (callmap dmx) t = Some c \<and>
     dmx' = dmx\<lparr>callmap := (callmap dmx)\<lparr>cmCalls := (cmCalls (callmap dmx))(t := None)\<rparr>\<rparr>"
  by (auto simp: replyTo_def removeCall_def split: option.splits)

lemma tags_inv_keep:
  assumes "tags_inv s" "nextTag (clnt s') = nextTag (clnt s)" "issued s' = issued s" "callers s' = callers s"
    "cmCalls (callmap (clnt s')) = cmCalls (callmap (clnt s))"
  shows "tags_inv s'"
  using assms by (simp add: tags_inv_def)

lemma tags_inv_move:
  assumes inv: "tags_inv s" and n: "nextTag (clnt s') = nextTag (clnt s)" "issued s' = issued s"
    and c: "callers s' = (callers s)(c := x)" "callOf x = callOf (callers s c)"
    and m: "\<And>t d. cmCalls (callmap (clnt s')) t = Some d \<longleftrightarrow> pendingC (callers s' d) t"
  shows "tags_inv s'"
proof -
  have "callOf (callers s' d) = callOf (callers s d)" for d using c by simp
  then show ?thesis using inv n m unfolding tags_inv_def by simp
qed

lemma tags_inv_step:
  assumes "dstep enc dec srv s s'" "tags_inv s" "issued s' < 2 ^ 32"
  shows "tags_inv s'"
  using assms
proof (induction rule: dstep.induct)
  case (d_tag s c t dmx b)
  note D = tags_invD [OF d_tag(3)]
  have t: "t = of_nat (issued s)" "dmx = (clnt s)\<lparr>nextTag := nextTag (clnt s) + 1\<rparr>"
    using d_tag(2) D(1) by (auto simp: newTag_def)
  have u: "unat t = issued s" using d_tag(4) by (simp add: t(1) unat_of_nat)
  let ?x = "(callers s)(c := Tagged t b)"
  have fresh: "callOf (callers s d) \<noteq> Some (t, b')" for d b' using D(2) u by fastforce
  have 1: "unat v < Suc (issued s)" if "callOf (?x d) = Some (v, b')" for d v b'
    using that D(2) [of d v b'] u by (cases "d = c") auto
  have 2: "d = e" if "callOf (?x d) = Some (v, b')" "callOf (?x e) = Some (v, b'')" for d e v b' b''
    using that D(3) [of d v b' e b''] fresh by (auto split: if_splits)
  have 3: "cmCalls (callmap (clnt s)) v = Some d \<longleftrightarrow> pendingC (?x d) v" for d v
    using D(4) [of v d] d_tag(1) by (cases "d = c") auto
  let ?s = "s\<lparr>clnt := dmx, callers := ?x, issued := Suc (issued s)\<rparr>"
  have "nextTag (clnt ?s) = of_nat (issued ?s)" using t D(1) by (simp add: add.commute)
  moreover have "callers ?s = ?x" "issued ?s = Suc (issued s)" "callmap (clnt ?s) = callmap (clnt s)" using t(2) by simp_all
  ultimately show ?case using 1 2 3 by (intro tags_invI) metis+
next
  case (d_put s c t b dmx)
  note D = tags_invD [OF d_put(3)]
  have dmx: "dmx = (clnt s)\<lparr>callmap := (callmap (clnt s))\<lparr>cmCalls := (cmCalls (callmap (clnt s)))(t \<mapsto> c)\<rparr>\<rparr>"
    using d_put(2) by (auto simp: sendPut_def putCall_def split: if_splits option.splits)
  have fresh: "\<not> pendingC (callers s d) t" if "d \<noteq> c" for d
    using D(3) [of d t _ c b] pendingC_call [of "callers s d" t] d_put(1) that by auto
  show ?case
    by (rule tags_inv_move [OF d_put(3), where c = c and x = "Queued t b"]) (use dmx d_put(1) D(4) fresh in auto)
next
  case (d_refused s c t b r)
  show ?case
    by (rule tags_inv_move [OF d_refused(3), where c = c and x = "Returned t b r"]) (use d_refused(1) tags_invD(4) [OF d_refused(3)] in auto)
next
  case (d_write s c t b)
  show ?case
    by (rule tags_inv_move [OF d_write(4), where c = c and x = "Waiting t b"]) (use d_write(1) tags_invD(4) [OF d_write(4)] in auto)
next
  case (d_write_error s c t b)
  show ?case
    by (rule tags_inv_move [OF d_write_error(3), where c = c and x = "Waiting t b"]) (use d_write_error(1) tags_invD(4) [OF d_write_error(3)] in auto)
next
  case (d_reply s m rest dmx c t b)
  note D = tags_invD(4) [OF d_reply(5)]
  have r: "cmCalls (callmap (clnt s)) (mTag m) = Some c" using d_reply(3) by (simp add: replyTo_Some)
  then have t: "mTag m = t" using D [of "mTag m" c] d_reply(4) by simp
  have uniq: "d = c" if "pendingC (callers s d) t" for d using D [of t d] r t that by simp
  from t show ?case
    by (intro tags_inv_move [OF d_reply(5), where c = c and x = "Returned t b \<lparr>drep = mData m, dok = mOk m, derr = False\<rparr>"]) (use d_reply(3,4) D uniq in \<open>auto simp: replyTo_Some\<close>)
next
  case (d_close s conn' dmx)
  show ?case
    by (rule tags_inv_keep [OF d_close(2)]) (use d_close(1) in \<open>auto simp: CloseClnt_def closeMap_def split: if_splits\<close>)
next
  case (d_eof s ts)
  show ?case by (rule tags_inv_keep [OF d_eof(5)]) (simp_all add: closeMap_def)
next
  case (d_fail s t ts dmx c u b)
  note D = tags_invD(4) [OF d_fail(4)]
  have r: "cmCalls (callmap (clnt s)) t = Some c" using d_fail(2) by (simp add: replyTo_Some)
  then have t: "t = u" using D [of t c] d_fail(3) by simp
  have uniq: "d = c" if "pendingC (callers s d) u" for d using D [of u d] r t that by simp
  from t show ?case
    by (intro tags_inv_move [OF d_fail(4), where c = c and x = "Returned u b \<lparr>drep = [], dok = False, derr = True\<rparr>"]) (use d_fail(2,3) D uniq in \<open>auto simp: replyTo_Some\<close>)
qed (auto intro: tags_inv_keep)

lemma reader_inv_step:
  assumes "dstep enc dec srv s s'" "reader_inv s"
  shows "reader_inv s'"
  using assms
proof (induction rule: dstep.induct)
  case (d_put s c t b dmx)
  have "\<not> cmClosed (callmap (clnt s))" using d_put(2) by (auto simp: sendPut_def putCall_def split: if_splits)
  then show ?case using d_put(3) by (auto simp: reader_inv_def split: rdrState.splits)
next
  case (d_tag s c t dmx b)
  then show ?case by (auto simp: reader_inv_def newTag_def split: rdrState.splits)
next
  case (d_close s conn' dmx)
  then show ?case by (auto simp: reader_inv_def CloseClnt_def isClosed_def closeMap_def split: rdrState.splits if_splits)
next
  case (d_eof s ts)
  then show ?case by (auto simp: reader_inv_def outstanding_def closeMap_def)
next
  case (d_fail s t ts dmx c u b)
  then show ?case by (auto simp: reader_inv_def replyTo_Some)
qed (auto simp: reader_inv_def split: rdrState.splits)

subsection \<open>The flow of requests and replies\<close>

lemma flow_invD:
  assumes "flow_inv enc s rs as"
  shows "stream enc (conn s) (c2s s) rs" "stream enc (conn s) (s2c s) as"
    and "distinct (inflight s rs as)" "distinct (map fst (served s))"
    and "(t, b, x) \<in> set rs \<Longrightarrow> waits s t b" and "(t, b) \<in> set (running s) \<Longrightarrow> waits s t b"
    and "(t, rep, okay) \<in> set (answers s @ as) \<Longrightarrow> \<exists>b. waits s t b \<and> (t, b, rep, okay) \<in> set (served s)"
    and "t \<in> set (map fst (served s)) \<Longrightarrow> t \<notin> set (map fst rs @ map fst (running s))"
    and "(t, b, rep, okay) \<in> set (served s) \<Longrightarrow> \<exists>c. callers s c = Waiting t b \<or> (\<exists>r. callers s c = Returned t b r)"
    and "callers s c = Returned t b r \<Longrightarrow> \<not> derr r \<Longrightarrow> (t, b, drep r, dok r) \<in> set (served s)"
    and "conn s \<Longrightarrow> callers s c = Waiting t b \<Longrightarrow> t \<in> set (inflight s rs as)"
  using assms unfolding flow_inv_def by (metis)+

lemma flow_invI:
  assumes "stream enc (conn s) (c2s s) rs" "stream enc (conn s) (s2c s) as"
    and "distinct (inflight s rs as)" "distinct (map fst (served s))"
    and "\<And>t b x. (t, b, x) \<in> set rs \<Longrightarrow> waits s t b" and "\<And>t b. (t, b) \<in> set (running s) \<Longrightarrow> waits s t b"
    and "\<And>t rep okay. (t, rep, okay) \<in> set (answers s @ as) \<Longrightarrow> \<exists>b. waits s t b \<and> (t, b, rep, okay) \<in> set (served s)"
    and "\<And>t. t \<in> set (map fst (served s)) \<Longrightarrow> t \<notin> set (map fst rs @ map fst (running s))"
    and "\<And>t b rep okay. (t, b, rep, okay) \<in> set (served s) \<Longrightarrow>
        \<exists>c. callers s c = Waiting t b \<or> (\<exists>r. callers s c = Returned t b r)"
    and "\<And>c t b r. callers s c = Returned t b r \<Longrightarrow> \<not> derr r \<Longrightarrow> (t, b, drep r, dok r) \<in> set (served s)"
    and "\<And>c t b. conn s \<Longrightarrow> callers s c = Waiting t b \<Longrightarrow> t \<in> set (inflight s rs as)"
  shows "flow_inv enc s rs as"
  unfolding flow_inv_def by (intro conjI allI impI; (rule assms; assumption)?) 

lemma stream_close: "stream enc isopen s xs \<Longrightarrow> stream enc False s xs"
  by (auto simp: stream_def)

text \<open>Steps of a caller that is not waiting, and of the reader, keep the flow.\<close>

lemma flow_inv_caller:
  assumes inv: "flow_inv enc s rs as" and c: "callers s c \<in> {Idle, Tagged t b, Queued t b}" "callers s' = (callers s)(c := x)"
    and x: "\<And>u d r. x = Returned u d r \<Longrightarrow> derr r" "\<And>u d. x = Waiting u d \<Longrightarrow> \<not> conn s"
    and same: "conn s' = conn s" "c2s s' = c2s s" "s2c s' = s2c s" "running s' = running s" "answers s' = answers s"
      "served s' = served s" "rdr s' = rdr s"
  shows "flow_inv enc s' rs as"
proof -
  note D = flow_invD [OF inv]
  have w: "waits s' u d" if wt: "waits s u d" for u d
  proof -
    obtain e where "callers s e = Waiting u d \<or> rdr s \<noteq> Reading \<and> (\<exists>r. callers s e = Returned u d r \<and> derr r)"
      using wt unfolding waits_def by blast
    moreover from this have "e \<noteq> c" using c(1) by auto
    ultimately show ?thesis unfolding waits_def using c(2) same(7) by (intro exI [of _ e]) auto
  qed
  have sv: "\<exists>e. callers s' e = Waiting u d \<or> (\<exists>r. callers s' e = Returned u d r)" if m: "(u, d, rep, okay) \<in> set (served s)" for u d rep okay
  proof -
    obtain e where "callers s e = Waiting u d \<or> (\<exists>r. callers s e = Returned u d r)" using D(9) [OF m] by blast
    moreover from this have "e \<noteq> c" using c(1) by auto
    ultimately show ?thesis using c(2) by (intro exI [of _ e]) auto
  qed
  have rt: "(u, d, drep r, dok r) \<in> set (served s)" if "callers s' e = Returned u d r" "\<not> derr r" for e u d r
    using D(10) [of e u d r] that x(1) c(2) by (cases "e = c") auto
  have cw: "u \<in> set (inflight s rs as)"
    if "conn s" "callers s' e = Waiting u d" for e u d
    using D(11) [of e u d] that x(2) c(2) by (cases "e = c") auto
  have fl: "inflight s' rs as = inflight s rs as" using same by (simp add: inflight_def)
  show ?thesis
    by (rule flow_invI) (use D(1-4,8) w D(5-7) sv rt cw same fl in \<open>simp, simp, simp, simp, blast, metis, metis, simp, metis, metis, metis\<close>)
qed


lemma flow_inv_wires:
  assumes inv: "flow_inv enc s rs as" and c: "callers s' = callers s" "served s' = served s" "rdr s \<noteq> Reading \<Longrightarrow> rdr s' \<noteq> Reading"
    and st: "stream enc (conn s') (c2s s') rs'" "stream enc (conn s') (s2c s') as'" "distinct (inflight s' rs' as')"
    and sub: "\<And>t b x. (t, b, x) \<in> set rs' \<Longrightarrow> (t, b, x) \<in> set rs"
      "\<And>t b. (t, b) \<in> set (running s') \<Longrightarrow> (t, b) \<in> set (running s) \<or> (\<exists>x. (t, b, x) \<in> set rs)"
      "\<And>t rep okay. (t, rep, okay) \<in> set (answers s' @ as') \<Longrightarrow> (t, rep, okay) \<in> set (answers s @ as)"
    and all: "conn s' \<Longrightarrow> conn s \<and> set (inflight s rs as) \<subseteq> set (inflight s' rs' as')"
  shows "flow_inv enc s' rs' as'"
proof -
  note D = flow_invD [OF inv]
  have w: "waits s' u d" if "waits s u d" for u d using that c(1,3) unfolding waits_def by metis
  show ?thesis
  proof (rule flow_invI [OF st])
    show "distinct (map fst (served s'))" using D(4) c(2) by simp
    show "waits s' t b" if "(t, b, x) \<in> set rs'" for t b x using D(5) [OF sub(1) [OF that]] w by blast
    show "waits s' t b" if "(t, b) \<in> set (running s')" for t b using sub(2) [OF that] D(5,6) w by blast
    show "\<exists>b. waits s' t b \<and> (t, b, rep, okay) \<in> set (served s')" if "(t, rep, okay) \<in> set (answers s' @ as')" for t rep okay
      using D(7) [OF sub(3) [OF that]] w c(2) by metis
    show "t \<notin> set (map fst rs' @ map fst (running s'))" if "t \<in> set (map fst (served s'))" for t
    proof
      assume m: "t \<in> set (map fst rs' @ map fst (running s'))"
      have "t \<in> set (map fst rs @ map fst (running s))" using m sub(1,2) by force
      then show False using D(8) [of t] that c(2) by metis
    qed
    show "\<exists>e. callers s' e = Waiting t b \<or> (\<exists>r. callers s' e = Returned t b r)" if "(t, b, rep, okay) \<in> set (served s')" for t b rep okay
      using D(9) [of t b rep okay] that c by metis
    show "(t, b, drep r, dok r) \<in> set (served s')" if "callers s' e = Returned t b r" "\<not> derr r" for e t b r
      using D(10) [of e t b r] that c by metis
    show "t \<in> set (inflight s' rs' as')" if "conn s'" "callers s' e = Waiting t b" for e t b
      using D(11) [of e t b] that all c(1) by auto
  qed
qed

lemma map_fst_remove1:
  "distinct (map fst xs) \<Longrightarrow> (t, x) \<in> set xs \<Longrightarrow>
     distinct (map fst (remove1 (t, x) xs)) \<and> set (map fst xs) = insert t (set (map fst (remove1 (t, x) xs))) \<and>
     t \<notin> set (map fst (remove1 (t, x) xs))"
proof (induction xs)
  case (Cons y ys)
  show ?case
  proof (cases "y = (t, x)")
    case False
    then have m: "(t, x) \<in> set ys" "distinct (map fst ys)" using Cons.prems by auto
    have "t \<in> set (map fst ys)" using imageI [OF m(1), of fst] by simp
    then have "fst y \<noteq> t" using Cons.prems(1) by auto
    moreover have "fst y \<notin> set (map fst (remove1 (t, x) ys))" using Cons.prems(1) set_remove1_subset [of "(t, x)" ys] by auto
    ultimately show ?thesis using Cons.IH [OF m(2,1)] False by auto
  qed (use Cons.prems in auto)
qed simp

lemma flow_inv_srv_read:
  assumes "frames_ok enc dec" "flow_inv enc s rs as" "ReadCall dec eof (c2s s) = Some (ReadMsg m rest)"
  shows "\<exists>rs' as'. flow_inv enc (s\<lparr>c2s := rest, running := (mTag m, mData m) # running s\<rparr>) rs' as'"
proof -
  obtain ys where ys: "rs = (mTag m, mData m, mOk m) # ys" "stream enc (conn s) rest ys"
    using stream_read [OF assms(1) flow_invD(1) [OF assms(2)] assms(3)] by blast
  have "flow_inv enc (s\<lparr>c2s := rest, running := (mTag m, mData m) # running s\<rparr>) ys as"
    by (rule flow_inv_wires [OF assms(2)]) (use ys flow_invD(2,3) [OF assms(2)] in \<open>auto simp: inflight_def\<close>)
  then show ?thesis by blast
qed

lemma flow_inv_answer:
  assumes inv: "flow_inv enc s rs as" and a: "(t, rep, okay) \<in> set (answers s)" "fits enc t rep okay"
  shows "\<exists>rs' as'. flow_inv enc (s\<lparr>answers := remove1 (t, rep, okay) (answers s),
      s2c := (if conn s then s2c s @ WriteCall enc t rep okay else s2c s)\<rparr>) rs' as'"
proof -
  note D = flow_invD [OF inv]
  have d: "distinct (map fst (answers s))" using D(3) by (simp add: inflight_def)
  note R = map_fst_remove1 [OF d a(1)]
  have sub: "set (remove1 (t, rep, okay) (answers s)) \<subseteq> set (answers s)" by (rule set_remove1_subset)
  let ?s = "s\<lparr>answers := remove1 (t, rep, okay) (answers s), s2c := (if conn s then s2c s @ WriteCall enc t rep okay else s2c s)\<rparr>"
  show ?thesis
  proof (cases "conn s")
    case True
    have "flow_inv enc ?s rs (as @ [(t, rep, okay)])"
      by (rule flow_inv_wires [OF inv])
        (use D(1-3) R sub a True stream_write [of enc "s2c s" as t rep okay] in \<open>auto simp: inflight_def\<close>)
    then show ?thesis by blast
  next
    case False
    have "flow_inv enc ?s rs as"
      by (rule flow_inv_wires [OF inv]) (use D(1-3) R sub a False in \<open>auto simp: inflight_def\<close>)
    then show ?thesis by blast
  qed
qed


lemma flow_inv_run:
  assumes inv: "flow_inv enc s rs as" and r: "(t, b) \<in> set (running s)"
  shows "\<exists>rs' as'. flow_inv enc (s\<lparr>running := remove1 (t, b) (running s), answers := (t, rep, okay) # answers s,
      srvState := st', served := (t, b, rep, okay) # served s\<rparr>) rs' as'" (is "\<exists>rs' as'. flow_inv enc ?s rs' as'")
proof -
  note D = flow_invD [OF inv]
  have d: "distinct (map fst (running s))" using D(3) by (simp add: inflight_def)
  note R = map_fst_remove1 [OF d r]
  have sub: "set (remove1 (t, b) (running s)) \<subseteq> set (running s)" by (rule set_remove1_subset)
  have w: "waits ?s = waits s" by (auto simp: waits_def fun_eq_iff)
  have tr: "t \<in> set (map fst (running s))" using imageI [OF r, of fst] by simp
  have new: "t \<notin> set (map fst (served s))" using D(8) [of t] tr by auto
  have wt: "waits s t b" by (rule D(6) [OF r])
  have "flow_inv enc ?s rs as"
  proof (rule flow_invI)
    show "distinct (inflight ?s rs as)" using D(3) R by (auto simp: inflight_def)
    show "distinct (map fst (served ?s))" using D(4) new by simp
    show "waits ?s u d" if "(u, d) \<in> set (running ?s)" for u d using that D(6) sub w by auto
    show "\<exists>d. waits ?s u d \<and> (u, d, p, q) \<in> set (served ?s)" if "(u, p, q) \<in> set (answers ?s @ as)" for u p q
    proof (cases "(u, p, q) = (t, rep, okay)")
      case True
      then show ?thesis using wt w by auto
    next
      case False
      then have "(u, p, q) \<in> set (answers s @ as)" using that by auto
      from D(7) [OF this] show ?thesis using w by auto
    qed
    show "u \<notin> set (map fst rs @ map fst (running ?s))" if "u \<in> set (map fst (served ?s))" for u
    proof (cases "u = t")
      case True
      then show ?thesis using R D(3) tr by (auto simp: inflight_def)
    next
      case False
      then have "u \<in> set (map fst (served s))" using that by auto
      from D(8) [OF this] show ?thesis using R by auto
    qed
    show "\<exists>e. callers ?s e = Waiting u d \<or> (\<exists>r. callers ?s e = Returned u d r)" if "(u, d, p, q) \<in> set (served ?s)" for u d p q
      using that D(9) [of u d p q] wt unfolding waits_def by auto
    show "(u, d, drep r, dok r) \<in> set (served ?s)" if "callers ?s e = Returned u d r" "\<not> derr r" for e u d r
      using that D(10) [of e u d r] by simp
    show "u \<in> set (inflight ?s rs as)" if "conn ?s" "callers ?s e = Waiting u d" for e u d
      using that D(11) [of e u d] R by (auto simp: inflight_def)
  qed (use D(1,2,5) w in auto)
  then show ?thesis by blast
qed

lemma waits_tag:
  assumes "waits s t b" "tags_inv s" "callOf (callers s c) = Some (t, b')"
  shows "b' = b \<and> (callers s c = Waiting t b \<or> rdr s \<noteq> Reading \<and> (\<exists>r. callers s c = Returned t b r \<and> derr r))"
proof -
  obtain d where d: "callers s d = Waiting t b \<or> rdr s \<noteq> Reading \<and> (\<exists>r. callers s d = Returned t b r \<and> derr r)"
    using assms(1) unfolding waits_def by blast
  then have "callOf (callers s d) = Some (t, b)" by auto
  then have "d = c" using tags_invD(3) [OF assms(2) _ assms(3)] by blast
  then show ?thesis using d assms(3) by auto
qed

lemma inflight_waits:
  assumes "flow_inv enc s rs as" "t \<in> set (inflight s rs as)"
  shows "\<exists>b. waits s t b"
  using assms(2) flow_invD(5-7) [OF assms(1)] unfolding inflight_def by fastforce

lemma flow_inv_write:
  assumes inv: "flow_inv enc s rs as" "tags_inv s" and c: "callers s c = Queued t b" "conn s" "fits enc t b True"
  shows "\<exists>rs' as'. flow_inv enc (s\<lparr>c2s := c2s s @ WriteCall enc t b True, callers := (callers s)(c := Waiting t b)\<rparr>) rs' as'"
    (is "\<exists>rs' as'. flow_inv enc ?s rs' as'")
proof -
  note D = flow_invD [OF inv(1)]
  have nw: "\<not> waits s t d" for d using waits_tag [OF _ inv(2), of t d c b] c(1) by auto
  have fresh: "t \<notin> set (inflight s rs as)" using inflight_waits [OF inv(1)] nw by blast
  have w: "waits ?s u d" if wu: "waits s u d" for u d
  proof -
    obtain e where "callers s e = Waiting u d \<or> rdr s \<noteq> Reading \<and> (\<exists>r. callers s e = Returned u d r \<and> derr r)"
      using wu unfolding waits_def by blast
    moreover from this have "e \<noteq> c" using c(1) by auto
    ultimately show ?thesis unfolding waits_def by (intro exI [of _ e]) auto
  qed
  have wt: "waits ?s t b" unfolding waits_def by (intro exI [of _ c]) simp
  have nserved: "t \<notin> set (map fst (served s))"
  proof
    assume "t \<in> set (map fst (served s))"
    then obtain d p q where "(t, d, p, q) \<in> set (served s)" by auto
    from D(9) [OF this] obtain e where e: "callers s e = Waiting t d \<or> (\<exists>r. callers s e = Returned t d r)" by blast
    then have "callOf (callers s e) = Some (t, d)" by auto
    then have "e = c" using tags_invD(3) [OF inv(2), of e t d c b] c(1) by simp
    then show False using e c(1) by auto
  qed
  have "flow_inv enc ?s (rs @ [(t, b, True)]) as"
  proof (rule flow_invI)
    show "stream enc (conn ?s) (c2s ?s) (rs @ [(t, b, True)])" using stream_write [OF _ c(3)] D(1) c(2) by simp
    show "distinct (inflight ?s (rs @ [(t, b, True)]) as)" using D(3) fresh by (auto simp: inflight_def)
    show "\<exists>d. waits ?s u d \<and> (u, d, p, q) \<in> set (served ?s)" if "(u, p, q) \<in> set (answers ?s @ as)" for u p q
      using D(7) [of u p q] that w by auto
    show "u \<notin> set (map fst (rs @ [(t, b, True)]) @ map fst (running ?s))" if "u \<in> set (map fst (served ?s))" for u
      using D(8) [of u] that nserved by auto
    show "\<exists>e. callers ?s e = Waiting u d \<or> (\<exists>r. callers ?s e = Returned u d r)" if m: "(u, d, p, q) \<in> set (served ?s)" for u d p q
    proof -
      obtain e where "callers s e = Waiting u d \<or> (\<exists>r. callers s e = Returned u d r)" using D(9) [of u d p q] m by auto
      moreover from this have "e \<noteq> c" using c(1) by auto
      ultimately show ?thesis by (intro exI [of _ e]) auto
    qed
    show "(u, d, drep r, dok r) \<in> set (served ?s)" if "callers ?s e = Returned u d r" "\<not> derr r" for e u d r
      using that D(10) [of e u d r] by (auto split: if_splits)
    show "u \<in> set (inflight ?s (rs @ [(t, b, True)]) as)" if "conn ?s" "callers ?s e = Waiting u d" for e u d
      using that D(11) [of e u d] by (cases "e = c") (auto simp: inflight_def)
    show "waits ?s u d" if "(u, d, x) \<in> set (rs @ [(t, b, True)])" for u d x using that D(5) w wt by auto
    show "waits ?s u d" if "(u, d) \<in> set (running ?s)" for u d using that D(6) w by simp
  qed (use D(2,4) in auto)
  then show ?thesis by blast
qed


lemma distinct_append_sub: "distinct (xs @ ys) \<Longrightarrow> set zs \<subseteq> set ys \<Longrightarrow> distinct zs \<Longrightarrow> distinct (xs @ zs)"
  by auto

text \<open>A waiting call returns: with its reply, or given up by the reader.\<close>

lemma flow_inv_return:
  assumes inv: "flow_inv enc s rs as" "tags_inv s" and c: "callers s c = Waiting t b" "callers s' = (callers s)(c := Returned t b r)"
    and same: "conn s' = conn s" "c2s s' = c2s s" "running s' = running s" "answers s' = answers s" "served s' = served s"
    and st: "stream enc (conn s') (s2c s') as'" "set as' \<subseteq> set as" "distinct (map fst as')"
    and how: "rdr s' = rdr s \<and> rdr s = Reading \<and> (t, b, drep r, dok r) \<in> set (served s) \<and> as = (t, drep r, dok r) # as' \<or>
       rdr s \<noteq> Reading \<and> rdr s' \<noteq> Reading \<and> derr r \<and> as' = as \<and> \<not> conn s"
  shows "flow_inv enc s' rs as'"
proof -
  note D = flow_invD [OF inv(1)]
  have "fst ` set as' \<subseteq> fst ` set as" using st(2) by blast
  then have d': "distinct (inflight s' rs as')"
    using D(3) st(3) same distinct_append_sub [of "map fst rs @ map fst (running s) @ map fst (answers s)" "map fst as" "map fst as'"]
    by (simp add: inflight_def)
  have gone: "t \<notin> set (inflight s' rs as')" if "rdr s = Reading"
    using how that D(3) same by (auto simp: inflight_def)
  have w: "waits s' u d" if wu: "waits s u d" "u \<in> set (inflight s' rs as')" for u d
  proof -
    obtain e where e: "callers s e = Waiting u d \<or> rdr s \<noteq> Reading \<and> (\<exists>r. callers s e = Returned u d r \<and> derr r)"
      using wu(1) unfolding waits_def by blast
    show ?thesis
    proof (cases "e = c")
      case False
      then show ?thesis using e c(2) how unfolding waits_def by (intro exI [of _ e]) auto
    next
      case True
      then have "u = t" "d = b" using e c(1) by auto
      then have "rdr s \<noteq> Reading" using gone wu(2) by blast
      then show ?thesis using how c(2) \<open>u = t\<close> \<open>d = b\<close> unfolding waits_def by (intro exI [of _ c]) auto
    qed
  qed
  have mem: "u \<in> set (inflight s' rs as')" if "u \<in> set (map fst rs @ map fst (running s) @ map fst (answers s) @ map fst as')" for u
    using that same by (simp add: inflight_def)
  show ?thesis
  proof (rule flow_invI)
    show "waits s' u d" if "(u, d, x) \<in> set rs" for u d x
      using w [OF D(5) [OF that]] mem [of u] imageI [OF that, of fst] by simp
    show "waits s' u d" if "(u, d) \<in> set (running s')" for u d
      using w [OF D(6), of u d] mem [of u] that same imageI [OF that, of fst] by simp
    show "\<exists>d. waits s' u d \<and> (u, d, p, q) \<in> set (served s')" if m: "(u, p, q) \<in> set (answers s' @ as')" for u p q
    proof -
      have "(u, p, q) \<in> set (answers s @ as)" using m st(2) same by auto
      from D(7) [OF this] obtain d where "waits s u d" "(u, d, p, q) \<in> set (served s)" by blast
      moreover have "u \<in> set (inflight s' rs as')" using imageI [OF m, of fst] by (auto simp: inflight_def)
      ultimately show ?thesis using w same(5) by auto
    qed
    show "\<exists>e. callers s' e = Waiting u d \<or> (\<exists>r. callers s' e = Returned u d r)" if m: "(u, d, p, q) \<in> set (served s')" for u d p q
    proof -
      obtain e where "callers s e = Waiting u d \<or> (\<exists>r. callers s e = Returned u d r)" using D(9) [of u d p q] m same(5) by auto
      then show ?thesis using c by (intro exI [of _ e]) auto
    qed
    show "(u, d, drep x, dok x) \<in> set (served s')" if "callers s' e = Returned u d x" "\<not> derr x" for e u d x
      using that D(10) [of e u d x] c(2) how same(5) by (cases "e = c") auto
    show "u \<in> set (inflight s' rs as')" if "conn s'" "callers s' e = Waiting u d" for e u d
    proof -
      have e: "e \<noteq> c" "callers s e = Waiting u d" using that c(2) by (auto split: if_splits)
      then have "u \<in> set (inflight s rs as)" using D(11) [of e u d] that same(1) by simp
      moreover have "u \<noteq> t" using tags_invD(3) [OF inv(2), of e t d c b] e c(1) by auto
      ultimately show ?thesis using how that(1) same by (auto simp: inflight_def)
    qed
  qed (use D(1,4,8) st(1) d' same in auto)
qed

lemma reply_call:
  assumes "flow_inv enc s rs as" "tags_inv s" "frames_ok enc dec" "rdr s = Reading"
    and "ReadCall dec eof (s2c s) = Some (ReadMsg m rest)"
  shows "\<exists>as' c b. as = (mTag m, mData m, mOk m) # as' \<and> stream enc (conn s) rest as' \<and>
    callers s c = Waiting (mTag m) b \<and> (mTag m, b, mData m, mOk m) \<in> set (served s) \<and>
    cmCalls (callmap (clnt s)) (mTag m) = Some c"
proof -
  obtain as' where as': "as = (mTag m, mData m, mOk m) # as'" "stream enc (conn s) rest as'"
    using stream_read [OF assms(3) flow_invD(2) [OF assms(1)] assms(5)] by blast
  obtain b where b: "waits s (mTag m) b" "(mTag m, b, mData m, mOk m) \<in> set (served s)"
    using flow_invD(7) [OF assms(1), of "mTag m" "mData m" "mOk m"] as'(1) by auto
  obtain c where "callers s c = Waiting (mTag m) b" using b(1) assms(4) unfolding waits_def by auto
  then show ?thesis using as' b(2) tags_invD(4) [OF assms(2), of "mTag m" c] by auto
qed

lemma flow_inv_step:
  assumes "dstep enc dec srv s s'" "flow_inv enc s rs as" "tags_inv s" "reader_inv s" "frames_ok enc dec"
  shows "\<exists>rs' as'. flow_inv enc s' rs' as'"
  using assms
proof (induction rule: dstep.induct)
  case (d_tag s c t dmx b)
  have "flow_inv enc (s\<lparr>clnt := dmx, callers := (callers s)(c := Tagged t b), issued := Suc (issued s)\<rparr>) rs as"
    by (rule flow_inv_caller [OF d_tag(3), of c t b _ "Tagged t b"]) (use d_tag(1) in auto)
  then show ?case by blast
next
  case (d_put s c t b dmx)
  have "flow_inv enc (s\<lparr>clnt := dmx, callers := (callers s)(c := Queued t b)\<rparr>) rs as"
    by (rule flow_inv_caller [OF d_put(3), of c t b _ "Queued t b"]) (use d_put(1) in auto)
  then show ?case by blast
next
  case (d_refused s c t b r)
  then have "derr r" by (auto simp: sendPut_def split: option.splits)
  then have "flow_inv enc (s\<lparr>callers := (callers s)(c := Returned t b r)\<rparr>) rs as"
    by (intro flow_inv_caller [OF d_refused(3), of c t b _ "Returned t b r"]) (use d_refused(1) in auto)
  then show ?case by blast
next
  case (d_write s c t b)
  show ?case by (rule flow_inv_write [OF d_write(4,5,1,2,3)])
next
  case (d_write_error s c t b)
  have "flow_inv enc (s\<lparr>callers := (callers s)(c := Waiting t b)\<rparr>) rs as"
    by (rule flow_inv_caller [OF d_write_error(3), of c t b _ "Waiting t b"]) (use d_write_error(1,2) in auto)
  then show ?case by blast
next
  case (d_srv_read s m rest)
  show ?case by (rule flow_inv_srv_read [OF d_srv_read(5,2,1)])
next
  case (d_run t b s st' rep okay)
  show ?case by (rule flow_inv_run [OF d_run(3,1)])
next
  case (d_answer t rep okay s)
  show ?case by (rule flow_inv_answer [OF d_answer(3,1,2)])
next
  case (d_reply s m rest dmx c t b)
  obtain as' d b' where r: "as = (mTag m, mData m, mOk m) # as'" "stream enc (conn s) rest as'"
    "callers s d = Waiting (mTag m) b'" "(mTag m, b', mData m, mOk m) \<in> set (served s)"
    "cmCalls (callmap (clnt s)) (mTag m) = Some d" using reply_call [OF d_reply(5,6,8,1,2)] by blast
  then have "d = c" using d_reply(3) by (simp add: replyTo_Some)
  then have t: "t = mTag m" "b' = b" using r(3) d_reply(4) by auto
  have "distinct (map fst as)" using flow_invD(3) [OF d_reply(5)] by (simp add: inflight_def)
  then have "flow_inv enc (s\<lparr>clnt := dmx, s2c := rest,
      callers := (callers s)(c := Returned t b \<lparr>drep = mData m, dok = mOk m, derr = False\<rparr>)\<rparr>) rs as'"
    using r t d_reply(1,4)
    by (intro flow_inv_return [OF d_reply(5,6,4), of _ "\<lparr>drep = mData m, dok = mOk m, derr = False\<rparr>"]) auto
  then show ?case by blast
next
  case (d_close s conn' dmx)
  have "flow_inv enc (s\<lparr>conn := conn', clnt := dmx\<rparr>) rs as"
    by (rule flow_inv_wires [OF d_close(2)])
      (use flow_invD(1-3) [OF d_close(2)] d_close(1) stream_close in
        \<open>auto simp: inflight_def CloseClnt_def split: if_splits\<close>)
  then show ?case by blast
next
  case (d_break s k j)
  note D = flow_invD [OF d_break(1)]
  obtain ys zs where y: "rs = ys @ zs" "stream enc False (take j (c2s s)) ys" using stream_cut [OF D(1)] by blast
  obtain us vs where u: "as = us @ vs" "stream enc False (take k (s2c s)) us" using stream_cut [OF D(2)] by blast
  have "flow_inv enc (s\<lparr>conn := False, c2s := take j (c2s s), s2c := take k (s2c s)\<rparr>) ys us"
    by (rule flow_inv_wires [OF d_break(1)]) (use D(3) y u in \<open>auto simp: inflight_def\<close>)
  then show ?case by blast
next
  case (d_eof s ts)
  have "flow_inv enc (s\<lparr>clnt := (clnt s)\<lparr>callmap := closeMap (callmap (clnt s))\<rparr>, rdr := Draining ts\<rparr>) rs as"
    by (rule flow_inv_wires [OF d_eof(5)]) (use flow_invD(1-3) [OF d_eof(5)] d_eof(2) in \<open>auto simp: inflight_def\<close>)
  then show ?case by blast
next
  case (d_fail s t ts dmx c u b)
  have n: "\<not> conn s" "rdr s \<noteq> Reading" using d_fail(1,6) by (auto simp: reader_inv_def)
  note D = flow_invD [OF d_fail(4)]
  have "flow_inv enc (s\<lparr>clnt := dmx, rdr := Draining ts,
      callers := (callers s)(c := Returned u b \<lparr>drep = [], dok = False, derr = True\<rparr>)\<rparr>) rs as"
    by (rule flow_inv_return [OF d_fail(4,5,3), of _ "\<lparr>drep = [], dok = False, derr = True\<rparr>"])
      (use D(2,3) n in \<open>auto simp: inflight_def\<close>)
  then show ?case by blast
next
  case (d_stop s)
  have "flow_inv enc (s\<lparr>rdr := Stopped\<rparr>) rs as"
    by (rule flow_inv_wires [OF d_stop(2)]) (use flow_invD(1-3) [OF d_stop(2)] in \<open>auto simp: inflight_def\<close>)
  then show ?case by blast
qed


lemma issued_mono: "dstep enc dec srv s s' \<Longrightarrow> issued s \<le> issued s'"
  by (induction rule: dstep.induct) auto

lemma dreach_inv:
  assumes "dreach enc dec srv s" "frames_ok enc dec" "issued s < 2 ^ 32"
  shows "tags_inv s \<and> reader_inv s \<and> (\<exists>rs as. flow_inv enc s rs as)"
  using assms
proof (induction rule: dreach.induct)
  case (dr_init b st)
  have "tags_inv (startDemux enc b st)"
    by (simp add: tags_inv_def startDemux_def NewDemuxClnt_def newTag_def newCallMap_def)
  moreover have "flow_inv enc (startDemux enc b st) [] []" by (simp add: flow_inv_def startDemux_def inflight_def)
  ultimately show ?case unfolding reader_inv_def by (auto simp: startDemux_def)
next
  case (dr_step s t)
  then have "issued s < 2 ^ 32" using issued_mono [OF dr_step(2)] by simp
  then show ?case
    using dr_step tags_inv_step [OF dr_step(2)] reader_inv_step [OF dr_step(2)] flow_inv_step [OF dr_step(2)] by blast
qed

text \<open>
  C30. Replies find their requests. As long as fewer than \<open>2 ^ 32\<close> calls were made on a connection, however calls,
  handlers, replies and the end of the connection interleave: no two calls share a tag, the server runs
  each request at most once, and a call that returns without error returns what the server answered to
  this very request. Every frame the reader takes from the stream decodes and belongs to a call that waits for
  it, so the reader never stops the process with \<open>no matching req\<close>.
\<close>

theorem demux_matches:
  assumes "dreach enc dec srv s" "frames_ok enc dec" "issued s < 2 ^ 32"
  shows "distinct (map fst (served s)) \<and>
    (\<forall>c d t b b'. callOf (callers s c) = Some (t, b) \<longrightarrow> callOf (callers s d) = Some (t, b') \<longrightarrow> c = d) \<and>
    (\<forall>c t b r. callers s c = Returned t b r \<longrightarrow> \<not> derr r \<longrightarrow> (t, b, drep r, dok r) \<in> set (served s)) \<and>
    (\<forall>eof. ReadCall dec eof (s2c s) \<noteq> None) \<and>
    (\<forall>eof m rest. rdr s = Reading \<longrightarrow> ReadCall dec eof (s2c s) = Some (ReadMsg m rest) \<longrightarrow>
       (\<exists>dmx c b. replyTo (mTag m) (clnt s) = Some (dmx, c) \<and> callers s c = Waiting (mTag m) b))"
proof -
  obtain rs as where inv: "flow_inv enc s rs as" "tags_inv s" using dreach_inv [OF assms] by blast
  have "\<exists>dmx c b. replyTo (mTag m) (clnt s) = Some (dmx, c) \<and> callers s c = Waiting (mTag m) b"
    if "rdr s = Reading" "ReadCall dec eof (s2c s) = Some (ReadMsg m rest)" for eof m rest
    using reply_call [OF inv assms(2) that] unfolding replyTo_Some by blast
  moreover have "ReadCall dec eof (s2c s) \<noteq> None" for eof by (rule stream_decodes [OF assms(2) flow_invD(2) [OF inv(1)]])
  ultimately show ?thesis using flow_invD(4,10) [OF inv(1)] tags_invD(3) [OF inv(2)] by blast
qed

text \<open>
  C31. No call hangs: while the connection lives, every call that has written its request has it on the way to the
  server, in a handler, or its reply on the way back; once the connection has ended and the reader
  has seen it, the reader gives up exactly the calls that are still outstanding, and when it has stopped every
  call has returned or, not yet entered in the map, will be refused.
\<close>

theorem demux_no_call_hangs:
  assumes "dreach enc dec srv s" "frames_ok enc dec" "issued s < 2 ^ 32"
  shows "(conn s \<and> callers s c = Waiting t b \<longrightarrow> (\<exists>rs as. stream enc True (c2s s) rs \<and> stream enc True (s2c s) as \<and>
      t \<in> set (map fst rs @ map fst (running s) @ map fst (answers s) @ map fst as))) \<and>
    (rdr s = Draining ts \<longrightarrow> (t \<in> set ts \<longleftrightarrow> (\<exists>c. pendingC (callers s c) t))) \<and>
    (rdr s = Stopped \<longrightarrow> \<not> pendingC (callers s c) t \<and> (\<exists>r. sendPut c t (clnt s) = Inl r \<and> derr r))"
proof -
  obtain rs as where inv: "flow_inv enc s rs as" "tags_inv s" and rd: "reader_inv s" using dreach_inv [OF assms] by blast
  have "\<exists>rs as. stream enc True (c2s s) rs \<and> stream enc True (s2c s) as \<and>
      t \<in> set (map fst rs @ map fst (running s) @ map fst (answers s) @ map fst as)"
    if "conn s" "callers s c = Waiting t b"
    by (intro exI [of _ rs] exI [of _ as] conjI)
      (use flow_invD(1,2) [OF inv(1)] flow_invD(11) [OF inv(1) that] that(1) in \<open>simp_all add: inflight_def\<close>)
  moreover have "t \<in> set ts \<longleftrightarrow> (\<exists>c. pendingC (callers s c) t)" if "rdr s = Draining ts"
    using rd that tags_invD(4) [OF inv(2)] by (auto simp: reader_inv_def)
  moreover have "\<not> pendingC (callers s c) t \<and> (\<exists>r. sendPut c t (clnt s) = Inl r \<and> derr r)" if "rdr s = Stopped"
    using rd that tags_invD(4) [OF inv(2)] by (auto simp: reader_inv_def sendPut_def putCall_def)
  ultimately show ?thesis by blast
qed

text \<open>What the server answered is what its handler computed in some state of the service.\<close>

lemma served_by:
  "dreach enc dec srv s \<Longrightarrow> (t, b, rep, okay) \<in> set (served s) \<Longrightarrow> \<exists>st st'. srv b st = Some (st', rep, okay)"
proof (induction rule: dreach.induct)
  case (dr_init b st)
  then show ?case by (simp add: startDemux_def)
next
  case (dr_step s s')
  from dr_step(2,1,3,4) show ?case by (induction rule: dstep.induct) auto
qed


text \<open>
  Opening a connection: whatever bytes follow, the server takes exactly the client's first frame from the stream
  and learns the name the client gave, the client's next call gets a tag other than the one of that frame, and
  no proper prefix of the frame makes the server go on.
\<close>

lemma demux_handshake:
  assumes "frames_ok enc dec" "decInit b = Some cname" "fits enc 0 b True" "NewDemuxClnt enc b = (dmx, w)"
  shows "NewDemuxSrv dec decInit eof (w @ rest) = Some (Some (\<lparr>dsClosed = False, dsClntEnd = cname\<rparr>, rest)) \<and>
    fst (newTag dmx) = 1 \<and>
    (\<forall>k < length w. NewDemuxSrv dec decInit eof (take k w) = (if eof then None else Some None))"
proof -
  have w: "w = WriteCall enc 0 b True" "dmx = \<lparr>callmap = newCallMap, nextTag = 1\<rparr>"
    using assms(4) by (auto simp: NewDemuxClnt_def newTag_def)
  have "ReadCall dec eof (take k w) = Some (if eof then ReadError else Waits)" if "k < length w" for k
    by (rule ReadCall_partial [OF assms(1,3), of _ "drop k w"]) (use w(1) that in simp_all)
  then show ?thesis using ReadCall_WriteCall [OF assms(1,3), of eof rest] assms(2) w by (simp add: NewDemuxSrv_def newTag_def)
qed

subsection \<open>A concrete encoding and a concrete run\<close>

definition exEnc :: "msg \<Rightarrow> string" where
  "exEnc m = putUint32 (mTag m) @ (if mOk m then CHR ''+'' else CHR ''-'') # mData m"

definition exDec :: "string \<Rightarrow> msg option" where
  "exDec s = (if length s < 5 then None
     else Some \<lparr>mTag = of_nat (getUint (take 4 s)), mData = drop 5 s, mOk = (s ! 4 = CHR ''+'')\<rparr>)"

lemma ex_frames_ok: "frames_ok exEnc exDec"
proof -
  have "exDec (exEnc m) = Some m" for m
    using putUint32_length [of "mTag m"] by (cases m) (auto simp: exEnc_def exDec_def nth_append getUint_put)
  then show ?thesis by (simp add: frames_ok_def)
qed

lemma ex_fits: "length d < 1000 \<Longrightarrow> fits exEnc t d b"
  by (simp add: fits_def exEnc_def)

text \<open>A call that has written its request, and its reply.\<close>

lemma ex_run:
  assumes srv: "srv q st = Some (st', rep, True)" and len: "length q < 1000" "length rep < 1000"
  shows "\<exists>s. dreach exEnc exDec srv s \<and> issued s = 2 \<and> conn s \<and> callers s 0 = Waiting 1 q"
    and "\<exists>s. dreach exEnc exDec srv s \<and> issued s = 2 \<and> rdr s = Reading \<and>
      callers s 0 = Returned 1 q \<lparr>drep = rep, dok = True, derr = False\<rparr>"
proof -
  let ?w = "WriteCall exEnc 1 q True" and ?a = "WriteCall exEnc 1 rep True"
  define s0 where "s0 = startDemux exEnc [] st"
  define d1 where "d1 = \<lparr>callmap = newCallMap, nextTag = 2\<rparr>"
  define s1 where "s1 = s0\<lparr>clnt := d1, callers := (callers s0)(0 := Tagged 1 q), issued := Suc (issued s0)\<rparr>"
  define d2 where "d2 = d1\<lparr>callmap := \<lparr>cmClosed = False, cmCalls = [1 \<mapsto> 0]\<rparr>\<rparr>"
  define s2 where "s2 = s1\<lparr>clnt := d2, callers := (callers s1)(0 := Queued 1 q)\<rparr>"
  define s3 where "s3 = s2\<lparr>c2s := ?w, callers := (callers s2)(0 := Waiting 1 q)\<rparr>"
  define s4 where "s4 = s3\<lparr>c2s := [], running := [(1, q)]\<rparr>"
  define s5 where "s5 = s4\<lparr>running := [], answers := [(1, rep, True)], srvState := st', served := [(1, q, rep, True)]\<rparr>"
  define s6 where "s6 = s5\<lparr>answers := [], s2c := ?a\<rparr>"
  define s7 where "s7 = s6\<lparr>clnt := d1, s2c := [], callers := (callers s6)(0 := Returned 1 q \<lparr>drep = rep, dok = True, derr = False\<rparr>)\<rparr>"
  note simps = s0_def s1_def s2_def s3_def s4_def s5_def s6_def s7_def d1_def d2_def startDemux_def NewDemuxClnt_def
    newTag_def newCallMap_def
  note [simp] = ReadCall_WriteCall [OF ex_frames_ok ex_fits, where rest = "[]", simplified]
  have st: "dstep exEnc exDec srv s0 s1" using d_tag [of s0 0 1 d1 exEnc exDec srv q] by (simp add: simps)
  have st2: "dstep exEnc exDec srv s1 s2"
    using d_put [of s1 0 1 q d2 exEnc exDec srv] by (simp add: simps sendPut_def putCall_def)
  have st3: "dstep exEnc exDec srv s2 s3"
    using d_write [of s2 0 1 q exEnc exDec srv] ex_fits [OF len(1)] by (simp add: simps)
  have st4: "dstep exEnc exDec srv s3 s4"
    using d_srv_read [of exDec s3 "\<lparr>mTag = 1, mData = q, mOk = True\<rparr>" "[]" exEnc srv] len(1) by (simp add: simps)
  have st5: "dstep exEnc exDec srv s4 s5" using d_run [of 1 q s4 srv st' rep True exEnc exDec] srv by (simp add: simps)
  have st6: "dstep exEnc exDec srv s5 s6"
    using d_answer [of 1 rep True s5 exEnc exDec srv] ex_fits [OF len(2)] by (simp add: simps)
  have st7: "dstep exEnc exDec srv s6 s7"
    using d_reply [of s6 exDec "\<lparr>mTag = 1, mData = rep, mOk = True\<rparr>" "[]" d1 0 1 q exEnc srv] len(2)
    by (simp add: simps replyTo_def removeCall_def)
  have "dreach exEnc exDec srv s3" by (rule dr_step [OF dr_step [OF dr_step [OF _ st] st2] st3]) (simp add: s0_def dr_init)
  note r3 = this and r7 = dr_step [OF dr_step [OF dr_step [OF dr_step [OF this st4] st5] st6] st7]
  show "\<exists>s. dreach exEnc exDec srv s \<and> issued s = 2 \<and> conn s \<and> callers s 0 = Waiting 1 q"
    by (rule exI [of _ s3], intro conjI, rule r3) (simp_all add: simps)
  show "\<exists>s. dreach exEnc exDec srv s \<and> issued s = 2 \<and> rdr s = Reading \<and>
      callers s 0 = Returned 1 q \<lparr>drep = rep, dok = True, derr = False\<rparr>"
    by (rule exI [of _ s7], intro conjI, rule r7) (simp_all add: simps)
qed

definition exSrv :: "string \<Rightarrow> nat \<Rightarrow> (nat \<times> string \<times> bool) option" where
  "exSrv b n = Some (Suc n, rev b, True)"

lemma exSrv_ab: "exSrv ''ab'' 0 = Some (1, ''ba'', True)"
  by (simp add: exSrv_def)

theorem demux_matches_witness:
  "\<exists>s. dreach exEnc exDec exSrv s \<and> issued s = 2 \<and> (1, ''ab'', ''ba'', True) \<in> set (served s)"
proof -
  obtain s where s: "dreach exEnc exDec exSrv s" "issued s = 2"
    "callers s 0 = Returned 1 ''ab'' \<lparr>drep = ''ba'', dok = True, derr = False\<rparr>"
    using ex_run(2) [where srv = exSrv, OF exSrv_ab] by (simp, elim exE conjE) (rule that)
  have "issued s < 2 ^ 32" using s(2) by simp
  from demux_matches [OF s(1) ex_frames_ok this, THEN conjunct2, THEN conjunct2, THEN conjunct1, rule_format, OF s(3)] s(1,2)
  show ?thesis by (intro exI [of _ s]) simp
qed

theorem demux_no_call_hangs_witness:
  "\<exists>s rs as. dreach exEnc exDec exSrv s \<and> conn s \<and> callers s 0 = Waiting 1 ''ab'' \<and> stream exEnc True (c2s s) rs \<and> stream exEnc True (s2c s) as \<and>
     1 \<in> set (map fst rs @ map fst (running s) @ map fst (answers s) @ map fst as)"
proof -
  obtain s where s: "dreach exEnc exDec exSrv s" "issued s = 2" "conn s" "callers s 0 = Waiting 1 ''ab''"
    using ex_run(1) [where srv = exSrv, OF exSrv_ab] by (simp, elim exE conjE) (rule that)
  have "issued s < 2 ^ 32" using s(2) by simp
  from demux_no_call_hangs [OF s(1) ex_frames_ok this, THEN conjunct1, rule_format, OF conjI [OF s(3,4)]]
  obtain rs as where r: "stream exEnc True (c2s s) rs" "stream exEnc True (s2c s) as"
    "1 \<in> set (map fst rs @ map fst (running s) @ map fst (answers s) @ map fst as)" by (elim exE conjE) (rule that)
  show ?thesis by (intro exI conjI) (rule s(1,3,4) r)+
qed

definition exArgsEnc :: "RPCArgs \<Rightarrow> string" where
  "exArgsEnc a = replicate (length (Method a)) CHR ''1'' @ CHR ''0'' # Method a @ Args a"

definition exArgsDec :: "string \<Rightarrow> RPCArgs option" where
  "exArgsDec s = (let n = length (takeWhile (\<lambda>c. c = CHR ''1'') s); cs = drop (Suc n) s
     in Some \<lparr>Method = take n cs, Args = drop n cs\<rparr>)"

lemma ex_args: "exArgsDec (exArgsEnc a) = Some a"
proof -
  have "takeWhile (\<lambda>c. c = CHR ''1'') (replicate n CHR ''1'' @ CHR ''0'' # xs) = replicate n CHR ''1''" for n xs
    by (induction n) auto
  then show ?thesis by (simp add: exArgsDec_def exArgsEnc_def Let_def)
qed

text \<open>A server with a method \<open>Counter.Add\<close> that counts its calls.\<close>

definition exServer :: "nat Server" where
  "exServer = AddService (MakeService ''Counter''
     [\<lparr>mName = ''Add'', PkgPath = [], NumIn = 3, In2IsPtr = True, NumOut = 0, mFunc = (\<lambda>b n. Some (Suc n, b))\<rparr>]) (MakeServer 0)"


theorem demux_handshake_witness:
  "NewDemuxSrv exDec Some False (snd (NewDemuxClnt exEnc ''c1'') @ ''rest'') = Some (Some (\<lparr>dsClosed = False, dsClntEnd = ''c1''\<rparr>, ''rest''))"
  using demux_handshake [OF ex_frames_ok, of Some "''c1''" "''c1''"] ex_fits [of "''c1''"]
  by (cases "NewDemuxClnt exEnc ''c1''") simp

end
