(* ===== verification/Daemon.thy ===== *)
theory Daemon
  imports TesterGroup Demux
begin

text \<open>
  Servers in processes of their own: \<open>tester1/daemonclnt.go\<close>, the tester's side, \<open>tester1/daemonsrv.go\<close>, the
  process, and \<open>tester1/testsrv.go\<close>, which puts the calls of a process on the network of the test.
  The arguments of a process are a list of strings; a call over a socket (theory \<open>Demux\<close>) is a
  function that may fail. A panic is \<open>None\<close>.
\<close>

subsection \<open>The command line\<close>

text \<open>\<open>strconv.Atoi\<close>.\<close>

definition isDigit :: "char \<Rightarrow> bool" where
  "isDigit c \<longleftrightarrow> 48 \<le> (of_char c :: nat) \<and> (of_char c :: nat) \<le> 57"

definition Atoi :: "string \<Rightarrow> int option" where
  "Atoi s =
     (let (neg, ds) = (case s of [] \<Rightarrow> (False, []) | c # cs \<Rightarrow>
            if c = CHR ''-'' then (True, cs) else if c = CHR ''+'' then (False, cs) else (False, s));
          v = (if neg then - int (undigits ds) else int (undigits ds))
      in if ds = [] \<or> \<not> list_all isDigit ds \<or> v < - (2 ^ 63) \<or> 2 ^ 63 \<le> v then None else Some v)"

definition sockctl :: "string \<Rightarrow> string" where "sockctl sock = sock @ ''-ctl''"

definition options :: "bool \<Rightarrow> string list" where
  "options useRaftStateMachine = (if useRaftStateMachine then [''--raft-state-machine''] else [])"

definition runDaemonArgs :: "bool \<Rightarrow> string list \<Rightarrow> string \<Rightarrow> int \<Rightarrow> nat \<Rightarrow> string list \<Rightarrow> string list" where
  "runDaemonArgs opt pargs testerEnd gid srv eNames =
     pargs @ options opt @ [Itoa gid, Itoa (int srv), Itoa (int (length eNames)), testerEnd] @ eNames"

text \<open>The loop over the optional arguments: how many of them are skipped.\<close>

fun skipOptions :: "nat \<Rightarrow> string list \<Rightarrow> nat \<Rightarrow> nat option" where
  "skipOptions i [] s = Some s"
| "skipOptions i (a # as) s =
     (case a of [] \<Rightarrow> None | c # _ \<Rightarrow> if c = CHR ''-'' then skipOptions (Suc i) as (i + 1) else Some s)"

datatype dphase = AwaitPersister | Starting | Announce | Running

record 'b DaemonSrv =
  dEndName :: string
  dGid :: int
  dSid :: int
  dId :: "64 word"
  dTester :: string
  dPhase :: dphase
  dPersister :: "'b persister option"
  dServing :: bool
  dForwarding :: bool

text \<open>
  \<open>InitDaemon\<close> up to the point where it waits for the persister: \<open>Inl\<close> is the error of \<open>Atoi\<close>. A slice out of
  range and an end made twice end the process.
\<close>

definition InitDaemon ::
  "(nat \<Rightarrow> 'st Server) \<Rightarrow> string list \<Rightarrow> (string + 'b DaemonSrv \<times> 'st Network) option" where
  "InitDaemon heap args =
     do {
       s \<leftarrow> skipOptions 0 args 0;
       a0 \<leftarrow> goindex args (int s);
       (case Atoi a0 of None \<Rightarrow> Some (Inl a0) | Some gid \<Rightarrow> do {
         a1 \<leftarrow> goindex args (int s + 1);
         (case Atoi a1 of None \<Rightarrow> Some (Inl a1) | Some sid \<Rightarrow> do {
           a2 \<leftarrow> goindex args (int s + 2);
           (case Atoi a2 of None \<Rightarrow> Some (Inl a2) | Some nsrv \<Rightarrow> do {
             testerEndName \<leftarrow> goindex args (int s + 3);
             eNames \<leftarrow> (if 0 \<le> nsrv \<and> int s + 4 + nsrv \<le> int (length args)
               then Some (take (nat nsrv) (drop (s + 4) args)) else None);
             self \<leftarrow> goindex eNames sid;
             nw \<leftarrow> for_each eNames MakeEnd (MakeNetwork heap);
             Some (Inr (\<lparr>dEndName = self, dGid = gid, dSid = sid, dId = 0, dTester = testerEndName, dPhase = AwaitPersister,
               dPersister = None, dServing = False, dForwarding = True\<rparr>, nw))
           })
         })
       })
     }"

subsection \<open>Starting a process\<close>

text \<open>\<open>Init\<close> hands the persister to the main thread, which starts the services and then answers \<open>InitWait\<close>.\<close>

definition InitRPC :: "'b persister \<Rightarrow> 'b DaemonSrv \<Rightarrow> 'b DaemonSrv option" where
  "InitRPC p ds =
     (if dPhase ds = AwaitPersister
      then Some (ds\<lparr>dPersister := Some (Save (ReadRaftState p) (ReadSnapshot p) MakePersister), dPhase := Starting\<rparr>)
      else None)"

definition startServices :: "'b DaemonSrv \<Rightarrow> 'b DaemonSrv option" where
  "startServices ds = (if dPhase ds = Starting then Some (ds\<lparr>dServing := True, dPhase := Announce\<rparr>) else None)"

definition InitWaitRPC :: "'b DaemonSrv \<Rightarrow> 'b DaemonSrv option" where
  "InitWaitRPC ds = (if dPhase ds = Announce then Some (ds\<lparr>dPhase := Running\<rparr>) else None)"

text \<open>\<open>DaemonSrv.CheckpointPersister\<close>: the connections are closed before the state is read.\<close>

definition CheckpointPersisterRPC :: "'b DaemonSrv \<Rightarrow> ('b DaemonSrv \<times> 'b list \<times> 'b list) option" where
  "CheckpointPersisterRPC ds =
     do {
       p \<leftarrow> dPersister ds;
       let q = Checkpoint p;
       Some (ds\<lparr>dForwarding := False, dServing := False\<rparr>, ReadRaftState q, ReadSnapshot q)
     }"

definition StateSizeRPC :: "'b DaemonSrv \<Rightarrow> (nat \<times> nat) option" where
  "StateSizeRPC ds = do { p \<leftarrow> dPersister ds; Some (RaftStateSize p, SnapshotSize p) }"

text \<open>The tester's side: where its two calls \<open>init\<close> and \<open>waitInit\<close> are.\<close>

datatype tphase = TNew | TInit | TInitDone | TWait | TReady

inductive startStep :: "'b persister \<Rightarrow> tphase \<times> 'b DaemonSrv \<Rightarrow> tphase \<times> 'b DaemonSrv \<Rightarrow> bool" for p where
  st_init: "startStep p (TNew, ds) (TInit, ds)"
| st_taken: "InitRPC p ds = Some ds' \<Longrightarrow> startStep p (TInit, ds) (TInitDone, ds')"
| st_services: "startServices ds = Some ds' \<Longrightarrow> startStep p (t, ds) (t, ds')"
| st_wait: "startStep p (TInitDone, ds) (TWait, ds)"
| st_ready: "InitWaitRPC ds = Some ds' \<Longrightarrow> startStep p (TWait, ds) (TReady, ds')"

subsection \<open>Calls of a process to other servers\<close>

record ForwardArgs =
  fMethod :: string
  fEnd :: string
  fArgs :: string
  fId :: "64 word"

text \<open>\<open>ClientEnd.Forward\<close>: \<open>deliver\<close> is what the network makes of a request.\<close>

definition EndForward :: "(reqMsg \<Rightarrow> replyMsg) \<Rightarrow> string \<Rightarrow> string \<Rightarrow> string \<Rightarrow> string \<times> bool" where
  "EndForward deliver e meth args =
     (let rep = deliver \<lparr>endname = e, svcMeth = meth, rargs = args\<rparr> in (reply rep, ok rep))"

text \<open>\<open>TesterRPC.Forward\<close>\<close>

definition TesterForward :: "(reqMsg \<Rightarrow> replyMsg) \<Rightarrow> 'st Network \<Rightarrow> ForwardArgs \<Rightarrow> (string \<times> bool) option" where
  "TesterForward deliver rn args =
     do { e \<leftarrow> LookupEnd (fEnd args) rn; Some (EndForward deliver e (fMethod args) (fArgs args)) }"

text \<open>
  \<open>DaemonSrv.forward\<close>: \<open>rpc\<close> is \<open>RPCMarshall\<close> of \<open>TesterRPC.Forward\<close> on the socket, nothing when the call
  failed, as it does once \<open>CheckpointPersister\<close> has closed the connection.
\<close>

definition daemonForward ::
  "(ForwardArgs \<Rightarrow> (string \<times> bool) option) \<Rightarrow> string \<Rightarrow> string \<Rightarrow> string \<Rightarrow> 'b DaemonSrv \<Rightarrow> 'b DaemonSrv \<times> string \<times> bool" where
  "daemonForward rpc e meth b ds =
     (let ds' = ds\<lparr>dId := dId ds + 1\<rparr>; args = \<lparr>fMethod = meth, fEnd = e, fArgs = b, fId = dId ds'\<rparr>
      in case (if dForwarding ds then rpc args else None) of
           None \<Rightarrow> (ds', [], False)
         | Some (rep, okay) \<Rightarrow> (ds', rep, okay))"

subsection \<open>The process understands its command line\<close>

lemma digits_isDigit: "list_all isDigit (digits n)"
  using digits_chars by (auto simp: list_all_iff isDigit_def)

lemma digits_head: "digits n = c # cs \<Longrightarrow> c \<noteq> CHR ''-'' \<and> c \<noteq> CHR ''+''"
  using digits_chars [of c n] by force

lemma Atoi_Itoa:
  assumes "- (2 ^ 63) \<le> i" "i < 2 ^ 63"
  shows "Atoi (Itoa i) = Some i"
proof (cases "i < 0")
  case True
  then show ?thesis using assms digits_isDigit [of "nat (- i)"] by (simp add: Atoi_def Itoa_def undigits_digits)
next
  case False
  obtain c cs where d: "digits (nat i) = c # cs" using digits_nonempty [of "nat i"] by (cases "digits (nat i)") auto
  have "Atoi (digits (nat i)) = Some i"
    using False assms digits_isDigit [of "nat i"] digits_head [OF d] undigits_digits [of "nat i"] unfolding Atoi_def d by simp
  then show ?thesis using False by (simp add: Itoa_def)
qed

lemma skipOptions_append:
  assumes "\<forall>a \<in> set opts. \<exists>cs. a = CHR ''-'' # cs" "rest = (c # cs) # as" "c \<noteq> CHR ''-''" "s = i"
  shows "skipOptions i (opts @ rest) s = Some (i + length opts)"
  using assms
proof (induction opts arbitrary: i s)
  case (Cons a opts)
  then show ?case by (fastforce)
qed simp

lemma MakeEnd_loop:
  assumes "distinct es" "set es \<inter> ends nw = {}"
  shows "\<exists>nw'. for_each es MakeEnd nw = Some nw' \<and> ends nw' = ends nw \<union> set es"
  using assms
proof (induction es arbitrary: nw)
  case (Cons e es)
  let ?nw = "nw\<lparr>ends := insert e (ends nw), enabled := (enabled nw)(e \<mapsto> False), connections := (connections nw)(e \<mapsto> None)\<rparr>"
  have "MakeEnd e nw = Some ?nw" using Cons.prems by (simp add: MakeEnd_def)
  moreover have "\<exists>nw'. for_each es MakeEnd ?nw = Some nw' \<and> ends nw' = ends ?nw \<union> set es"
    by (rule Cons.IH) (use Cons.prems in auto)
  ultimately show ?case by auto
qed simp



subsection \<open>Both sides of a start\<close>

fun tRank :: "tphase \<Rightarrow> nat" where
  "tRank TNew = 0" | "tRank TInit = 1" | "tRank TInitDone = 2" | "tRank TWait = 3" | "tRank TReady = 4"

definition start_inv :: "'b persister \<Rightarrow> nat \<Rightarrow> tphase \<times> 'b DaemonSrv \<Rightarrow> bool" where
  "start_inv p n = (\<lambda>(t, ds). n = tRank t + (if dServing ds then 1 else 0) \<and>
     (case t of
        TReady \<Rightarrow> dPhase ds = Running \<and> dServing ds \<and> dPersister ds = Some (daemonInit p)
      | TNew \<Rightarrow> dPhase ds = AwaitPersister \<and> \<not> dServing ds
      | TInit \<Rightarrow> dPhase ds = AwaitPersister \<and> \<not> dServing ds
      | _ \<Rightarrow> (dPhase ds = Starting \<and> \<not> dServing ds \<or> dPhase ds = Announce \<and> dServing ds) \<and> dPersister ds = Some (daemonInit p)))"

lemma start_inv_step:
  assumes "startStep p x y" "start_inv p n x"
  shows "start_inv p (Suc n) y"
  using assms
  by cases (auto simp: start_inv_def InitRPC_def startServices_def InitWaitRPC_def daemonInit_def split: if_splits tphase.splits)

lemma start_inv_progress: "start_inv p n (t, ds) \<Longrightarrow> t \<noteq> TReady \<Longrightarrow> \<exists>y. startStep p (t, ds) y"
proof (cases t)
  case TInit
  assume "start_inv p n (t, ds)"
  then obtain ds' where "InitRPC p ds = Some ds'" using TInit by (auto simp: start_inv_def InitRPC_def)
  then show ?thesis using TInit st_taken by blast
next
  case TWait
  assume "start_inv p n (t, ds)"
  then consider "dPhase ds = Starting" | "dPhase ds = Announce" using TWait by (auto simp: start_inv_def)
  then show ?thesis
  proof cases
    case 1
    then obtain ds' where "startServices ds = Some ds'" by (auto simp: startServices_def)
    then show ?thesis using st_services by blast
  next
    case 2
    then obtain ds' where "InitWaitRPC ds = Some ds'" by (auto simp: InitWaitRPC_def)
    then show ?thesis using TWait st_ready by blast
  qed
qed (auto intro: st_init st_wait)


definition exDaemon :: "nat DaemonSrv" where
  "exDaemon = \<lparr>dEndName = ''b'', dGid = 100, dSid = 1, dId = 0, dTester = ''tester'', dPhase = AwaitPersister,
     dPersister = None, dServing = False, dForwarding = True\<rparr>"


subsection \<open>Calls through the tester\<close>



end
