(* ===== verification/Config.thy ===== *)
theory Config
  imports TesterGroup Annotation "HOL-Library.Multiset"
begin

text \<open>
  One test's configuration: \<open>tester1/config.go\<close>. It owns the network, the groups and the clients
  of the test; time is an argument in nanoseconds, what is printed is a result.
\<close>

record 'b Config =
  cfgGroups :: "'b Groups"
  cfgClnts :: Clnts
  start :: int
  t0 :: int
  rpcs0 :: int
  cfgOps :: "32 word"
  failed :: bool

definition GRP0 :: int where "GRP0 = 0"

definition MakeConfig ::
  "int \<Rightarrow> (nat \<Rightarrow> string list) \<Rightarrow> (nat \<Rightarrow> 'st launch) \<Rightarrow> nat \<Rightarrow> bool \<Rightarrow> (nat \<Rightarrow> 'st Server) \<Rightarrow> ('b Config \<times> 'st Network) option" where
  "MakeConfig now rs ls n rel heap =
     do {
       (gs, nw) \<leftarrow> MakeGroupStart rs ls GRP0 n (Map.empty, MakeNetwork heap);
       Some (\<lparr>cfgGroups = gs, cfgClnts = [], start = now, t0 = 0, rpcs0 = 0, cfgOps = 0, failed = False\<rparr>, Reliable rel nw)
     }"

definition SetReliable :: "bool \<Rightarrow> 'st Network \<Rightarrow> 'st Network" where "SetReliable = Reliable"
definition SetLongReordering :: "bool \<Rightarrow> 'st Network \<Rightarrow> 'st Network" where "SetLongReordering = LongReordering"
definition SetLongDelays :: "bool \<Rightarrow> 'st Network \<Rightarrow> 'st Network" where "SetLongDelays = LongDelays"
definition IsReliableC :: "'st Network \<Rightarrow> bool" where "IsReliableC = IsReliable"
definition Group :: "int \<Rightarrow> 'b Config \<Rightarrow> 'b ServerGrp option" where "Group gid cfg = lookupGroup gid (cfgGroups cfg)"
definition RpcTotal :: "'st Network \<Rightarrow> int" where "RpcTotal = GetTotalCount"
definition BytesTotal :: "'st Network \<Rightarrow> 64 word" where "BytesTotal = GetTotalBytes"

definition Begin :: "int \<Rightarrow> 'st Network \<Rightarrow> 'b Config \<Rightarrow> 'b Config" where
  "Begin now nw cfg = cfg\<lparr>t0 := now, rpcs0 := RpcTotal nw, cfgOps := 0\<rparr>"

definition CheckTimeout :: "int \<Rightarrow> 'b Config \<Rightarrow> 'b Config" where
  "CheckTimeout now cfg = (if \<not> failed cfg \<and> now - start cfg > 120 * 10 ^ 9 then cfg\<lparr>failed := True\<rparr> else cfg)"

record report =
  time :: int
  npeers :: nat
  nrpc :: int
  nops :: int

definition EndTest :: "int \<Rightarrow> 'st Network \<Rightarrow> 'b Config \<Rightarrow> ('b Config \<times> report option) option" where
  "EndTest now nw cfg =
     (let cfg' = CheckTimeout now cfg
      in if failed cfg' then Some (cfg', None)
         else do {
           sg \<leftarrow> Group GRP0 cfg';
           Some (cfg', Some \<lparr>time = now - t0 cfg', npeers = N sg, nrpc = RpcTotal nw - rpcs0 cfg', nops = sint (cfgOps cfg')\<rparr>)
         })"

text \<open>\<open>Cleanup\<close>: the clients, the groups, the network, and the annotations of the test.\<close>

definition Cleanup ::
  "int list \<Rightarrow> string \<Rightarrow> int \<Rightarrow> int \<Rightarrow> string list \<Rightarrow> 'b Config \<times> 'st Network \<times> annState
    \<Rightarrow> (('b Config \<times> 'st Network \<times> annState) \<times> pAnnotation list option) option" where
  "Cleanup gids visEnable t t' tags = (\<lambda>(cfg, nw, an). do {
     (cs, nw1) \<leftarrow> cleanupClnts (cfgClnts cfg, nw);
     (gs, nw2) \<leftarrow> cleanupGroups gids (cfgGroups cfg, nw1);
     let (an', vis) = cleanup visEnable t t' tags (failed cfg) (if failed cfg then ''test failed'' else ''test passed'') an;
     Some ((cfg\<lparr>cfgClnts := cs, cfgGroups := gs\<rparr>, nw2, an'), vis)
   })"

text \<open>\<open>random_handles\<close>: \<open>r i\<close> is \<open>rand.Intn(i + 1)\<close>.\<close>

definition random_handles :: "(nat \<Rightarrow> nat) \<Rightarrow> 'a list \<Rightarrow> 'a list" where
  "random_handles r kvh = foldl (\<lambda>sa i. sa[i := sa ! r i, r i := sa ! i]) kvh [0..<length kvh]"

subsection \<open>A new test has a group that is up\<close>

lemma ServerName_inject [simp]: "ServerName gid i = ServerName gid j \<longleftrightarrow> i = j"
  by (simp add: ServerName_def Itoa_inject)

lemma StartServer_frame:
  fixes sg :: "'b ServerGrp"
  assumes "StartServer l i (sg, nw) = Some ((sg', nw'), b)"
  shows "ends nw' \<subseteq> ends nw \<union> set (rand l)" "ggid sg' = ggid sg" "reliable nw' = reliable nw"
    "\<And>name. name \<noteq> ServerName (ggid sg) i \<Longrightarrow> serverOf nw' name = serverOf nw name"
proof -
  obtain s srv nw1 sv where a: "goindex (gsrvs sg) (int i) = Some s" "startServer (rand l) (ggid sg) s nw = Some (srv, nw1)"
    "gostore (gsrvs sg) (int i) srv = Some sv" using assms by (auto simp: StartServer_def split: bind_splits prod.splits)
  have "ggid sg' = ggid sg \<and> (\<exists>h. nw' = nw1 \<or> nw' = AddServer (ServerName (ggid sg) i) (addr l) (nw1\<lparr>srvs := h\<rparr>))"
    using assms a by (auto simp: StartServer_def Let_def split: bind_splits if_splits)
  then obtain h where ss: "startServer (rand l) (ggid sg) s nw = Some (srv, nw1)" "ggid sg' = ggid sg"
    "nw' = nw1 \<or> nw' = AddServer (ServerName (ggid sg) i) (addr l) (nw1\<lparr>srvs := h\<rparr>)" using a(2) by blast
  from ss(3) have s3: "ends nw' = ends nw1" "reliable nw' = reliable nw1"
    "\<And>name. name \<noteq> ServerName (ggid sg) i \<Longrightarrow> serverOf nw' name = serverOf nw1 name" by (auto simp: AddServer_def serverOf_def)
  define k where "k = (case endNames s of None \<Rightarrow> 0 | Some es \<Rightarrow> length es)"
  obtain srv' :: "'b tServer" where mk: "makeServer (rand l) (ggid sg) k nw = Some (srv', nw1)"
    using ss(1) by (auto simp: startServer_def k_def split: bind_splits)
  obtain nw2 where "for_each [0..<k] (\<lambda>j nw. do { e \<leftarrow> goindex (rand l) (int j); nw1 \<leftarrow> MakeEnd e nw; Some (Connect e (ServerName (ggid sg) j) nw1) }) nw = Some nw2"
    "nw1 = nw2" using mk by (auto simp: makeServer_def split: bind_splits)
  then have f: "fresh_ends (take k (rand l)) (ggid sg) nw nw1" using makeServer_loop by blast
  then have "ends nw1 \<subseteq> ends nw \<union> set (rand l)" "reliable nw1 = reliable nw" "\<And>name. serverOf nw1 name = serverOf nw name"
    using set_take_subset [of k "rand l"] by (auto simp: fresh_ends_def serverOf_def)
  then show "ends nw' \<subseteq> ends nw \<union> set (rand l)" "ggid sg' = ggid sg" "reliable nw' = reliable nw"
    "\<And>name. name \<noteq> ServerName (ggid sg) i \<Longrightarrow> serverOf nw' name = serverOf nw name" using s3 ss(2) by simp_all
qed

text \<open>Starting the servers of a sound group one after the other.\<close>

definition fresh_launches :: "(nat \<Rightarrow> 'st launch) \<Rightarrow> nat \<Rightarrow> string set \<Rightarrow> bool" where
  "fresh_launches ls n E \<longleftrightarrow>
     (\<forall>i < n. starts (ls i) \<and> distinct (rand (ls i)) \<and> n \<le> length (rand (ls i)) \<and> set (rand (ls i)) \<inter> E = {}) \<and>
     (\<forall>i < n. \<forall>j < i. set (rand (ls i)) \<inter> set (rand (ls j)) = {})"

lemma fresh_launches_mono:
  assumes "fresh_launches ls n E" "F \<subseteq> E"
  shows "fresh_launches ls n F"
proof -
  have "A \<inter> F = {}" if "A \<inter> E = {}" for A using that assms(2) by fast
  then show ?thesis using assms(1) by (simp add: fresh_launches_def)
qed

lemma StartSrvs_spec:
  fixes sg :: "'b ServerGrp"
  assumes g: "grp_net (sg, nw)" "N sg = n" and f: "fresh_launches ls n (ends nw)" and l: "\<forall>i < n. \<forall>j < n. \<not> link sg nw i j"
    and k: "k \<le> n"
  shows "\<exists>sg' nw'. StartSrvs ls [0..<k] (sg, nw) = Some (sg', nw') \<and> grp_net (sg', nw') \<and> N sg' = n \<and> ggid sg' = ggid sg \<and>
    connected sg' = connected sg \<and> (\<forall>i < n. \<forall>j < n. \<not> link sg' nw' i j) \<and> reliable nw' = reliable nw \<and>
    ends nw' \<subseteq> ends nw \<union> (\<Union>i < k. set (rand (ls i))) \<and>
    (\<forall>i < k. serverOf nw' (ServerName (ggid sg) i) = Some (addr (ls i)))"
  using k
proof (induction k)
  case 0
  then show ?case using g l by (simp add: StartSrvs_def)
next
  case (Suc k)
  then obtain sg1 :: "'b ServerGrp" and nw1 where 1: "StartSrvs ls [0..<k] (sg, nw) = Some (sg1, nw1)" "grp_net (sg1, nw1)" "N sg1 = n"
    "ggid sg1 = ggid sg" "connected sg1 = connected sg" "\<forall>i < n. \<forall>j < n. \<not> link sg1 nw1 i j" "reliable nw1 = reliable nw"
    "ends nw1 \<subseteq> ends nw \<union> (\<Union>i < k. set (rand (ls i)))" "\<forall>i < k. serverOf nw1 (ServerName (ggid sg) i) = Some (addr (ls i))"
    by auto
  have kn: "k < N sg1" using Suc.prems 1(3) by simp
  have a: "starts (ls k)" "distinct (rand (ls k))" "N sg1 \<le> length (rand (ls k))" using f kn 1(3) by (auto simp: fresh_launches_def)
  have "\<forall>j < k. set (rand (ls k)) \<inter> set (rand (ls j)) = {}" "set (rand (ls k)) \<inter> ends nw = {}"
    using f kn unfolding fresh_launches_def 1(3) by simp_all
  then have d: "set (rand (ls k)) \<inter> ends nw1 = {}" using 1(8) by fast
  obtain sg2 :: "'b ServerGrp" and nw2 where 2: "StartServer (ls k) k (sg1, nw1) = Some ((sg2, nw2), True)" "grp_net (sg2, nw2)" "N sg2 = N sg1"
    "connected sg2 = connected sg1" "serverOf nw2 (ServerName (ggid sg1) k) = Some (addr (ls k))"
    "\<forall>b < N sg1. \<not> link sg2 nw2 k b" "\<forall>a < N sg1. \<forall>b < N sg1. a \<noteq> k \<longrightarrow> link sg2 nw2 a b = link sg1 nw1 a b"
    using StartServer_spec [OF 1(2) kn a d] by blast
  note fr = StartServer_frame [OF 2(1)]
  have "StartSrvs ls [0..<Suc k] (sg, nw) = Some (sg2, nw2)"
    using 1(1) 2(1) by (simp add: StartSrvs_def for_each_append)
  moreover have "\<not> link sg2 nw2 i j" if "i < n" "j < n" for i j using 2(6,7) 1(3,6) that by (cases "i = k") auto
  moreover have "serverOf nw2 (ServerName (ggid sg) i) = Some (addr (ls i))" if "i < Suc k" for i
    using 1(4,9) 2(5) fr(4) [of "ServerName (ggid sg) i"] that by (cases "i = k") (auto simp: less_Suc_eq)
  moreover have "ends nw2 \<subseteq> ends nw \<union> (\<Union>i < Suc k. set (rand (ls i)))"
    using fr(1) 1(8) by (auto simp: lessThan_Suc)
  ultimately show ?case using 2(2-4) 1(3-5,7) fr(2,3) by (intro exI [of _ sg2] exI [of _ nw2]) simp
qed

lemma ConnectAll_spec:
  assumes ok: "grp_ok sg" and n: "N sg = n" and c: "connected sg = replicate n False" and l: "\<forall>i < n. \<forall>j < n. \<not> link sg nw i j"
    and k: "k \<le> n"
  shows "\<exists>sg' nw'. for_each [0..<k] ConnectOne (sg, nw) = Some (sg', nw') \<and> grp_ok sg' \<and> moved (sg, nw) (sg', nw') \<and>
    (\<forall>i < n. connected sg' ! i \<longleftrightarrow> i < k) \<and> (\<forall>i < n. \<forall>j < n. link sg' nw' i j \<longleftrightarrow> i < k \<and> j < k)"
  using k
proof (induction k)
  case 0
  then show ?case using ok c l by (simp add: moved_refl)
next
  case (Suc k)
  then obtain sg1 nw1 where 1: "for_each [0..<k] ConnectOne (sg, nw) = Some (sg1, nw1)" "grp_ok sg1" "moved (sg, nw) (sg1, nw1)"
    "\<forall>i < n. connected sg1 ! i \<longleftrightarrow> i < k" "\<forall>i < n. \<forall>j < n. link sg1 nw1 i j \<longleftrightarrow> i < k \<and> j < k" by auto
  have len: "length (gsrvs sg1) = n" using n moved_same(1) [OF 1(3)] by (simp add: N_def)
  have "k < length (gsrvs sg1)" "set (all sg1) \<subseteq> {..<length (gsrvs sg1)}" using Suc.prems len by (auto simp: all_def)
  from connect_link [OF 1(2) this, of nw1] obtain sg2 nw2 where 2: "connect k (all sg1) (sg1, nw1) = Some (sg2, nw2)" "grp_ok sg2"
    "moved (sg1, nw1) (sg2, nw2)" "connected sg2 = (connected sg1)[k := True]"
    "\<forall>a < length (gsrvs sg1). \<forall>b < length (gsrvs sg1). link sg2 nw2 a b \<longleftrightarrow>
       link sg1 nw1 a b \<or> a = k \<and> b \<in> set (all sg1) \<and> connected sg2 ! b \<or> b = k \<and> a \<in> set (all sg1) \<and> connected sg2 ! a" by blast
  have lc: "length (connected sg1) = n" using grp_okD(1) [OF 1(2)] len by simp
  have con: "connected sg2 ! i \<longleftrightarrow> i < Suc k" if "i < n" for i
    using 2(4) 1(4) that lc by (cases "i = k") auto
  have "link sg2 nw2 i j \<longleftrightarrow> i < Suc k \<and> j < Suc k" if "i < n" "j < n" for i j
    using 2(5) 1(5) con that len by (auto simp: all_def less_Suc_eq)
  moreover have "ConnectOne k (sg1, nw1) = Some (sg2, nw2)" using 2(1) by (simp add: ConnectOne_def)
  ultimately show ?case using 1(1) 2(2) moved_trans [OF 1(3) 2(3)] con
    by (intro exI [of _ sg2] exI [of _ nw2]) (simp add: for_each_append)
qed

lemma makeSrvGrp_total:
  assumes "\<forall>i < n. distinct (rs i) \<and> n \<le> length (rs i) \<and> set (rs i) \<inter> ends nw = {}"
    and "\<forall>i < n. \<forall>j < i. set (rs i) \<inter> set (rs j) = {}"
  shows "\<exists>(sg :: 'b ServerGrp) nw'. makeSrvGrp rs gid n nw = Some (sg, nw') \<and> ggid sg = gid \<and> connected sg = replicate n False \<and>
    reliable nw' = reliable nw \<and> ends nw' \<subseteq> ends nw \<union> (\<Union>i < n. set (rs i))"
proof -
  let ?step = "\<lambda>i (ss, nw). do { (s, nw1) \<leftarrow> makeServer (rs i) gid n nw; Some (ss @ [s :: 'b tServer], nw1) }"
  have "\<exists>ss nw'. for_each [0..<k] ?step ([], nw) = Some (ss, nw') \<and> reliable nw' = reliable nw \<and>
      ends nw' \<subseteq> ends nw \<union> (\<Union>i < k. set (rs i))" if "k \<le> n" for k using that
  proof (induction k)
    case (Suc k)
    then obtain ss nw1 where 1: "for_each [0..<k] ?step ([], nw) = Some (ss, nw1)" "reliable nw1 = reliable nw"
      "ends nw1 \<subseteq> ends nw \<union> (\<Union>i < k. set (rs i))" by auto
    have "\<forall>j < k. set (rs k) \<inter> set (rs j) = {}" "set (rs k) \<inter> ends nw = {}" using assms Suc.prems by simp_all
    then have "set (rs k) \<inter> ends nw1 = {}" using 1(3) by fast
    then obtain s :: "'b tServer" and nw2 where 2: "makeServer (rs k) gid n nw1 = Some (s, nw2)"
      using makeServer_total [of "rs k" n nw1 gid] assms(1) Suc.prems by auto
    then obtain nw3 where "for_each [0..<n] (\<lambda>j nw. do { e \<leftarrow> goindex (rs k) (int j); nw1 \<leftarrow> MakeEnd e nw; Some (Connect e (ServerName gid j) nw1) }) nw1 = Some nw3"
      "nw2 = nw3" by (auto simp: makeServer_def split: bind_splits)
    then have "fresh_ends (take n (rs k)) gid nw1 nw2" using makeServer_loop by blast
    then have "reliable nw2 = reliable nw1" "ends nw2 \<subseteq> ends nw1 \<union> set (rs k)"
      using set_take_subset [of n "rs k"] by (auto simp: fresh_ends_def)
    then show ?case using 1 2 by (auto simp: for_each_append lessThan_Suc)
  qed simp
  from this [of n] show ?thesis by (fastforce simp: makeSrvGrp_def)
qed

text \<open>
  C37. A new configuration has a group that is up: unless the random end names clash, \<open>MakeConfig\<close> succeeds, and
  on a reliable network every request that a server sends on its end to any server of the group is handed to
  that server; the network is as reliable as was asked for, and no test has failed.
\<close>

theorem MakeConfig_group_up:
  assumes "\<forall>i < n. distinct (rs i) \<and> n \<le> length (rs i)" "\<forall>i < n. \<forall>j < i. set (rs i) \<inter> set (rs j) = {}"
    and "fresh_launches ls n (\<Union>i < n. set (rs i))"
  shows "\<exists>(cfg :: 'b Config) nw sg. MakeConfig now rs ls n rel heap = Some (cfg, nw) \<and> Group GRP0 cfg = Some sg \<and> N sg = n \<and>
    IsReliableC nw = rel \<and> \<not> failed cfg \<and>
    (\<forall>a < n. \<forall>b < n. link sg nw a b \<and> (rel \<longrightarrow> (\<forall>roll req. endname req = endN sg a b \<longrightarrow>
       processStart roll req nw = RunHandler (ServerName GRP0 b) (addr (ls b)) True (longReordering nw))))"
proof -
  let ?nw = "MakeNetwork heap"
  have e: "ends ?nw = {}" by (simp add: MakeNetwork_def)
  obtain sg :: "'b ServerGrp" and nw where m: "makeSrvGrp rs GRP0 n ?nw = Some (sg, nw)" "ggid sg = GRP0" "connected sg = replicate n False"
    "ends nw \<subseteq> (\<Union>i < n. set (rs i))"
    using makeSrvGrp_total [of n rs ?nw GRP0] assms(1,2) e by auto
  have g: "grp_net (sg, nw)" "N sg = n" "\<forall>i < n. \<forall>j < n. \<not> link sg nw i j" using makeSrvGrp_net [OF m(1)] by auto
  have fr: "fresh_launches ls n (ends nw)" by (rule fresh_launches_mono [OF assms(3) m(4)])
  obtain sg1 :: "'b ServerGrp" and nw1 where 1: "StartSrvs ls [0..<n] (sg, nw) = Some (sg1, nw1)" "grp_net (sg1, nw1)" "N sg1 = n"
    "ggid sg1 = GRP0" "connected sg1 = replicate n False" "\<forall>i < n. \<forall>j < n. \<not> link sg1 nw1 i j"
    "\<forall>i < n. serverOf nw1 (ServerName GRP0 i) = Some (addr (ls i))"
    using StartSrvs_spec [OF g(1,2) fr g(3) order_refl] unfolding m(2,3) by (elim exE conjE) (rule that)
  have "grp_ok sg1" using 1(2) by (simp add: grp_net_def)
  from ConnectAll_spec [OF this 1(3,5,6) order_refl] obtain sg2 nw2 where 2: "for_each [0..<n] ConnectOne (sg1, nw1) = Some (sg2, nw2)"
    "grp_ok sg2" "moved (sg1, nw1) (sg2, nw2)" "\<forall>i < n. \<forall>j < n. link sg2 nw2 i j" by auto
  note same = moved_same [OF 2(3)]
  have al: "all sg = [0..<n]" "all sg1 = [0..<n]" using g(2) 1(3) by (simp_all add: all_def N_def)
  let ?cfg = "\<lparr>cfgGroups = [GRP0 \<mapsto> sg2], cfgClnts = [], start = now, t0 = 0, rpcs0 = 0, cfgOps = 0, failed = False\<rparr>"
  have "MakeConfig now rs ls n rel heap = Some (?cfg, Reliable rel nw2)"
    using m(1) 1(1) 2(1) al
    by (simp add: MakeConfig_def MakeGroupStart_def MakeGroup_def lookupGroup_def StartServers_def ConnectAll_def)
  moreover have gn: "grp_net (sg2, nw2)" using moved_grp_net [OF 1(2) 2(3,2)] .
  have "link sg2 (Reliable rel nw2) a b \<and> (rel \<longrightarrow> (\<forall>roll req. endname req = endN sg2 a b \<longrightarrow>
       processStart roll req (Reliable rel nw2) = RunHandler (ServerName GRP0 b) (addr (ls b)) True (longReordering (Reliable rel nw2))))"
    if "a < n" "b < n" for a b
  proof -
    have "isEnabled (Reliable rel nw2) (endN sg2 a b)" using 2(4) that by (simp add: link_def Reliable_def isEnabled_def)
    moreover have "connections nw2 (endN sg2 a b) = Some (Some (ServerName GRP0 b))"
      using gn that 1(3,4) same by (simp add: grp_net_def N_def)
    moreover have "serverOf nw2 (ServerName GRP0 b) = Some (addr (ls b))" using 1(7) that same by (simp add: serverOf_def)
    ultimately show ?thesis
      by (auto simp: link_def processStart_def readEndnameInfo_def Reliable_def serverOf_def)
  qed
  ultimately show ?thesis using 1(3) same
    by (intro exI [of _ ?cfg] exI [of _ "Reliable rel nw2"] exI [of _ sg2])
      (simp add: Group_def lookupGroup_def N_def IsReliableC_def IsReliable_def Reliable_def)
qed

definition exNames :: "nat \<Rightarrow> string list" where
  "exNames i = (if i = 0 then [''r0'', ''r1''] else [''s0'', ''s1''])"

definition exLaunch :: "nat \<Rightarrow> nat launch" where
  "exLaunch i = \<lparr>rand = (if i = 0 then [''t0'', ''t1''] else [''u0'', ''u1'']), starts = True, addr = i, app0 = 0,
     forward = (\<lambda>_ _ st. (st, [], False))\<rparr>"

theorem MakeConfig_group_up_witness:
  "\<exists>(cfg :: nat Config) nw sg. MakeConfig 0 exNames exLaunch 2 True (\<lambda>_. MakeServer 0) = Some (cfg, nw) \<and>
    Group GRP0 cfg = Some sg \<and> link sg nw 0 1 \<and>
    processStart 7 \<lparr>endname = endN sg 0 1, svcMeth = ''A.B'', rargs = []\<rparr> nw =
      RunHandler (ServerName GRP0 1) 1 True (longReordering nw)"
proof -
  have u: "{..<2 :: nat} = {0, 1}" by auto
  have a: "\<forall>i < 2. distinct (exNames i) \<and> 2 \<le> length (exNames i)" "\<forall>i < 2. \<forall>j < i. set (exNames i) \<inter> set (exNames j) = {}"
    by (simp_all add: exNames_def less_2_cases_iff)
  have f: "fresh_launches exLaunch 2 (\<Union>i < 2. set (exNames i))"
    unfolding u fresh_launches_def by (simp add: exNames_def exLaunch_def less_2_cases_iff)
  from MakeConfig_group_up [OF a f, of 0 True "\<lambda>_. MakeServer 0", where 'b = nat]
  obtain cfg :: "nat Config" and nw sg where c: "MakeConfig 0 exNames exLaunch 2 True (\<lambda>_. MakeServer 0) = Some (cfg, nw)" "Group GRP0 cfg = Some sg"
    "\<forall>a < 2. \<forall>b < 2. link sg nw a b \<and> (True \<longrightarrow> (\<forall>roll req. endname req = endN sg a b \<longrightarrow>
       processStart roll req nw = RunHandler (ServerName GRP0 b) (addr (exLaunch b)) True (longReordering nw)))" by (elim exE conjE) (rule that)
  have "0 < (2 :: nat)" "1 < (2 :: nat)" by simp_all
  from c(3) [rule_format, OF this] have "link sg nw 0 1" "processStart 7 \<lparr>endname = endN sg 0 1, svcMeth = ''A.B'', rargs = []\<rparr> nw =
      RunHandler (ServerName GRP0 1) 1 True (longReordering nw)" by (simp_all add: exLaunch_def)
  then show ?thesis using c(1,2) by blast
qed

text \<open>The random order of server handles loses and repeats none.\<close>

lemma random_handles_permutes:
  assumes "\<forall>i < length kvh. r i \<le> i"
  shows "mset (random_handles r kvh) = mset kvh"
proof -
  have "mset (foldl (\<lambda>sa i. sa[i := sa ! r i, r i := sa ! i]) kvh [0..<k]) = mset kvh \<and>
      length (foldl (\<lambda>sa i. sa[i := sa ! r i, r i := sa ! i]) kvh [0..<k]) = length kvh" if "k \<le> length kvh" for k
    using that
  proof (induction k)
    case (Suc k)
    let ?sa = "foldl (\<lambda>sa i. sa[i := sa ! r i, r i := sa ! i]) kvh [0..<k]"
    have "r k \<le> k" using Suc.prems assms by simp
    then have "r k < length ?sa" "k < length ?sa" using Suc by simp_all
    then have "mset (?sa[k := ?sa ! r k, r k := ?sa ! k]) = mset ?sa" by (rule mset_swap)
    then show ?case using Suc by simp
  qed simp
  from this [of "length kvh"] show ?thesis by (simp add: random_handles_def)
qed

text \<open>A test that runs out of time reports nothing and is cleaned up as a failed one.\<close>

lemma late_test_fails:
  assumes "now - start cfg > 120 * 10 ^ 9"
  shows "\<exists>cfg'. EndTest now nw cfg = Some (cfg', None) \<and> failed cfg'"
  using assms by (cases "failed cfg") (simp_all add: EndTest_def CheckTimeout_def Let_def)

end
