(* ===== verification/Rsm.thy ===== *)
theory Rsm
  imports KvSrv Persister
begin

text \<open>
  The contract of a replicated service, \<open>StateMachine\<close> of \<open>kvraft1/rsm/rsm.go\<close>, the counter that is tested with it
  (\<open>kvraft1/rsm/server.go\<close>), and the tester's side, \<open>kvraft1/rsm/test.go\<close>. \<open>DoOp\<close> runs the requests one at a time;
  \<open>log.Fatalf\<close> and a failed type assertion are \<open>None\<close>.
\<close>

subsection \<open>The contract\<close>

fun runOps :: "('req \<Rightarrow> 's \<Rightarrow> ('s \<times> 'rep) option) \<Rightarrow> 'req list \<Rightarrow> 's \<Rightarrow> ('s \<times> 'rep list) option" where
  "runOps f [] s = Some (s, [])"
| "runOps f (r # rs) s =
     do { (s1, rep) \<leftarrow> f r s; (s2, reps) \<leftarrow> runOps f rs s1; Some (s2, rep # reps) }"

lemma runOps_append:
  "runOps f (xs @ ys) s =
     do { (s1, as) \<leftarrow> runOps f xs s; (s2, bs) \<leftarrow> runOps f ys s1; Some (s2, as @ bs) }"
proof (induction xs arbitrary: s)
  case Nil
  then show ?case by (cases "runOps f ys s") auto
next
  case (Cons x xs)
  then show ?case by (cases "f x s") (auto split: bind_splits)
qed

lemma runOps_length: "runOps f rs s = Some (s', reps) \<Longrightarrow> length reps = length rs"
  by (induction rs arbitrary: s reps) (auto split: bind_splits)

text \<open>
  What \<open>MakeRSM\<close> asks of a service: an operation depends only on the replicated part \<open>abs\<close> of the state, and restoring a
  snapshot, on any server, gives the replicated part it was taken of.
\<close>

locale state_machine =
  fixes doOp :: "'req \<Rightarrow> 's \<Rightarrow> ('s \<times> 'rep) option"
    and snap :: "'s \<Rightarrow> 'd"
    and restore :: "'d \<Rightarrow> 's \<Rightarrow> 's option"
    and abs :: "'s \<Rightarrow> 'a"
  assumes doOp_abs: "abs s = abs t \<Longrightarrow> doOp r s = Some (s', rep) \<Longrightarrow> \<exists>t'. doOp r t = Some (t', rep) \<and> abs t' = abs s'"
    and restore_snap: "\<exists>u. restore (snap s) t = Some u \<and> abs u = abs s"
begin

lemma run_abs:
  "abs s = abs t \<Longrightarrow> runOps doOp rs s = Some (s', reps) \<Longrightarrow> \<exists>t'. runOps doOp rs t = Some (t', reps) \<and> abs t' = abs s'"
proof (induction rs arbitrary: s t reps)
  case (Cons r rs)
  obtain s1 rep reps' where s: "doOp r s = Some (s1, rep)" "runOps doOp rs s1 = Some (s', reps')" "reps = rep # reps'"
    using Cons.prems(2) by (auto split: bind_splits)
  obtain t1 where t: "doOp r t = Some (t1, rep)" "abs t1 = abs s1" using doOp_abs [OF Cons.prems(1) s(1)] by blast
  show ?case using Cons.IH [OF t(2) [symmetric] s(2)] t(1) s(3) by auto
qed simp

lemma catch_up:
  assumes "runOps doOp (xs @ ys) s = Some (s', reps)"
  shows "\<exists>mid. runOps doOp xs s = Some (mid, take (length xs) reps) \<and>
    (\<forall>t. \<exists>u u'. restore (snap mid) t = Some u \<and> runOps doOp ys u = Some (u', drop (length xs) reps) \<and> abs u' = abs s')"
proof -
  obtain mid as bs where m: "runOps doOp xs s = Some (mid, as)" "runOps doOp ys mid = Some (s', bs)" "reps = as @ bs"
    using assms by (auto simp: runOps_append split: bind_splits)
  have "\<exists>u u'. restore (snap mid) t = Some u \<and> runOps doOp ys u = Some (u', bs) \<and> abs u' = abs s'" for t
    using restore_snap [of mid t] run_abs [OF _ m(2)] by metis
  then show ?thesis using m runOps_length [OF m(1)] by auto
qed

end

subsection \<open>The counter\<close>

datatype smReq = Inc | Null | Dec

datatype smRep = IncRep int | NullRep

record rsmSrv =
  rsMe :: int
  counter :: int

definition newRSMSrv :: "int \<Rightarrow> rsmSrv" where
  "newRSMSrv srv = \<lparr>rsMe = srv, counter = 0\<rparr>"

definition GetCounter :: "rsmSrv \<Rightarrow> int" where
  "GetCounter rs = counter rs"

fun DoOp :: "smReq \<Rightarrow> rsmSrv \<Rightarrow> (rsmSrv \<times> smRep) option" where
  "DoOp Inc rs = (let rs1 = rs\<lparr>counter := counter rs + 1\<rparr> in Some (rs1, IncRep (counter rs1)))"
| "DoOp Null rs = Some (rs, NullRep)"
| "DoOp Dec rs = None"

definition SnapshotSM :: "rsmSrv \<Rightarrow> unit bytes" where
  "SnapshotSM rs = Encode (GInt (counter rs)) []"

definition RestoreSM :: "unit bytes \<Rightarrow> rsmSrv \<Rightarrow> rsmSrv option" where
  "RestoreSM d rs =
     (case DecodeInt d of (None, _) \<Rightarrow> None | (Some c, _) \<Rightarrow> Some (rs\<lparr>counter := c\<rparr>))"

interpretation rsm: state_machine DoOp SnapshotSM RestoreSM "counter :: rsmSrv \<Rightarrow> int"
proof
  fix s t :: rsmSrv and r s' rep
  assume "counter s = counter t" "DoOp r s = Some (s', rep)"
  then show "\<exists>t'. DoOp r t = Some (t', rep) \<and> counter t' = counter s'" by (cases r) (auto simp: Let_def)
next
  fix s t :: rsmSrv
  show "\<exists>u. RestoreSM (SnapshotSM s) t = Some u \<and> counter u = counter s"
    by (simp add: RestoreSM_def SnapshotSM_def Encode_def)
qed

lemma DoOp_run:
  assumes "Dec \<notin> set cs"
  shows "\<exists>reps. runOps DoOp cs rs = Some (rs\<lparr>counter := counter rs + int (count_list cs Inc)\<rparr>, reps) \<and>
    (\<forall>i < length cs. reps ! i = (if cs ! i = Inc then IncRep (counter rs + int (count_list (take (Suc i) cs) Inc)) else NullRep))"
  using assms
proof (induction cs arbitrary: rs)
  case (Cons c cs)
  obtain rs1 rep where c: "DoOp c rs = Some (rs1, rep)" "counter rs1 = counter rs + (if c = Inc then 1 else 0)"
      "rs1 = rs\<lparr>counter := counter rs1\<rparr>" "rep = (if c = Inc then IncRep (counter rs1) else NullRep)"
    using Cons.prems by (cases c) (auto simp: Let_def)
  obtain reps where r: "runOps DoOp cs rs1 = Some (rs1\<lparr>counter := counter rs1 + int (count_list cs Inc)\<rparr>, reps)"
      "\<forall>i < length cs. reps ! i = (if cs ! i = Inc then IncRep (counter rs1 + int (count_list (take (Suc i) cs) Inc)) else NullRep)"
    using Cons.IH [of rs1] Cons.prems by auto
  have "rs1\<lparr>counter := counter rs1 + int (count_list cs Inc)\<rparr> = rs\<lparr>counter := counter rs + int (count_list (c # cs) Inc)\<rparr>"
    by (subst c(3)) (simp add: c(2))
  then have "runOps DoOp (c # cs) rs = Some (rs\<lparr>counter := counter rs + int (count_list (c # cs) Inc)\<rparr>, rep # reps)"
    using c(1) r(1) by simp
  moreover have "(rep # reps) ! i = (if (c # cs) ! i = Inc then IncRep (counter rs + int (count_list (take (Suc i) (c # cs)) Inc)) else NullRep)"
    if "i < length (c # cs)" for i
    using that r(2) c(2,4) by (cases i) auto
  ultimately show ?case by blast
qed simp

lemma DoOp_crash: "Dec \<in> set cs \<Longrightarrow> runOps DoOp cs rs = None"
proof (induction cs arbitrary: rs)
  case (Cons c cs)
  then show ?case by (cases c) (auto simp: Let_def)
qed simp

subsection \<open>The tester\<close>

definition NSRV :: nat where "NSRV = 3"

fun inPartition :: "nat \<Rightarrow> nat list option \<Rightarrow> bool" where
  "inPartition s None = True"
| "inPartition s (Some []) = False"
| "inPartition s (Some (i # p)) = (if s = i then True else inPartition s (Some p))"

lemma inPartition_iff [simp]: "inPartition s (Some p) \<longleftrightarrow> s \<in> set p"
  by (induction p) auto

text \<open>
  One round of \<open>onePartition\<close> over the servers: \<open>up s\<close> says that server \<open>s\<close> is connected and has a process,
  \<open>submit s\<close> is what its \<open>Submit\<close> returns.
\<close>

datatype partOut = Crash | Got "smRep option" int | NoLeader

fun partTry :: "(nat \<Rightarrow> bool) \<Rightarrow> (nat \<Rightarrow> Err \<times> smRep option) \<Rightarrow> nat list option \<Rightarrow> nat \<Rightarrow> int \<Rightarrow> partOut" where
  "partTry up submit p 0 index = NoLeader"
| "partTry up submit p (Suc k) index =
     (if int NSRV \<le> index then Crash
      else if index \<noteq> -1 \<and> up (nat index) \<and> inPartition (nat index) p \<and> fst (submit (nat index)) = OK
      then Got (snd (submit (nat index))) index
      else partTry up submit p k ((index + 1) mod int NSRV))"

text \<open>The rounds until ten seconds are over; the result is the reply and the leader known then.\<close>

fun onePartition :: "((nat \<Rightarrow> bool) \<times> (nat \<Rightarrow> Err \<times> smRep option)) list \<Rightarrow> nat list option \<Rightarrow> int \<Rightarrow> (smRep option \<times> int) option" where
  "onePartition [] p leader = Some (None, leader)"
| "onePartition ((up, submit) # rounds) p leader =
     (case partTry up submit p NSRV leader of
        Crash \<Rightarrow> None
      | Got rep index \<Rightarrow> Some (rep, index)
      | NoLeader \<Rightarrow> onePartition rounds p leader)"

definition oneInc :: "((nat \<Rightarrow> bool) \<times> (nat \<Rightarrow> Err \<times> smRep option)) list \<Rightarrow> int \<Rightarrow> (int \<times> int) option" where
  "oneInc rounds leader =
     do {
       (rep, leader') \<leftarrow> onePartition rounds None leader;
       case rep of None \<Rightarrow> Some (0, leader') | Some (IncRep k) \<Rightarrow> Some (k, leader') | Some NullRep \<Rightarrow> None
     }"

definition oneNull :: "((nat \<Rightarrow> bool) \<times> (nat \<Rightarrow> Err \<times> smRep option)) list \<Rightarrow> int \<Rightarrow> int option" where
  "oneNull rounds leader =
     do {
       (rep, leader') \<leftarrow> onePartition rounds None leader;
       case rep of None \<Rightarrow> Some leader' | Some NullRep \<Rightarrow> Some leader' | Some (IncRep k) \<Rightarrow> None
     }"

text \<open>
  A call through the proxies of \<open>proxy.go\<close>: \<open>None\<close> is a call without an answer, which leaves the reply as it was made. The
  \<open>Submit\<close> of \<open>rsm.go\<close> is the one the laboratory starts from.
\<close>

definition RSMSubmit :: "smReq \<Rightarrow> Err \<times> smRep option" where
  "RSMSubmit req = (ErrWrongLeader, None)"

definition SubmitRPC :: "smReq \<Rightarrow> Err \<times> smRep option" where
  "SubmitRPC req = RSMSubmit req"

definition ProxySubmit :: "(Err \<times> smRep option) option \<Rightarrow> Err \<times> smRep option" where
  "ProxySubmit answer = (case answer of None \<Rightarrow> (ErrEmpty, None) | Some rep \<Rightarrow> rep)"

definition ProxyGetCounter :: "int option \<Rightarrow> int" where
  "ProxyGetCounter answer = (case answer of None \<Rightarrow> 0 | Some c \<Rightarrow> c)"

definition countValue :: "int \<Rightarrow> int list \<Rightarrow> nat" where
  "countValue v cs = foldl (\<lambda>i c. if c = v then i + 1 else i) 0 cs"

fun checkCounterLoop :: "nat \<Rightarrow> nat \<Rightarrow> nat \<Rightarrow> nat \<Rightarrow> int \<Rightarrow> nat \<Rightarrow> (nat \<Rightarrow> int list) \<Rightarrow> nat option" where
  "checkCounterLoop 0 it to slept v nsrv counters = None"
| "checkCounterLoop (Suc k) it to slept v nsrv counters =
     (if nsrv \<le> countValue v (counters it) then Some slept
      else checkCounterLoop k (Suc it) (if to < 1000 then 2 * to else to) (slept + to) v nsrv counters)"

definition checkCounter :: "int \<Rightarrow> nat \<Rightarrow> (nat \<Rightarrow> int list) \<Rightarrow> nat option" where
  "checkCounter v nsrv counters = checkCounterLoop 30 0 10 0 v nsrv counters"


subsection \<open>Replicas agree\<close>

text \<open>
  A server that runs the commands \<open>cs\<close>: \<open>k\<close> of them are in the snapshot it starts from, taken on another server.
\<close>

definition replica :: "smReq list \<Rightarrow> nat \<Rightarrow> int \<Rightarrow> (rsmSrv \<times> smRep list) option" where
  "replica cs k srv =
     do {
       (mid, _) \<leftarrow> runOps DoOp (take k cs) (newRSMSrv 0);
       u \<leftarrow> RestoreSM (SnapshotSM mid) (newRSMSrv srv);
       runOps DoOp (drop k cs) u
     }"

lemma replica_catches_up:
  assumes "runOps DoOp cs (newRSMSrv 0) = Some (s', reps)"
  shows "\<exists>u'. replica cs k srv = Some (u', drop k reps) \<and> counter u' = counter s'"
proof -
  have len: "length reps = length cs" by (rule runOps_length [OF assms])
  have "runOps DoOp (take k cs @ drop k cs) (newRSMSrv 0) = Some (s', reps)" using assms by simp
  from rsm.catch_up [OF this] obtain mid u u' where
    "runOps DoOp (take k cs) (newRSMSrv 0) = Some (mid, take (length (take k cs)) reps)"
    "RestoreSM (SnapshotSM mid) (newRSMSrv srv) = Some u"
    "runOps DoOp (drop k cs) u = Some (u', drop (length (take k cs)) reps)" "counter u' = counter s'"
    by blast
  moreover have "drop (length (take k cs)) reps = drop k reps" using len by (cases "k \<le> length cs") auto
  ultimately show ?thesis by (simp add: replica_def)
qed

lemma countValue_filter: "countValue v cs = length (filter (\<lambda>c. c = v) cs)"
proof -
  have "foldl (\<lambda>i c. if c = v then i + 1 else i) k cs = k + length (filter (\<lambda>c. c = v) cs)" for k
    by (induction cs arbitrary: k) auto
  then show ?thesis by (simp add: countValue_def)
qed

lemma checkCounterLoop_outcome:
  "case checkCounterLoop k it to slept v nsrv counters of
     None \<Rightarrow> \<forall>i < k. countValue v (counters (it + i)) < nsrv
   | Some t \<Rightarrow> \<exists>i < k. nsrv \<le> countValue v (counters (it + i)) \<and> (\<forall>j < i. countValue v (counters (it + j)) < nsrv) \<and> t = slept + backoff i to"
proof (induction k arbitrary: it to slept)
  case (Suc k)
  show ?case
  proof (cases "nsrv \<le> countValue v (counters it)")
    case True
    then show ?thesis by (auto intro!: exI [of _ 0])
  next
    case False
    let ?to = "if to < 1000 then 2 * to else to"
    have eq: "checkCounterLoop (Suc k) it to slept v nsrv counters = checkCounterLoop k (Suc it) ?to (slept + to) v nsrv counters"
      using False by simp
    show ?thesis
    proof (cases "checkCounterLoop k (Suc it) ?to (slept + to) v nsrv counters")
      case None
      then have "\<forall>i < k. countValue v (counters (Suc it + i)) < nsrv" using Suc.IH [where it = "Suc it" and to = ?to and slept = "slept + to"] by simp
      then show ?thesis using eq None False by (auto simp: less_Suc_eq_0_disj)
    next
      case (Some t)
      obtain i where i: "i < k" "nsrv \<le> countValue v (counters (Suc it + i))" "\<forall>j < i. countValue v (counters (Suc it + j)) < nsrv"
        "t = slept + to + backoff i ?to" using Suc.IH [where it = "Suc it" and to = ?to and slept = "slept + to"] Some by auto
      have "\<forall>j < Suc i. countValue v (counters (it + j)) < nsrv" using i(3) False by (auto simp: less_Suc_eq_0_disj)
      then have "\<exists>i < Suc k. nsrv \<le> countValue v (counters (it + i)) \<and> (\<forall>j < i. countValue v (counters (it + j)) < nsrv) \<and> t = slept + backoff i to"
        using i(1,2,4) by (intro exI [of _ "Suc i"]) simp
      then show ?thesis using eq Some by simp
    qed
  qed
qed simp

text \<open>
  C38. Replicas agree on the counter. Let servers run the same committed commands, each from a snapshot that another
  server took after some of them. If there is no \<open>Dec\<close> among them no server stops, every server gives the
  replies the server that ran them all gave, where an \<open>Inc\<close> is answered with the number of \<open>Inc\<close> up to it, and \<open>checkCounter\<close>
  of the tester, asked for that number, is content at once; a \<open>Dec\<close> stops every server that has to run it.
\<close>

theorem replicas_agree:
  "if Dec \<in> set cs then \<forall>k srv. Dec \<in> set (drop k cs) \<longrightarrow> replica cs k srv = None
   else \<exists>reps. length reps = length cs \<and>
     (\<forall>i < length cs. reps ! i = (if cs ! i = Inc then IncRep (int (count_list (take (Suc i) cs) Inc)) else NullRep)) \<and>
     (\<forall>ks. \<exists>ss. length ss = length ks \<and>
        (\<forall>i < length ks. replica cs (ks ! i) (int i) = Some (ss ! i, drop (ks ! i) reps)) \<and>
        checkCounter (int (count_list cs Inc)) (length ks) (\<lambda>_. map GetCounter ss) = Some 0)"
proof (cases "Dec \<in> set cs")
  case True
  have "replica cs k srv = None" if "Dec \<in> set (drop k cs)" for k srv
    by (simp add: replica_def DoOp_crash [OF that] split: bind_splits)
  then show ?thesis using True by simp
next
  case False
  obtain s' reps where run: "runOps DoOp cs (newRSMSrv 0) = Some (s', reps)" "counter s' = int (count_list cs Inc)"
    "\<forall>i < length cs. reps ! i = (if cs ! i = Inc then IncRep (int (count_list (take (Suc i) cs) Inc)) else NullRep)"
    using DoOp_run [OF False, of "newRSMSrv 0"] by (auto simp: newRSMSrv_def)
  have "\<exists>ss. length ss = length ks \<and> (\<forall>i < length ks. replica cs (ks ! i) (int i) = Some (ss ! i, drop (ks ! i) reps)) \<and>
      checkCounter (int (count_list cs Inc)) (length ks) (\<lambda>_. map GetCounter ss) = Some 0" for ks
  proof -
    obtain u where u: "\<forall>k srv. replica cs k srv = Some (u k srv, drop k reps) \<and> counter (u k srv) = counter s'"
      using replica_catches_up [OF run(1)] by metis
    let ?ss = "map (\<lambda>i. u (ks ! i) (int i)) [0..<length ks]"
    have "countValue (int (count_list cs Inc)) (map GetCounter ?ss) = length ks"
      using u run(2) by (simp add: countValue_filter GetCounter_def filter_map comp_def)
    then have "checkCounter (int (count_list cs Inc)) (length ks) (\<lambda>_. map GetCounter ?ss) = Some 0"
      by (simp add: checkCounter_def numeral_eq_Suc)
    then show ?thesis using u by (intro exI [of _ ?ss]) simp
  qed
  then show ?thesis using False run(3) runOps_length [OF run(1)] by auto
qed

theorem replicas_agree_witness:
  "(\<exists>ss reps. length ss = 3 \<and> replica [Inc, Null, Inc] 2 1 = Some (ss ! 1, drop 2 reps) \<and> reps ! 2 = IncRep 2 \<and>
      checkCounter 2 3 (\<lambda>_. map GetCounter ss) = Some 0) \<and> replica [Inc, Dec] 1 0 = None"
proof
  have nd: "Dec \<notin> set [Inc, Null, Inc]" by simp
  obtain reps where r: "\<forall>i < length [Inc, Null, Inc]. reps ! i = (if [Inc, Null, Inc] ! i = Inc then IncRep (int (count_list (take (Suc i) [Inc, Null, Inc]) Inc)) else NullRep)"
    and k: "\<forall>ks. \<exists>ss. length ss = length ks \<and> (\<forall>i < length ks. replica [Inc, Null, Inc] (ks ! i) (int i) = Some (ss ! i, drop (ks ! i) reps)) \<and>
      checkCounter (int (count_list [Inc, Null, Inc] Inc)) (length ks) (\<lambda>_. map GetCounter ss) = Some 0"
    using replicas_agree [of "[Inc, Null, Inc]"] unfolding if_not_P [OF nd] by blast
  have "reps ! 2 = IncRep 2" using spec [OF r, of 2] by simp
  moreover obtain ss where ss: "length ss = length [0, 2, 3 :: nat]"
    "\<forall>i < length [0, 2, 3 :: nat]. replica [Inc, Null, Inc] ([0, 2, 3] ! i) (int i) = Some (ss ! i, drop ([0, 2, 3] ! i) reps)"
    "checkCounter (int (count_list [Inc, Null, Inc] Inc)) (length [0, 2, 3 :: nat]) (\<lambda>_. map GetCounter ss) = Some 0"
    using spec [OF k, of "[0, 2, 3]"] by blast
  moreover have "replica [Inc, Null, Inc] 2 1 = Some (ss ! 1, drop 2 reps)" using spec [OF ss(2), of 1] by simp
  ultimately show "\<exists>ss reps. length ss = 3 \<and> replica [Inc, Null, Inc] 2 1 = Some (ss ! 1, drop 2 reps) \<and> reps ! 2 = IncRep 2 \<and>
      checkCounter 2 3 (\<lambda>_. map GetCounter ss) = Some 0" by (intro exI [of _ ss] exI [of _ reps]) (simp add: numeral_3_eq_3)
  show "replica [Inc, Dec] 1 0 = None" using replicas_agree [of "[Inc, Dec]"] by simp
qed

subsection \<open>Finding the leader\<close>

text \<open>Server \<open>s\<close> would take a request in round \<open>r\<close>.\<close>

definition takes :: "nat list option \<Rightarrow> (nat \<Rightarrow> bool) \<times> (nat \<Rightarrow> Err \<times> smRep option) \<Rightarrow> nat \<Rightarrow> bool" where
  "takes p r s \<longleftrightarrow> s < NSRV \<and> fst r s \<and> inPartition s p \<and> fst (snd r s) = OK"

lemma partTry_outcome:
  assumes "0 \<le> index" "index < int NSRV"
  shows "if \<exists>s. takes p (up, submit) s then \<exists>s. takes p (up, submit) s \<and> partTry up submit p NSRV index = Got (snd (submit s)) (int s)
    else partTry up submit p NSRV index = NoLeader"
proof -
  have all: "(\<exists>s. takes p (up, submit) s) \<longleftrightarrow> takes p (up, submit) 0 \<or> takes p (up, submit) 1 \<or> takes p (up, submit) 2"
  proof
    assume "\<exists>s. takes p (up, submit) s"
    then obtain s where "takes p (up, submit) s" by blast
    moreover then have "s = 0 \<or> s = 1 \<or> s = 2" by (auto simp: takes_def NSRV_def)
    ultimately show "takes p (up, submit) 0 \<or> takes p (up, submit) 1 \<or> takes p (up, submit) 2" by auto
  qed auto
  have "index = 0 \<or> index = 1 \<or> index = 2" using assms by (auto simp: NSRV_def)
  then show ?thesis
    unfolding all by (elim disjE) (simp_all add: takes_def NSRV_def numeral_3_eq_3 numeral_2_eq_2)
qed

text \<open>
  A request finds the leader: from any known leader, \<open>onePartition\<close> never crashes. It returns what a server answered
  with \<open>OK\<close> in the first round in which a server that is up and in the partition would, and knows this server as the leader then; when there is
  no such round until the time is over, it returns nothing and keeps the leader it knew.
\<close>

lemma onePartition_finds_leader:
  assumes "0 \<le> leader" "leader < int NSRV"
  shows "case dropWhile (\<lambda>r. \<nexists>s. takes p r s) rounds of
      [] \<Rightarrow> onePartition rounds p leader = Some (None, leader)
    | r # _ \<Rightarrow> \<exists>s. takes p r s \<and> onePartition rounds p leader = Some (snd (snd r s), int s)"
proof (induction rounds)
  case (Cons r rounds)
  obtain up submit where r: "r = (up, submit)" by (cases r)
  show ?case
  proof (cases "\<exists>s. takes p r s")
    case True
    then show ?thesis using partTry_outcome [OF assms, of p up submit] r by auto
  next
    case False
    then have eq: "onePartition (r # rounds) p leader = onePartition rounds p leader"
      using partTry_outcome [OF assms, of p up submit] r by auto
    show ?thesis unfolding eq using Cons False by simp
  qed
qed simp

theorem onePartition_finds_leader_witness:
  "onePartition [((\<lambda>s. s \<noteq> 1), (\<lambda>s. (ErrWrongLeader, None))), ((\<lambda>s. True), (\<lambda>s. if s = 1 then (OK, Some (IncRep 4)) else (ErrWrongLeader, None)))] None 2 =
     Some (Some (IncRep 4), 1)"
proof -
  let ?r1 = "((\<lambda>s. s \<noteq> 1), (\<lambda>s. (ErrWrongLeader, None))) :: (nat \<Rightarrow> bool) \<times> (nat \<Rightarrow> Err \<times> smRep option)"
  let ?r2 = "((\<lambda>s. True), (\<lambda>s. if s = 1 then (OK, Some (IncRep 4)) else (ErrWrongLeader, None))) :: (nat \<Rightarrow> bool) \<times> (nat \<Rightarrow> Err \<times> smRep option)"
  have "\<not> takes None ?r1 s" "takes None ?r2 s \<longleftrightarrow> s = 1" for s by (auto simp: takes_def NSRV_def)
  then show ?thesis using onePartition_finds_leader [where leader = 2 and p = None and rounds = "[?r1, ?r2]"] by (simp add: NSRV_def)
qed

text \<open>With the \<open>Submit\<close> the laboratory starts from no request is ever answered, whatever calls are lost.\<close>

lemma unfinished_Submit_never_answers:
  assumes "0 \<le> leader" "leader < int NSRV"
    and "\<forall>r \<in> set rounds. \<forall>s. snd r s = ProxySubmit None \<or> snd r s = ProxySubmit (Some (SubmitRPC Inc))"
  shows "oneInc rounds leader = Some (0, leader)"
proof -
  have "\<not> takes p r s" if "r \<in> set rounds" for p r s
  proof -
    have "snd r s = (ErrEmpty, None) \<or> snd r s = (ErrWrongLeader, None)"
      using assms(3) that by (auto simp: ProxySubmit_def SubmitRPC_def RSMSubmit_def)
    then have "fst (snd r s) \<noteq> OK" by (elim disjE) simp_all
    then show ?thesis by (simp add: takes_def)
  qed
  then have none: "dropWhile (\<lambda>r. \<nexists>s. takes None r s) rounds = []" by simp
  have "onePartition rounds None leader = Some (None, leader)"
    using onePartition_finds_leader [OF assms(1,2), where p = None and rounds = rounds] unfolding none by simp
  then show ?thesis by (simp add: oneInc_def)
qed

end
