(* ===== verification/Labgob.thy ===== *)
theory Labgob
  imports Prelude
begin

text \<open>
  The checks of \<open>labgob/labgob.go\<close>: what its encoder and decoder warn about before they call \<open>encoding/gob\<close>. A type is
  a number, and \<open>reflect\<close> a table of types, which may be recursive. Names are ASCII.
\<close>

subsection \<open>Types\<close>

datatype kind =
    Struct "(string \<times> nat) list"
  | Elems nat
  | MapOf nat nat
  | Basic

text \<open>\<open>Elems\<close> is a slice, an array or a pointer; \<open>MapOf\<close> has the types of the values and of the keys.\<close>

type_synonym types = "nat \<Rightarrow> string \<times> kind"

record labgob =
  errorCount :: nat
  checked :: "nat set"
  printed :: "(string \<times> string) list"
  nonDefault :: "string list"

definition IsUpperFirst :: "string \<Rightarrow> bool" where
  "IsUpperFirst name = (case name of [] \<Rightarrow> False | c # _ \<Rightarrow> 65 \<le> (of_char c :: nat) \<and> (of_char c :: nat) \<le> 90)"

definition fieldWarning :: "string \<Rightarrow> string \<Rightarrow> labgob \<Rightarrow> labgob" where
  "fieldWarning f t st =
     (if IsUpperFirst f then st else st\<lparr>errorCount := errorCount st + 1, printed := printed st @ [(f, t)]\<rparr>)"

text \<open>A check that is never finished would be \<open>None\<close>.\<close>

lemma for_each_mono [partial_function_mono]:
  assumes "\<And>x s. mono_option (\<lambda>g. F g x s)"
  shows "mono_option (\<lambda>g. for_each xs (F g) s)"
proof (induction xs arbitrary: s)
  case Nil
  show ?case by (simp add: option.const_mono)
next
  case (Cons x xs)
  show ?case unfolding for_each.simps(2) by (rule bind_mono [OF assms Cons.IH])
qed

partial_function (option) checkType :: "types \<Rightarrow> nat \<Rightarrow> labgob \<Rightarrow> labgob option" where
  "checkType T t st =
     (if t \<in> checked st then Some st
      else
        let st1 = st\<lparr>checked := insert t (checked st)\<rparr>
        in case snd (T t) of
             Struct fs \<Rightarrow> for_each fs (\<lambda>f s. checkType T (snd f) (fieldWarning (fst f) (fst (T t)) s)) st1
           | Elems u \<Rightarrow> checkType T u st1
           | MapOf u k \<Rightarrow> do { s \<leftarrow> checkType T u st1; checkType T k s }
           | Basic \<Rightarrow> Some st1)"

definition checkValue :: "types \<Rightarrow> nat option \<Rightarrow> labgob \<Rightarrow> labgob option" where
  "checkValue T v st = (case v of None \<Rightarrow> None | Some t \<Rightarrow> checkType T t st)"

lemma checkValue_Some [simp]: "checkValue T (Some t) st = checkType T t st"
  by (simp add: checkValue_def)

definition newLabgob :: labgob where
  "newLabgob = \<lparr>errorCount = 0, checked = {}, printed = [], nonDefault = []\<rparr>"

subsection \<open>What the check of a type visits\<close>

text \<open>The types under a type in the order they are visited, with the name of the field.\<close>

fun items :: "kind \<Rightarrow> (string option \<times> nat) list" where
  "items (Struct fs) = map (\<lambda>(f, u). (Some f, u)) fs"
| "items (Elems u) = [(None, u)]"
| "items (MapOf u k) = [(None, u), (None, k)]"
| "items Basic = []"

definition children :: "string \<times> kind \<Rightarrow> nat set" where
  "children d = snd ` set (items (snd d))"

definition under :: "types \<Rightarrow> nat \<Rightarrow> nat \<Rightarrow> bool" where
  "under T t u \<longleftrightarrow> u \<in> children (T t)"

fun cost :: "string option \<Rightarrow> nat" where
  "cost None = 0"
| "cost (Some f) = (if IsUpperFirst f then 0 else 1)"

definition lowerFields :: "string \<times> kind \<Rightarrow> nat" where
  "lowerFields d = (\<Sum>i \<leftarrow> items (snd d). cost (fst i))"

fun pre :: "string \<Rightarrow> string option \<Rightarrow> labgob \<Rightarrow> labgob" where
  "pre n None st = st"
| "pre n (Some f) st = fieldWarning f n st"

lemma for_each_short: "Option.bind x (for_each [] f) = x" "for_each [i] f = f i"
proof -
  show nil: "Option.bind x (for_each [] f) = x" for x by (cases x) auto
  show "for_each [i] f = f i" by (rule ext) (simp add: nil)
qed

lemma checkType_items:
  "checkType T t st =
     (if t \<in> checked st then Some st
      else for_each (items (snd (T t))) (\<lambda>i s. checkType T (snd i) (pre (fst (T t)) (fst i) s)) (st\<lparr>checked := insert t (checked st)\<rparr>))"
proof -
  have "for_each fs (\<lambda>f s. checkType T (snd f) (fieldWarning (fst f) n s)) s0 =
      for_each (map (\<lambda>(f, u). (Some f, u)) fs) (\<lambda>i s. checkType T (snd i) (pre n (fst i) s)) s0" for fs n s0
  proof (induction fs arbitrary: s0)
    case (Cons f fs)
    then show ?case by (cases f; cases "checkType T (snd f) (fieldWarning (fst f) n s0)") auto
  qed simp
  note m = ext [OF this]
  show ?thesis
    by (subst checkType.simps) (auto simp: Let_def m for_each_short split: kind.splits)
qed

definition visits :: "types \<Rightarrow> nat set \<Rightarrow> nat \<Rightarrow> labgob \<Rightarrow> labgob \<Rightarrow> bool" where
  "visits T us k s s' \<longleftrightarrow> checked s \<subseteq> checked s' \<and> us \<subseteq> checked s' \<and> finite (checked s' - checked s) \<and>
     (\<forall>u \<in> checked s' - checked s. children (T u) \<subseteq> checked s' \<and> (\<exists>r \<in> us. (under T)\<^sup>*\<^sup>* r u)) \<and>
     errorCount s' = errorCount s + k + (\<Sum>u \<in> checked s' - checked s. lowerFields (T u))"

lemma visits_trans:
  assumes "visits T A k s s1" "visits T B l s1 s2"
  shows "visits T (A \<union> B) (k + l) s s2"
proof -
  have d: "checked s2 - checked s = (checked s1 - checked s) \<union> (checked s2 - checked s1)"
    "(checked s1 - checked s) \<inter> (checked s2 - checked s1) = {}"
    using assms by (auto simp: visits_def)
  have f: "finite (checked s1 - checked s)" "finite (checked s2 - checked s1)" using assms by (auto simp: visits_def)
  have "(\<Sum>u \<in> checked s2 - checked s. lowerFields (T u)) =
      (\<Sum>u \<in> checked s1 - checked s. lowerFields (T u)) + (\<Sum>u \<in> checked s2 - checked s1. lowerFields (T u))"
    unfolding d(1) by (rule sum.union_disjoint [OF f d(2)])
  moreover have "children (T u) \<subseteq> checked s2 \<and> (\<exists>r \<in> A \<union> B. (under T)\<^sup>*\<^sup>* r u)" if "u \<in> checked s2 - checked s" for u
  proof (cases "u \<in> checked s1")
    case True
    then have "children (T u) \<subseteq> checked s1 \<and> (\<exists>r \<in> A. (under T)\<^sup>*\<^sup>* r u)" using assms(1) that by (simp add: visits_def)
    then show ?thesis using assms(2) by (auto simp: visits_def)
  next
    case False
    then have "children (T u) \<subseteq> checked s2 \<and> (\<exists>r \<in> B. (under T)\<^sup>*\<^sup>* r u)" using assms(2) that by (simp add: visits_def)
    then show ?thesis by auto
  qed
  moreover have "finite (checked s2 - checked s)" unfolding d(1) using f by simp
  moreover have "checked s \<subseteq> checked s2" "A \<union> B \<subseteq> checked s2" using assms by (auto simp: visits_def)
  ultimately show ?thesis using assms by (simp add: visits_def)
qed

lemma visits_pre: "visits T {} (cost f) s (pre n f s)"
  by (cases f) (auto simp: visits_def fieldWarning_def)

lemma visits_type:
  assumes "t \<notin> checked s" "visits T (children (T t)) (lowerFields (T t)) (s\<lparr>checked := insert t (checked s)\<rparr>) s'"
  shows "visits T {t} 0 s s'"
proof -
  have d: "checked s' - checked s = insert t (checked s' - insert t (checked s))" using assms by (auto simp: visits_def)
  have f: "finite (checked s' - insert t (checked s))" using assms by (simp add: visits_def)
  have "(\<Sum>u \<in> checked s' - checked s. lowerFields (T u)) = lowerFields (T t) + (\<Sum>u \<in> checked s' - insert t (checked s). lowerFields (T u))"
    unfolding d using f by simp
  moreover have "children (T u) \<subseteq> checked s' \<and> (under T)\<^sup>*\<^sup>* t u" if u: "u \<in> checked s' - checked s" for u
  proof (cases "u = t")
    case True
    then show ?thesis using assms(2) by (simp add: visits_def)
  next
    case False
    then have "u \<in> checked s' - insert t (checked s)" using u by simp
    then have "children (T u) \<subseteq> checked s' \<and> (\<exists>r \<in> children (T t). (under T)\<^sup>*\<^sup>* r u)" using assms(2) by (simp add: visits_def)
    then obtain r where r: "under T t r" "(under T)\<^sup>*\<^sup>* r u" "children (T u) \<subseteq> checked s'" by (auto simp: under_def)
    then show ?thesis using converse_rtranclp_into_rtranclp [OF r(1,2)] by simp
  qed
  moreover have "finite (checked s' - checked s)" unfolding d using f by simp
  moreover have "checked s \<subseteq> checked s'" "t \<in> checked s'"
    "errorCount s' = errorCount s + lowerFields (T t) + (\<Sum>u \<in> checked s' - insert t (checked s). lowerFields (T u))"
    using assms(2) by (auto simp: visits_def)
  ultimately show ?thesis by (simp add: visits_def)
qed

lemma checkType_visits:
  assumes "finite R" "\<forall>u \<in> R. children (T u) \<subseteq> R" "t \<in> R"
  shows "\<exists>st'. checkType T t st = Some st' \<and> visits T {t} 0 st st'"
  using assms(3)
proof (induction "card (R - checked st)" arbitrary: t st rule: less_induct)
  case less
  show ?case
  proof (cases "t \<in> checked st")
    case True
    then show ?thesis by (subst checkType_items) (auto simp: visits_def)
  next
    case new: False
    let ?st = "st\<lparr>checked := insert t (checked st)\<rparr>"
    have loop: "\<exists>s'. for_each is (\<lambda>i s. checkType T (snd i) (pre n (fst i) s)) s = Some s' \<and>
        visits T (snd ` set is) (\<Sum>i \<leftarrow> is. cost (fst i)) s s'"
      if "snd ` set is \<subseteq> R" "insert t (checked st) \<subseteq> checked s" for "is" n s
      using that
    proof (induction "is" arbitrary: s)
      case Nil
      then show ?case by (simp add: visits_def)
    next
      case (Cons i "is")
      let ?s = "pre n (fst i) s"
      have p: "visits T {} (cost (fst i)) s ?s" by (rule visits_pre)
      then have sub: "insert t (checked st) \<subseteq> checked ?s" using Cons.prems(2) by (auto simp: visits_def)
      have "R - checked ?s \<subset> R - checked st" using sub new less.prems by blast
      then have "card (R - checked ?s) < card (R - checked st)" using assms(1) by (simp add: psubset_card_mono)
      then obtain s1 where s1: "checkType T (snd i) ?s = Some s1" "visits T {snd i} 0 ?s s1"
        using less.hyps [of ?s "snd i"] Cons.prems(1) by auto
      have "insert t (checked st) \<subseteq> checked s1" using s1(2) sub by (auto simp: visits_def)
      then obtain s2 where s2: "for_each is (\<lambda>i s. checkType T (snd i) (pre n (fst i) s)) s1 = Some s2"
        "visits T (snd ` set is) (\<Sum>i \<leftarrow> is. cost (fst i)) s1 s2" using Cons.IH [of s1] Cons.prems(1) by auto
      show ?case using s1(1) s2(1) visits_trans [OF visits_trans [OF p s1(2)] s2(2)] by simp
    qed
    have "snd ` set (items (snd (T t))) \<subseteq> R" using assms(2) less.prems by (auto simp: children_def)
    from loop [OF this, of ?st "fst (T t)"] obtain st' where st':
      "for_each (items (snd (T t))) (\<lambda>i s. checkType T (snd i) (pre (fst (T t)) (fst i) s)) ?st = Some st'"
      "visits T (children (T t)) (lowerFields (T t)) ?st st'"
      by (auto simp: children_def lowerFields_def)
    then show ?thesis using new visits_type [OF new st'(2)] by (subst checkType_items) simp
  qed
qed

lemma registered_types_total:
  assumes "finite R" "\<forall>u \<in> R. children (T u) \<subseteq> R" "set ts \<subseteq> R"
  shows "\<exists>st. for_each (map Some ts) (checkValue T) s = Some st \<and> visits T (set ts) 0 s st"
  using assms(3)
proof (induction ts arbitrary: s)
  case Nil
  then show ?case by (simp add: visits_def)
next
  case (Cons t ts)
  obtain s1 where s1: "checkType T t s = Some s1" "visits T {t} 0 s s1"
    using checkType_visits [OF assms(1,2), of t s] Cons.prems by auto
  obtain st where "for_each (map Some ts) (checkValue T) s1 = Some st" "visits T (set ts) 0 s1 st"
    using Cons.IH [of s1] Cons.prems by auto
  then show ?case using s1 visits_trans [OF s1(2), of "set ts" 0 st] by simp
qed

text \<open>
  C39. A registry of types without warnings is one in which nothing is lost: however types are registered, recursive
  ones included, each check ends; the types checked are then exactly those the registered ones are made of, each is
  looked at once, and the number of errors is the number of their struct fields with a lower-case name. There is no
  error if and only if every field of every struct among them is exported, which is what \<open>encoding/gob\<close> needs to
  transmit it.
\<close>

theorem registered_types_exported:
  assumes "finite R" "\<forall>u \<in> R. children (T u) \<subseteq> R" "set ts \<subseteq> R"
  shows "\<exists>st. for_each (map Some ts) (checkValue T) newLabgob = Some st \<and>
    checked st = {u. \<exists>t \<in> set ts. (under T)\<^sup>*\<^sup>* t u} \<and>
    errorCount st = (\<Sum>u \<in> checked st. lowerFields (T u)) \<and>
    (errorCount st = 0 \<longleftrightarrow> (\<forall>u \<in> checked st. \<forall>fs f v. snd (T u) = Struct fs \<and> (f, v) \<in> set fs \<longrightarrow> IsUpperFirst f))"
proof -
  obtain st where st: "for_each (map Some ts) (checkValue T) newLabgob = Some st" "visits T (set ts) 0 newLabgob st"
    using registered_types_total [OF assms] by blast
  have V: "set ts \<subseteq> checked st" "finite (checked st)" "\<And>u. u \<in> checked st \<Longrightarrow> children (T u) \<subseteq> checked st \<and> (\<exists>t \<in> set ts. (under T)\<^sup>*\<^sup>* t u)"
    "errorCount st = (\<Sum>u \<in> checked st. lowerFields (T u))"
    using st(2) by (auto simp: visits_def newLabgob_def)
  have closed: "u \<in> checked st" if "(under T)\<^sup>*\<^sup>* t u" "t \<in> checked st" for t u
    using that by (induction rule: rtranclp_induct) (use V(3) in \<open>auto simp: under_def\<close>)
  have "checked st = {u. \<exists>t \<in> set ts. (under T)\<^sup>*\<^sup>* t u}" using V(1,3) closed by blast
  moreover have "lowerFields (T u) = 0 \<longleftrightarrow> (\<forall>fs f v. snd (T u) = Struct fs \<and> (f, v) \<in> set fs \<longrightarrow> IsUpperFirst f)" for u
    by (cases "snd (T u)") (fastforce simp: lowerFields_def split: if_splits)+
  ultimately show ?thesis using st(1) V(2,4) by simp
qed

text \<open>The witness has a recursive type: a list cell with an exported value and a lower-case link.\<close>

theorem registered_types_exported_witness:
  "\<exists>st. for_each (map Some [0, 2]) (checkValue (\<lambda>t. if t = 0 then (''Cell'', Struct [(''Val'', 2), (''next'', 1)]) else if t = 1 then ([], Elems 0) else (''int'', Basic)))
     newLabgob = Some st \<and> checked st = {0, 1, 2} \<and> errorCount st = 1"
proof -
  let ?T = "\<lambda>t. if t = 0 then (''Cell'', Struct [(''Val'', 2), (''next'', 1)]) else if t = 1 then ([], Elems 0) else (''int'', Basic)" 
  have "\<forall>u \<in> {0, 1, 2}. children (?T u) \<subseteq> {0, 1, 2}" by (simp add: children_def)
  from registered_types_exported [of "{0, 1, 2}", OF _ this, of "[0, 2]"] obtain st where
    st: "for_each (map Some [0, 2]) (checkValue ?T) newLabgob = Some st"
      "checked st = {u. \<exists>t \<in> set [0, 2]. (under ?T)\<^sup>*\<^sup>* t u}" "errorCount st = (\<Sum>u \<in> checked st. lowerFields (?T u))" by auto
  have e: "under ?T 0 1" "under ?T 0 2" by (simp_all add: under_def children_def)
  have sub: "u \<in> {0, 1, 2}" if "(under ?T)\<^sup>*\<^sup>* t u" "t \<in> {0, 1, 2}" for t u
    using that by (induction rule: rtranclp_induct) (auto simp: under_def children_def split: if_splits)
  have "checked st = {0, 1, 2}"
  proof
    show "checked st \<subseteq> {0, 1, 2}" unfolding st(2) using sub by auto
    have "(under ?T)\<^sup>*\<^sup>* 0 1" "(under ?T)\<^sup>*\<^sup>* 0 2" using e by (auto intro: r_into_rtranclp)
    then show "{0, 1, 2} \<subseteq> checked st" unfolding st(2) by auto
  qed
  then show ?thesis using st(1,3) by (auto simp: lowerFields_def IsUpperFirst_def)
qed

subsection \<open>Decoding into a variable that is not empty\<close>

text \<open>
  A value as \<open>reflect\<close> shows it: \<open>Scalar n z\<close> is a boolean, a number or a string of the type named \<open>n\<close>, and \<open>z\<close> says that it is
  the zero of its type; \<open>OtherVal\<close> is a slice, a map, an interface or a function.
\<close>

datatype val =
    StructVal "(string \<times> val) list"
  | PtrVal "val option"
  | Scalar string bool
  | OtherVal

definition scalarWarning :: "string \<Rightarrow> labgob \<Rightarrow> labgob" where
  "scalarWarning what st =
     (let st1 = (if errorCount st < 1 then st\<lparr>nonDefault := nonDefault st @ [what]\<rparr> else st)
      in st1\<lparr>errorCount := errorCount st1 + 1\<rparr>)"

definition fieldPath :: "string \<Rightarrow> string \<Rightarrow> string" where
  "fieldPath name f = (if name \<noteq> [] then name @ ''.'' @ f else f)"

fun checkDefault1 :: "val \<Rightarrow> nat \<Rightarrow> string \<Rightarrow> labgob \<Rightarrow> labgob"
  and checkFields :: "(string \<times> val) list \<Rightarrow> nat \<Rightarrow> string \<Rightarrow> labgob \<Rightarrow> labgob" where
  "checkDefault1 v depth name st =
     (if 3 < depth then st
      else case v of
        StructVal fs \<Rightarrow> checkFields fs depth name st
      | PtrVal None \<Rightarrow> st
      | PtrVal (Some w) \<Rightarrow> checkDefault1 w (depth + 1) name st
      | Scalar n z \<Rightarrow> (if z then st else scalarWarning (if name = [] then n else name) st)
      | OtherVal \<Rightarrow> st)"
| "checkFields [] depth name st = st"
| "checkFields ((f, w) # fs) depth name st =
     checkFields fs depth name (checkDefault1 w (depth + 1) (fieldPath name f) st)"

definition checkDefault :: "val option \<Rightarrow> labgob \<Rightarrow> labgob" where
  "checkDefault value st = (case value of None \<Rightarrow> st | Some v \<Rightarrow> checkDefault1 v 1 [] st)"

text \<open>The scalars that are not zero, by their paths, at most \<open>d\<close> levels deep.\<close>

fun leftovers :: "nat \<Rightarrow> string \<Rightarrow> val \<Rightarrow> string list" where
  "leftovers 0 name v = []"
| "leftovers (Suc d) name (StructVal fs) = concat (map (\<lambda>(f, w). leftovers d (fieldPath name f) w) fs)"
| "leftovers (Suc d) name (PtrVal None) = []"
| "leftovers (Suc d) name (PtrVal (Some w)) = leftovers d name w"
| "leftovers (Suc d) name (Scalar n z) = (if z then [] else [if name = [] then n else name])"
| "leftovers (Suc d) name OtherVal = []"

definition warned :: "string list \<Rightarrow> labgob \<Rightarrow> labgob" where
  "warned ws st = st\<lparr>errorCount := errorCount st + length ws,
     nonDefault := nonDefault st @ (if errorCount st = 0 then take 1 ws else [])\<rparr>"

lemma warned_append: "warned ys (warned xs st) = warned (xs @ ys) st"
  by (cases xs) (auto simp: warned_def)

lemma checkDefault1_warned:
  "checkDefault1 v depth name st = warned (leftovers (4 - depth) name v) st"
  "checkFields fs depth name st = warned (concat (map (\<lambda>(f, w). leftovers (3 - depth) (fieldPath name f) w) fs)) st"
proof (induction v depth name st and fs depth name st rule: checkDefault1_checkFields.induct)
  case (1 v depth name st)
  show ?case
  proof (cases "3 < depth")
    case True
    then show ?thesis by (simp add: warned_def)
  next
    case False
    then have "4 - depth = Suc (3 - depth)" by simp
    then show ?thesis using 1 False
      by (cases v) (auto simp: warned_def scalarWarning_def split: option.splits)
  qed
next
  case (2 depth name st)
  then show ?case by (simp add: warned_def)
next
  case (3 f w fs depth name st)
  then show ?case by (simp add: warned_append)
qed

text \<open>
  A decoder warns of its first variable that is not empty, and counts an error for each one it looks at; it looks three
  levels deep, so that below a pointer to a struct the fields of inner structs are not seen.
\<close>

lemma checkDefault_reports: "checkDefault (Some v) st = warned (leftovers 3 [] v) st"
  using checkDefault1_warned(1) [of v 1 "[]" st] by (simp add: checkDefault_def)

lemma checkDefault_overlooks_inner:
  "checkDefault (Some (PtrVal (Some (StructVal [(f, StructVal [(g, Scalar n False)])])))) st = st"
  by (simp add: checkDefault_reports warned_def numeral_3_eq_3)

text \<open>
  The coders themselves: \<open>gob\<close> is what \<open>encoding/gob\<close> does after the checks. The type of a value is \<open>None\<close> for a nil interface.
\<close>

definition EncodeL :: "types \<Rightarrow> ('v \<Rightarrow> 'r) \<Rightarrow> nat option \<Rightarrow> 'v \<Rightarrow> labgob \<Rightarrow> (labgob \<times> 'r) option" where
  "EncodeL T gob t e st = do { st1 \<leftarrow> checkValue T t st; Some (st1, gob e) }"

definition DecodeL :: "types \<Rightarrow> (val \<Rightarrow> 'r) \<Rightarrow> nat option \<Rightarrow> val \<Rightarrow> labgob \<Rightarrow> (labgob \<times> 'r) option" where
  "DecodeL T gob t e st = do { st1 \<leftarrow> checkValue T t st; Some (checkDefault (Some e) st1, gob e) }"

definition Register :: "types \<Rightarrow> nat option \<Rightarrow> labgob \<Rightarrow> labgob option" where
  "Register T t st = checkValue T t st"

end
