(* ===== verification/KvSpawn.thy ===== *)
theory KvSpawn
  imports KvTest
begin

text \<open>
  Many clients at once: \<open>SpawnClientsAndWait\<close>, \<open>runClient\<close>, \<open>OneClientPut\<close> and \<open>OnePut\<close> of \<open>kvtest1/kvtest.go\<close> as
  goroutines that put to one key of \<open>kvsrv1/server.go\<close>, interleaved at the calls of the clerk and at the channels. A
  clerk's put is one step of the server (\<open>KvSrv.clerkPut_linearizable\<close>); on a network that is not reliable it may answer
  \<open>ErrMaybe\<close> instead of what the server said.
\<close>

subsection \<open>Clients, the spawning goroutine and their channels\<close>

datatype cphase = NotStarted | Polling | Putting | Getting Err | Returning | Leaving | Gone

text \<open>
  \<open>Polling\<close> is the \<open>select\<close> of \<open>OneClientPut\<close>, \<open>Putting\<close> and \<open>Getting\<close> are the calls of \<open>OnePut\<close>, \<open>Returning\<close> waits to send
  the result on \<open>ca\<close>, \<open>Leaving\<close> deletes the clerk. The spawning goroutine starts the clients, sleeps, sends \<open>done\<close> \<open>n\<close>
  times, then receives the results in order.
\<close>

datatype mphase = Spawning nat | Sleeping | Signalling nat | Collecting "ClntRes list" | Returned "ClntRes list" | Fatalf

record spawn =
  sStore :: KVServer
  sPhase :: "nat \<Rightarrow> cphase"
  sVer :: "nat \<Rightarrow> Tversion"
  sRes :: "nat \<Rightarrow> ClntRes"
  sMain :: mphase

definition SpawnClients :: "KVServer \<Rightarrow> spawn" where
  "SpawnClients kv = \<lparr>sStore = kv, sPhase = (\<lambda>_. NotStarted), sVer = (\<lambda>_. 0),
     sRes = (\<lambda>_. \<lparr>Nok = 0, Nmaybe = 0\<rparr>), sMain = Spawning 0\<rparr>"

text \<open>What \<open>OnePut\<close> does with the answer of its get: the version it goes on with, and whether the put counts.\<close>

definition afterGet :: "(string \<Rightarrow> EntryV option) \<Rightarrow> int \<Rightarrow> Tversion \<Rightarrow> Err \<Rightarrow> GetReply \<Rightarrow> (Tversion \<times> bool option) test" where
  "afterGet unmarshal me v err r =
     (if \<not> (err = OK \<or> err = ErrVersion \<or> err = ErrMaybe) \<or> grErr r \<noteq> OK then Fatal
      else case unmarshal (grValue r) of
        None \<Rightarrow> Fatal
      | Some e \<Rightarrow>
          if err = OK \<and> grVersion r = v + 1 \<and> evId e \<noteq> me \<and> evV e \<noteq> v then Fatal
          else Ret (grVersion r, if err = OK then Some True else if err = ErrMaybe then Some False else None))"

definition counted :: "bool \<Rightarrow> ClntRes \<Rightarrow> ClntRes" where
  "counted okay res = (if okay then res\<lparr>Nok := Nok res + 1\<rparr> else res\<lparr>Nmaybe := Nmaybe res + 1\<rparr>)"

definition offering :: "nat \<Rightarrow> mphase \<Rightarrow> bool" where
  "offering n m \<longleftrightarrow> (\<exists>k < n. m = Signalling k)"

inductive pstep ::
  "nat \<Rightarrow> string \<Rightarrow> bool \<Rightarrow> (EntryV \<Rightarrow> string option) \<Rightarrow> (string \<Rightarrow> EntryV option) \<Rightarrow> spawn \<Rightarrow> spawn \<Rightarrow> bool"
  for n key reliable marshal unmarshal where
  m_spawn: "sMain s = Spawning k \<Longrightarrow> k < n \<Longrightarrow>
    pstep n key reliable marshal unmarshal s (s\<lparr>sMain := Spawning (k + 1), sPhase := (sPhase s)(k := Polling)\<rparr>)"
| m_sleep: "sMain s = Spawning n \<Longrightarrow> pstep n key reliable marshal unmarshal s (s\<lparr>sMain := Sleeping\<rparr>)"
| m_wake: "sMain s = Sleeping \<Longrightarrow> pstep n key reliable marshal unmarshal s (s\<lparr>sMain := Signalling 0\<rparr>)"
| m_collect: "sMain s = Signalling n \<Longrightarrow> pstep n key reliable marshal unmarshal s (s\<lparr>sMain := Collecting []\<rparr>)"
| m_recv: "sMain s = Collecting rs \<Longrightarrow> length rs < n \<Longrightarrow> sPhase s (length rs) = Returning \<Longrightarrow>
    pstep n key reliable marshal unmarshal s
      (s\<lparr>sMain := Collecting (rs @ [sRes s (length rs)]), sPhase := (sPhase s)(length rs := Leaving)\<rparr>)"
| m_return: "sMain s = Collecting rs \<Longrightarrow> length rs = n \<Longrightarrow> pstep n key reliable marshal unmarshal s (s\<lparr>sMain := Returned rs\<rparr>)"
| c_done: "i < n \<Longrightarrow> sPhase s i = Polling \<Longrightarrow> sMain s = Signalling k \<Longrightarrow> k < n \<Longrightarrow>
    pstep n key reliable marshal unmarshal s (s\<lparr>sMain := Signalling (k + 1), sPhase := (sPhase s)(i := Returning)\<rparr>)"
| c_round: "i < n \<Longrightarrow> sPhase s i = Polling \<Longrightarrow> \<not> offering n (sMain s) \<Longrightarrow> sMain s \<noteq> Fatalf \<Longrightarrow>
    pstep n key reliable marshal unmarshal s (s\<lparr>sPhase := (sPhase s)(i := Putting)\<rparr>)"
| c_put: "i < n \<Longrightarrow> sPhase s i = Putting \<Longrightarrow> sMain s \<noteq> Fatalf \<Longrightarrow> marshal \<lparr>evId = int i, evV = sVer s i\<rparr> = Some b \<Longrightarrow>
    Put \<lparr>paKey = key, paValue = b, paVersion = sVer s i\<rparr> (sStore s) = (kv, r) \<Longrightarrow>
    err = prErr r \<or> \<not> reliable \<and> err = ErrMaybe \<Longrightarrow>
    pstep n key reliable marshal unmarshal s (s\<lparr>sStore := kv, sPhase := (sPhase s)(i := Getting err)\<rparr>)"
| c_marshal: "i < n \<Longrightarrow> sPhase s i = Putting \<Longrightarrow> marshal \<lparr>evId = int i, evV = sVer s i\<rparr> = None \<Longrightarrow>
    pstep n key reliable marshal unmarshal s (s\<lparr>sMain := Fatalf\<rparr>)"
| c_get: "i < n \<Longrightarrow> sPhase s i = Getting err \<Longrightarrow> sMain s \<noteq> Fatalf \<Longrightarrow>
    afterGet unmarshal (int i) (sVer s i) err (Get \<lparr>gaKey = key\<rparr> (sStore s)) = Ret (v, out) \<Longrightarrow>
    pstep n key reliable marshal unmarshal s
      (case out of
         None \<Rightarrow> s\<lparr>sVer := (sVer s)(i := v), sPhase := (sPhase s)(i := Putting)\<rparr>
       | Some okay \<Rightarrow> s\<lparr>sVer := (sVer s)(i := v), sRes := (sRes s)(i := counted okay (sRes s i)), sPhase := (sPhase s)(i := Polling)\<rparr>)"
| c_fatal: "i < n \<Longrightarrow> sPhase s i = Getting err \<Longrightarrow>
    afterGet unmarshal (int i) (sVer s i) err (Get \<lparr>gaKey = key\<rparr> (sStore s)) = Fatal \<Longrightarrow>
    pstep n key reliable marshal unmarshal s (s\<lparr>sMain := Fatalf\<rparr>)"
| c_leave: "i < n \<Longrightarrow> sPhase s i = Leaving \<Longrightarrow> pstep n key reliable marshal unmarshal s (s\<lparr>sPhase := (sPhase s)(i := Gone)\<rparr>)"

inductive preach ::
  "nat \<Rightarrow> string \<Rightarrow> bool \<Rightarrow> (EntryV \<Rightarrow> string option) \<Rightarrow> (string \<Rightarrow> EntryV option) \<Rightarrow> KVServer \<Rightarrow> spawn \<Rightarrow> bool"
  for n key reliable marshal unmarshal kv where
  p_init: "preach n key reliable marshal unmarshal kv (SpawnClients kv)"
| p_step: "preach n key reliable marshal unmarshal kv s \<Longrightarrow> pstep n key reliable marshal unmarshal s s' \<Longrightarrow>
    preach n key reliable marshal unmarshal kv s'"

subsection \<open>Every put that succeeds is counted\<close>

definition cur :: "string \<Rightarrow> KVServer \<Rightarrow> Tversion" where
  "cur key kv = (case data kv key of None \<Rightarrow> 0 | Some e \<Rightarrow> Version e)"

definition oks :: "spawn \<Rightarrow> nat \<Rightarrow> int" where
  "oks s i = Nok (sRes s i) + (if sPhase s i = Getting OK then 1 else 0)"

definition maybes :: "spawn \<Rightarrow> nat \<Rightarrow> int" where
  "maybes s i = Nmaybe (sRes s i) + (if sPhase s i = Getting ErrMaybe then 1 else 0)"

definition store_ok :: "string \<Rightarrow> (string \<Rightarrow> EntryV option) \<Rightarrow> KVServer \<Rightarrow> bool" where
  "store_ok key unmarshal kv \<longleftrightarrow>
     (\<forall>e. data kv key = Some e \<longrightarrow> (\<exists>ev. unmarshal (Value e) = Some ev \<and> evV ev = Version e - 1))"

definition puts_inv :: "nat \<Rightarrow> string \<Rightarrow> bool \<Rightarrow> (string \<Rightarrow> EntryV option) \<Rightarrow> spawn \<Rightarrow> bool" where
  "puts_inv n key reliable unmarshal s \<longleftrightarrow>
     (\<exists>V. cur key (sStore s) = word_of_int V \<and> (\<Sum>i<n. oks s i) \<le> V \<and> V \<le> (\<Sum>i<n. oks s i) + (\<Sum>i<n. maybes s i)) \<and>
     (\<forall>i<n. 0 \<le> Nok (sRes s i) \<and> 0 \<le> Nmaybe (sRes s i) \<and> (reliable \<longrightarrow> maybes s i = 0)) \<and>
     (data (sStore s) key = None \<longrightarrow> (\<forall>i<n. sVer s i = 0 \<and> oks s i = 0 \<and> maybes s i = 0 \<and> (\<forall>e. sPhase s i \<noteq> Getting e))) \<and>
     store_ok key unmarshal (sStore s) \<and>
     (\<forall>i<n. \<forall>e. sPhase s i = Getting e \<longrightarrow> e = OK \<or> e = ErrVersion \<or> e = ErrMaybe) \<and> sMain s \<noteq> Fatalf"

lemma puts_inv_frame:
  assumes "puts_inv n key reliable unmarshal s" "sStore s' = sStore s" "sVer s' = sVer s" "sRes s' = sRes s" "sMain s' \<noteq> Fatalf"
    and "\<And>i e. i < n \<Longrightarrow> sPhase s' i = Getting e \<longleftrightarrow> sPhase s i = Getting e"
  shows "puts_inv n key reliable unmarshal s'"
proof -
  have "oks s' i = oks s i" "maybes s' i = maybes s i" if "i < n" for i using assms(4,6) that by (simp_all add: oks_def maybes_def)
  then show ?thesis using assms by (simp add: puts_inv_def)
qed

lemma sum_change:
  fixes f g :: "nat \<Rightarrow> int"
  assumes "i < n" "\<And>j. j < n \<Longrightarrow> j \<noteq> i \<Longrightarrow> g j = f j"
  shows "(\<Sum>j<n. g j) = (\<Sum>j<n. f j) + (g i - f i)"
proof -
  have "(\<Sum>j<n. h j) = h i + (\<Sum>j \<in> {..<n} - {i}. h j)" for h :: "nat \<Rightarrow> int" using assms(1) by (simp add: sum.remove)
  moreover have "(\<Sum>j \<in> {..<n} - {i}. g j) = (\<Sum>j \<in> {..<n} - {i}. f j)" using assms(2) by (intro sum.cong) auto
  ultimately show ?thesis by simp
qed

lemma puts_inv_put:
  assumes inv: "puts_inv n key reliable unmarshal s" and i: "i < n" "sPhase s i = Putting"
    and put: "Put \<lparr>paKey = key, paValue = b, paVersion = sVer s i\<rparr> (sStore s) = (kv, r)" "err = prErr r \<or> \<not> reliable \<and> err = ErrMaybe"
    and json: "unmarshal b = Some \<lparr>evId = int i, evV = sVer s i\<rparr>"
  shows "puts_inv n key reliable unmarshal (s\<lparr>sStore := kv, sPhase := (sPhase s)(i := Getting err)\<rparr>)"
proof -
  let ?s = "s\<lparr>sStore := kv, sPhase := (sPhase s)(i := Getting err)\<rparr>"
  let ?eff = "if prErr r = OK then 1 else 0 :: int"
  obtain V where V: "cur key (sStore s) = word_of_int V" "(\<Sum>i<n. oks s i) \<le> V" "V \<le> (\<Sum>i<n. oks s i) + (\<Sum>i<n. maybes s i)"
    using inv by (auto simp: puts_inv_def)
  have missing: "data (sStore s) key = None \<Longrightarrow> sVer s i = 0" using inv i by (auto simp: puts_inv_def)
  have eff: "cur key kv = word_of_int (V + ?eff)" "prErr r = OK \<or> prErr r = ErrVersion \<and> kv = sStore s"
    "data kv key \<noteq> None" "store_ok key unmarshal kv"
    using put(1) V(1) missing json inv
    by (auto simp: Put_def cur_def store_ok_def puts_inv_def split: option.splits if_splits)
  have o: "(\<Sum>j<n. oks ?s j) = (\<Sum>j<n. oks s j) + (if err = OK then 1 else 0)"
    by (subst sum_change [OF i(1), of "oks ?s" "oks s"]) (use i in \<open>auto simp: oks_def\<close>)
  have m: "(\<Sum>j<n. maybes ?s j) = (\<Sum>j<n. maybes s j) + (if err = ErrMaybe then 1 else 0)"
    by (subst sum_change [OF i(1), of "maybes ?s" "maybes s"]) (use i in \<open>auto simp: maybes_def\<close>)
  have "(\<Sum>j<n. oks ?s j) \<le> V + ?eff" "V + ?eff \<le> (\<Sum>j<n. oks ?s j) + (\<Sum>j<n. maybes ?s j)"
    using V(2,3) eff(2) put(2) unfolding o m by auto
  moreover have "maybes ?s j = 0" if "reliable" "j < n" for j
    using inv that put(2) eff(2) i by (auto simp: puts_inv_def maybes_def split: if_splits)
  moreover have "\<forall>j<n. \<forall>e. sPhase ?s j = Getting e \<longrightarrow> e = OK \<or> e = ErrVersion \<or> e = ErrMaybe"
    using inv put(2) eff(2) by (auto simp: puts_inv_def)
  moreover have "0 \<le> Nok (sRes ?s j) \<and> 0 \<le> Nmaybe (sRes ?s j)" if "j < n" for j using inv that by (simp add: puts_inv_def)
  moreover have "sMain ?s \<noteq> Fatalf" using inv by (simp add: puts_inv_def)
  moreover have "sStore ?s = kv" by simp
  ultimately show ?thesis unfolding puts_inv_def using eff(1,3,4) by (metis (no_types, lifting))
qed

lemma afterGet_total:
  assumes "puts_inv n key reliable unmarshal s" "i < n" "sPhase s i = Getting err"
  shows "\<exists>out. afterGet unmarshal (int i) (sVer s i) err (Get \<lparr>gaKey = key\<rparr> (sStore s)) = Ret (cur key (sStore s), out) \<and>
    (out = Some True \<longleftrightarrow> err = OK) \<and> (out = Some False \<longleftrightarrow> err = ErrMaybe) \<and> data (sStore s) key \<noteq> None"
proof -
  obtain e where e: "data (sStore s) key = Some e" using assms by (fastforce simp: puts_inv_def)
  obtain ev where ev: "unmarshal (Value e) = Some ev" "evV ev = Version e - 1" using assms(1) e by (auto simp: puts_inv_def store_ok_def)
  have "err = OK \<or> err = ErrVersion \<or> err = ErrMaybe" using assms by (simp add: puts_inv_def)
  then show ?thesis using e ev by (auto simp: afterGet_def Get_def cur_def)
qed

lemma puts_inv_get:
  assumes inv: "puts_inv n key reliable unmarshal s" and i: "i < n" "sPhase s i = Getting err"
    and get: "afterGet unmarshal (int i) (sVer s i) err (Get \<lparr>gaKey = key\<rparr> (sStore s)) = Ret (v, out)"
  shows "puts_inv n key reliable unmarshal
      (case out of
         None \<Rightarrow> s\<lparr>sVer := (sVer s)(i := v), sPhase := (sPhase s)(i := Putting)\<rparr>
       | Some okay \<Rightarrow> s\<lparr>sVer := (sVer s)(i := v), sRes := (sRes s)(i := counted okay (sRes s i)), sPhase := (sPhase s)(i := Polling)\<rparr>)"
    (is "puts_inv n key reliable unmarshal ?s")
proof -
  have out: "out = Some True \<longleftrightarrow> err = OK" "out = Some False \<longleftrightarrow> err = ErrMaybe" "data (sStore s) key \<noteq> None"
    using afterGet_total [OF inv i] get by auto
  have "oks ?s j = oks s j" "maybes ?s j = maybes s j" for j
    using i(2) out by (auto simp: oks_def maybes_def counted_def split: option.splits if_splits)
  moreover have "sStore ?s = sStore s" "sMain ?s = sMain s" by (auto split: option.splits)
  moreover have "0 \<le> Nok (sRes ?s j) \<and> 0 \<le> Nmaybe (sRes ?s j)" if "j < n" for j
    using inv that by (auto simp: puts_inv_def counted_def split: option.splits)
  moreover have "sPhase ?s j = Getting e \<Longrightarrow> sPhase s j = Getting e" for j e by (auto split: option.splits if_splits)
  ultimately show ?thesis using inv out(3) by (auto simp: puts_inv_def)
qed

definition codec :: "(EntryV \<Rightarrow> string option) \<Rightarrow> (string \<Rightarrow> EntryV option) \<Rightarrow> bool" where
  "codec marshal unmarshal \<longleftrightarrow> (\<forall>e. \<exists>b. marshal e = Some b \<and> unmarshal b = Some e)"

subsection \<open>The signals and the results\<close>

definition stopped :: "cphase \<Rightarrow> bool" where
  "stopped p \<longleftrightarrow> p = Returning \<or> p = Leaving \<or> p = Gone"

definition collected :: "cphase \<Rightarrow> bool" where
  "collected p \<longleftrightarrow> p = Leaving \<or> p = Gone"

fun stops :: "nat \<Rightarrow> mphase \<Rightarrow> nat" where
  "stops n (Signalling k) = k"
| "stops n (Collecting rs) = n"
| "stops n (Returned rs) = n"
| "stops n _ = 0"

fun results_ok :: "nat \<Rightarrow> spawn \<Rightarrow> mphase \<Rightarrow> bool" where
  "results_ok n s (Collecting rs) \<longleftrightarrow> length rs \<le> n \<and> rs = map (sRes s) [0..<length rs] \<and> (\<forall>i<n. collected (sPhase s i) \<longleftrightarrow> i < length rs)"
| "results_ok n s (Returned rs) \<longleftrightarrow> rs = map (sRes s) [0..<n]"
| "results_ok n s (Spawning k) \<longleftrightarrow> k \<le> n \<and> (\<forall>i<n. sPhase s i = NotStarted \<longleftrightarrow> k \<le> i)"
| "results_ok n s (Signalling k) \<longleftrightarrow> k \<le> n \<and> (\<forall>i<n. \<not> collected (sPhase s i))"
| "results_ok n s m \<longleftrightarrow> True"

definition ctl_inv :: "nat \<Rightarrow> spawn \<Rightarrow> bool" where
  "ctl_inv n s \<longleftrightarrow> card {i. i < n \<and> stopped (sPhase s i)} = stops n (sMain s) \<and> results_ok n s (sMain s) \<and>
     (\<forall>i<n. sPhase s i = NotStarted \<longrightarrow> (\<exists>k. sMain s = Spawning k))"

lemma all_stopped:
  assumes "ctl_inv n s" "stops n (sMain s) = n" "i < n"
  shows "stopped (sPhase s i)"
proof -
  have "{i. i < n \<and> stopped (sPhase s i)} = {..<n}"
    using assms(1,2) by (intro card_subset_eq) (auto simp: ctl_inv_def)
  then show ?thesis using assms(3) by auto
qed

lemma none_stopped:
  assumes "ctl_inv n s" "stops n (sMain s) = 0" "i < n"
  shows "\<not> stopped (sPhase s i)"
proof -
  have "{i. i < n \<and> stopped (sPhase s i)} = {}" using assms(1,2) by (simp add: ctl_inv_def)
  then show ?thesis using assms(3) by blast
qed

lemma ctl_inv_move:
  assumes "ctl_inv n s" "i < n" "\<not> stopped (sPhase s i)" "sPhase s i \<noteq> NotStarted" "\<not> stopped p" "p \<noteq> NotStarted"
    and "sPhase s' = (sPhase s)(i := p)" "sMain s' = sMain s"
  shows "ctl_inv n s'"
proof -
  have "{j. j < n \<and> stopped (sPhase s' j)} = {j. j < n \<and> stopped (sPhase s j)}" using assms(3,5,7) by auto
  moreover have "stops n (sMain s) \<noteq> n" using all_stopped [OF assms(1) _ assms(2)] assms(3) by blast
  then have "results_ok n s' (sMain s)"
    using assms by (cases "sMain s") (auto simp: ctl_inv_def stopped_def collected_def)
  ultimately show ?thesis using assms by (auto simp: ctl_inv_def)
qed

lemma ctl_inv_stop:
  assumes "ctl_inv n s" "i < n" "sPhase s i = Polling" "sMain s = Signalling k" "k < n"
  shows "ctl_inv n (s\<lparr>sMain := Signalling (k + 1), sPhase := (sPhase s)(i := Returning)\<rparr>)"
proof -
  have "{j. j < n \<and> stopped (((sPhase s)(i := Returning)) j)} = insert i {j. j < n \<and> stopped (sPhase s j)}"
    using assms(2) by (auto simp: stopped_def)
  moreover have "i \<notin> {j. j < n \<and> stopped (sPhase s j)}" using assms(3) by (simp add: stopped_def)
  ultimately have "card {j. j < n \<and> stopped (((sPhase s)(i := Returning)) j)} = k + 1"
    using assms(1,4) by (simp add: ctl_inv_def)
  then show ?thesis using assms by (auto simp: ctl_inv_def collected_def)
qed

lemma ctl_inv_later:
  assumes "ctl_inv n s" "i < n" "stopped (sPhase s i)" "collected p" "sPhase s' = (sPhase s)(i := p)"
    and "stops n (sMain s') = stops n (sMain s)" "results_ok n s' (sMain s')" "\<nexists>k. sMain s = Spawning k"
  shows "ctl_inv n s'"
proof -
  have "{j. j < n \<and> stopped (sPhase s' j)} = {j. j < n \<and> stopped (sPhase s j)}"
    using assms(2-5) by (auto simp: stopped_def collected_def)
  then show ?thesis using assms by (auto simp: ctl_inv_def collected_def)
qed

lemma ctl_inv_step:
  assumes "pstep n key reliable marshal unmarshal s s'" "ctl_inv n s" "sMain s' \<noteq> Fatalf"
  shows "ctl_inv n s'"
  using assms
proof (induction rule: pstep.induct)
  case (m_spawn s k)
  have "{j. j < n \<and> stopped (((sPhase s)(k := Polling)) j)} = {}"
    using none_stopped [OF m_spawn(3)] m_spawn(1) by (auto simp: stopped_def)
  then show ?case using m_spawn by (auto simp: ctl_inv_def Suc_le_eq)
next
  case (m_sleep s)
  then show ?case by (auto simp: ctl_inv_def)
next
  case (m_wake s)
  have "\<not> collected (sPhase s i)" if "i < n" for i
    using none_stopped [OF m_wake(2) _ that] m_wake(1) by (auto simp: stopped_def collected_def)
  then show ?case using m_wake by (auto simp: ctl_inv_def)
next
  case (m_collect s)
  then show ?case by (auto simp: ctl_inv_def)
next
  case (m_recv s rs)
  then show ?case
    by (intro ctl_inv_later [OF m_recv(4,2)]) (auto simp: ctl_inv_def stopped_def collected_def less_Suc_eq)
next
  case (m_return s rs)
  then show ?case by (auto simp: ctl_inv_def)
next
  case (c_done i s k)
  then show ?case by (intro ctl_inv_stop)
next
  case (c_leave i s)
  have "stops n (sMain s) \<noteq> 0" using none_stopped [OF c_leave(3) _ c_leave(1)] c_leave(2) by (auto simp: stopped_def)
  then show ?case
    using c_leave by (intro ctl_inv_later [OF c_leave(3,1)]; cases "sMain s") (auto simp: ctl_inv_def stopped_def collected_def)
next
  case (c_get i s err v out)
  then show ?case by (intro ctl_inv_move [OF c_get(5,1), where p = "case out of None \<Rightarrow> Putting | Some okay \<Rightarrow> Polling"])
      (auto simp: stopped_def split: option.splits)
qed (auto intro: ctl_inv_move simp: stopped_def)

lemma puts_inv_step:
  assumes "pstep n key reliable marshal unmarshal s s'" "puts_inv n key reliable unmarshal s" "codec marshal unmarshal" "ctl_inv n s"
  shows "puts_inv n key reliable unmarshal s'"
  using assms
proof (induction rule: pstep.induct)
  case (m_spawn s k)
  have "sPhase s k = NotStarted" using m_spawn by (simp add: ctl_inv_def)
  then show ?case by (intro puts_inv_frame [OF m_spawn(3)]) auto
next
  case (m_recv s rs)
  then show ?case by (intro puts_inv_frame [OF m_recv(4)]) auto
next
  case (c_done i s k)
  then show ?case by (intro puts_inv_frame [OF c_done(5)]) auto
next
  case (c_round i s)
  then show ?case by (intro puts_inv_frame [OF c_round(5)]) auto
next
  case (c_put i s b kv r err)
  have "unmarshal b = Some \<lparr>evId = int i, evV = sVer s i\<rparr>" using c_put(4,8) unfolding codec_def by (metis option.inject)
  then show ?case by (intro puts_inv_put [OF c_put(7,1,2,5,6)])
next
  case (c_marshal i s)
  then show ?case unfolding codec_def by (metis option.distinct(1))
next
  case (c_get i s err v out)
  show ?case by (rule puts_inv_get [OF c_get(5,1,2,4)])
next
  case (c_fatal i s err)
  then show ?case using afterGet_total [OF c_fatal(4,1,2)] by auto
next
  case (c_leave i s)
  then show ?case by (intro puts_inv_frame [OF c_leave(3)]) (auto simp: puts_inv_def)
qed (erule puts_inv_frame; simp)+

lemma preach_inv:
  assumes "preach n key reliable marshal unmarshal kv s" "codec marshal unmarshal" "data kv key = None"
  shows "puts_inv n key reliable unmarshal s \<and> ctl_inv n s"
  using assms(1)
proof (induction rule: preach.induct)
  case p_init
  have "{i. i < n \<and> stopped NotStarted} = {}" by (simp add: stopped_def)
  then show ?case
    using assms(3) by (auto simp: puts_inv_def ctl_inv_def SpawnClients_def cur_def oks_def maybes_def store_ok_def intro!: exI [of _ 0])
next
  case (p_step s s')
  then show ?case using puts_inv_step [OF p_step(2)] ctl_inv_step [OF p_step(2)] assms(2) by (auto simp: puts_inv_def)
qed

subsection \<open>No goroutine waits for ever\<close>

lemma pstep_progress:
  assumes "puts_inv n key reliable unmarshal s" "ctl_inv n s" "codec marshal unmarshal" "\<nexists>rs. sMain s = Returned rs"
  shows "\<exists>s'. pstep n key reliable marshal unmarshal s s'"
proof (cases "sMain s")
  case (Spawning k)
  then have "k \<le> n" using assms(2) by (simp add: ctl_inv_def)
  show ?thesis
  proof (cases "k = n")
    case True
    then show ?thesis using m_sleep Spawning by blast
  next
    case False
    then show ?thesis using m_spawn [OF Spawning, of n] \<open>k \<le> n\<close> by (intro exI) simp
  qed
next
  case Sleeping
  then show ?thesis using m_wake by blast
next
  case (Signalling k)
  then have k: "k \<le> n" using assms(2) by (simp add: ctl_inv_def)
  have alive: "sMain s \<noteq> Fatalf" using Signalling by simp
  show ?thesis
  proof (cases "k = n")
    case True
    then show ?thesis using m_collect Signalling by blast
  next
    case False
    have "{i. i < n \<and> stopped (sPhase s i)} \<noteq> {..<n}"
    proof
      assume "{i. i < n \<and> stopped (sPhase s i)} = {..<n}"
      then show False using assms(2) Signalling False by (simp add: ctl_inv_def)
    qed
    then obtain i where i: "i < n" "\<not> stopped (sPhase s i)" by auto
    have "sPhase s i \<noteq> NotStarted" using assms(2) i(1) Signalling by (auto simp: ctl_inv_def)
    then consider "sPhase s i = Polling" | "sPhase s i = Putting" | err where "sPhase s i = Getting err"
      using i(2) by (cases "sPhase s i") (auto simp: stopped_def)
    then show ?thesis
    proof cases
      case 1
      have "k < n" using k False by simp
      from c_done [OF i(1) 1 Signalling this] show ?thesis by blast
    next
      case 2
      obtain b where b: "marshal \<lparr>evId = int i, evV = sVer s i\<rparr> = Some b" using assms(3) unfolding codec_def by metis
      obtain kv r where "Put \<lparr>paKey = key, paValue = b, paVersion = sVer s i\<rparr> (sStore s) = (kv, r)" by fastforce
      then show ?thesis using c_put [where marshal = marshal and i = i and s = s and n = n, OF i(1) 2 alive b] by blast
    next
      case 3
      then obtain out where "afterGet unmarshal (int i) (sVer s i) err (Get \<lparr>gaKey = key\<rparr> (sStore s)) = Ret (cur key (sStore s), out)"
        using afterGet_total [OF assms(1) i(1)] by blast
      then show ?thesis using c_get [OF i(1) 3 alive] by blast
    qed
  qed
next
  case (Collecting rs)
  then have rs: "length rs \<le> n" "\<forall>i<n. collected (sPhase s i) \<longleftrightarrow> i < length rs" using assms(2) by (simp_all add: ctl_inv_def)
  show ?thesis
  proof (cases "length rs = n")
    case True
    then show ?thesis using m_return [OF Collecting] by blast
  next
    case False
    then have l: "length rs < n" using rs(1) by simp
    then have "stopped (sPhase s (length rs))" using all_stopped [OF assms(2)] Collecting by simp
    then have "sPhase s (length rs) = Returning" using rs(2) l by (auto simp: stopped_def collected_def)
    then show ?thesis using m_recv [OF Collecting l] by blast
  qed
next
  case (Returned rs)
  then show ?thesis using assms(4) by blast
next
  case Fatalf
  then show ?thesis using assms(1) by (simp add: puts_inv_def)
qed

fun mweight :: "nat \<Rightarrow> mphase \<Rightarrow> nat" where
  "mweight n (Signalling k) = 2 * n + 2 - k"
| "mweight n (Collecting rs) = n + 1 - length rs"
| "mweight n _ = 0"

definition cweight :: "nat \<Rightarrow> Tversion \<Rightarrow> Tversion \<Rightarrow> cphase \<Rightarrow> nat" where
  "cweight n c v p =
     (case p of NotStarted \<Rightarrow> 0 | Gone \<Rightarrow> 0 | Leaving \<Rightarrow> 1 | Returning \<Rightarrow> 2 | Polling \<Rightarrow> 3
      | Getting e \<Rightarrow> (if e = OK \<or> e = ErrMaybe then 4 else 2 * n + 7)
      | Putting \<Rightarrow> (if v = c then 2 * n + 6 else 2 * n + 8))"

definition todo :: "nat \<Rightarrow> string \<Rightarrow> spawn \<Rightarrow> nat" where
  "todo n key s = mweight n (sMain s) + (\<Sum>i<n. cweight n (cur key (sStore s)) (sVer s i) (sPhase s i))"

lemma sum_spoil:
  fixes f g :: "nat \<Rightarrow> nat"
  assumes "i < n" "\<And>j. j < n \<Longrightarrow> j \<noteq> i \<Longrightarrow> g j \<le> f j + d" "g i + d * n < f i"
  shows "(\<Sum>j<n. g j) < (\<Sum>j<n. f j)"
proof -
  have s: "(\<Sum>j<n. h j) = h i + (\<Sum>j \<in> {..<n} - {i}. h j)" for h :: "nat \<Rightarrow> nat" using assms(1) by (simp add: sum.remove)
  have "(\<Sum>j \<in> {..<n} - {i}. g j) \<le> (\<Sum>j \<in> {..<n} - {i}. f j + d)" using assms(2) by (intro sum_mono) auto
  also have "\<dots> = (\<Sum>j \<in> {..<n} - {i}. f j) + (n - 1) * d" using assms(1) by (simp add: sum.distrib)
  also have "(n - 1) * d \<le> d * n" by (simp add: algebra_simps)
  finally show ?thesis using assms(3) unfolding s [of g] s [of f] by linarith
qed

lemma todo_client:
  assumes "i < n" "sStore s' = sStore s" "\<And>j. j \<noteq> i \<Longrightarrow> sVer s' j = sVer s j \<and> sPhase s' j = sPhase s j"
    and "cweight n (cur key (sStore s)) (sVer s' i) (sPhase s' i) < cweight n (cur key (sStore s)) (sVer s i) (sPhase s i)"
    and "mweight n (sMain s') \<le> mweight n (sMain s)"
  shows "todo n key s' < todo n key s"
proof -
  have "(\<Sum>j<n. cweight n (cur key (sStore s')) (sVer s' j) (sPhase s' j)) < (\<Sum>j<n. cweight n (cur key (sStore s)) (sVer s j) (sPhase s j))"
    by (rule sum_spoil [OF assms(1), where d = 0]) (use assms(2-4) in simp_all)
  then show ?thesis using assms(5) by (simp add: todo_def)
qed

fun awake :: "mphase \<Rightarrow> bool" where
  "awake (Spawning k) = False"
| "awake Sleeping = False"
| "awake _ = True"

lemma todo_put:
  assumes inv: "puts_inv n key reliable unmarshal s" and i: "i < n" "sPhase s i = Putting"
    and put: "Put \<lparr>paKey = key, paValue = b, paVersion = sVer s i\<rparr> (sStore s) = (kv, r)" "err = prErr r \<or> \<not> reliable \<and> err = ErrMaybe"
  shows "todo n key (s\<lparr>sStore := kv, sPhase := (sPhase s)(i := Getting err)\<rparr>) < todo n key s"
proof (cases "prErr r = OK")
  case True
  have fresh: "sVer s i = cur key (sStore s)"
    using put(1) True by (auto simp: Put_def cur_def split: option.splits if_splits)
  have "cweight n (cur key kv) v p \<le> cweight n (cur key (sStore s)) v p + 2" for v p by (cases p) (auto simp: cweight_def)
  then have "(\<Sum>j<n. cweight n (cur key kv) (sVer s j) (((sPhase s)(i := Getting err)) j)) < (\<Sum>j<n. cweight n (cur key (sStore s)) (sVer s j) (sPhase s j))"
    by (intro sum_spoil [OF i(1), where d = 2]) (use i(2) fresh True put(2) in \<open>auto simp: cweight_def\<close>)
  then show ?thesis by (simp add: todo_def)
next
  case False
  have "data (sStore s) key = None \<Longrightarrow> sVer s i = 0" using inv i by (auto simp: puts_inv_def)
  then have st: "kv = sStore s" "prErr r = ErrVersion" "sVer s i \<noteq> cur key (sStore s)"
    using put(1) False by (auto simp: Put_def cur_def split: option.splits if_splits)
  show ?thesis using i st put(2) by (intro todo_client [OF i(1)]) (auto simp: cweight_def)
qed

lemma pstep_todo:
  assumes "pstep n key reliable marshal unmarshal s s'" "puts_inv n key reliable unmarshal s" "ctl_inv n s" "codec marshal unmarshal" "awake (sMain s)"
  shows "todo n key s' < todo n key s \<and> awake (sMain s')"
  using assms
proof (induction rule: pstep.induct)
  case (m_collect s)
  then show ?case by (simp add: todo_def)
next
  case (m_recv s rs)
  then show ?case by (intro conjI todo_client [OF m_recv(2)]) (auto simp: cweight_def)
next
  case (m_return s rs)
  then show ?case by (simp add: todo_def)
next
  case (c_done i s k)
  then show ?case by (intro conjI todo_client [OF c_done(1)]) (auto simp: cweight_def)
next
  case (c_round i s)
  have "stops n (sMain s) = n" using c_round(3,4,6,7,8) by (cases "sMain s") (auto simp: offering_def ctl_inv_def)
  from all_stopped [OF c_round(6) this c_round(1)] show ?case using c_round(2) by (simp add: stopped_def)
next
  case (c_put i s b kv r err)
  then show ?case using todo_put [OF c_put(7,1,2,5,6)] by simp
next
  case (c_marshal i s)
  then show ?case unfolding codec_def by (metis option.distinct(1))
next
  case (c_get i s err v out)
  obtain out' where "v = cur key (sStore s)" "out = out'" "out' = Some True \<longleftrightarrow> err = OK" "out' = Some False \<longleftrightarrow> err = ErrMaybe"
    using afterGet_total [OF c_get(5,1,2)] c_get(4) by auto
  moreover have "out = None \<or> out = Some True \<or> out = Some False" by (cases out) auto
  ultimately show ?case using c_get by (intro conjI todo_client [OF c_get(1)]) (auto simp: cweight_def split: option.splits)
next
  case (c_fatal i s err)
  then show ?case using afterGet_total [OF c_fatal(4,1,2)] by auto
next
  case (c_leave i s)
  then show ?case by (intro conjI todo_client [OF c_leave(1)]) (auto simp: cweight_def)
qed simp_all

lemma psteps_todo:
  assumes "(pstep n key reliable marshal unmarshal ^^ m) s s'" "puts_inv n key reliable unmarshal s" "ctl_inv n s" "codec marshal unmarshal" "awake (sMain s)"
  shows "m + todo n key s' \<le> todo n key s"
  using assms
proof (induction m arbitrary: s)
  case (Suc m)
  obtain t where t: "pstep n key reliable marshal unmarshal s t" "(pstep n key reliable marshal unmarshal ^^ m) t s'"
    using relpowp_Suc_D2 [OF Suc.prems(1)] by blast
  have p: "puts_inv n key reliable unmarshal t" by (rule puts_inv_step [OF t(1) Suc.prems(2,4,3)])
  then have "ctl_inv n t" using ctl_inv_step [OF t(1) Suc.prems(3)] by (simp add: puts_inv_def)
  then show ?case using Suc.IH [OF t(2) p _ Suc.prems(4)] pstep_todo [OF t(1) Suc.prems(2-5)] by simp
qed simp


subsection \<open>The puts that were counted are the puts that happened\<close>

lemma foldl_results:
  "foldl (\<lambda>res r. res\<lparr>Nok := Nok res + Nok r, Nmaybe := Nmaybe res + Nmaybe r\<rparr>) res rs =
     res\<lparr>Nok := Nok res + sum_list (map Nok rs), Nmaybe := Nmaybe res + sum_list (map Nmaybe rs)\<rparr>"
  by (induction rs arbitrary: res) (simp_all add: add.assoc)

lemma word_of_int_mono: "0 \<le> a \<Longrightarrow> a \<le> b \<Longrightarrow> b < 2 ^ 64 \<Longrightarrow> (word_of_int a :: 64 word) \<le> word_of_int b"
  by (simp add: word_le_def uint_word_of_int)


subsection \<open>A run with one client and one put\<close>

definition evEnc :: "EntryV \<Rightarrow> string option" where
  "evEnc e = Some (encPairs [(evId e, uint (evV e))])"

definition evDec :: "string \<Rightarrow> EntryV option" where
  "evDec b = (case decPairs b of [] \<Rightarrow> None | (i, v) # _ \<Rightarrow> Some \<lparr>evId = i, evV = word_of_int v\<rparr>)"

lemma ev_codec: "codec evEnc evDec"
  unfolding codec_def
proof
  fix e :: EntryV
  show "\<exists>b. evEnc e = Some b \<and> evDec b = Some e"
    by (cases e) (simp add: evEnc_def evDec_def dec_encPairs)
qed

lemma ex_one_put:
  "\<exists>s. preach 1 ''k'' True evEnc evDec MakeKVServer s \<and> sMain s = Signalling 0 \<and> sPhase s 0 = Polling \<and> sRes s 0 = \<lparr>Nok = 1, Nmaybe = 0\<rparr>"
proof -
  let ?P = "preach 1 ''k'' True evEnc evDec MakeKVServer"
  obtain b where b: "evEnc \<lparr>evId = 0, evV = 0\<rparr> = Some b" "evDec b = Some \<lparr>evId = 0, evV = 0\<rparr>"
    using ev_codec unfolding codec_def by blast
  have "\<exists>s. ?P s \<and> sMain s = Spawning 1 \<and> sPhase s 0 = Polling \<and> sRes s 0 = \<lparr>Nok = 0, Nmaybe = 0\<rparr> \<and> sVer s 0 = 0 \<and> data (sStore s) ''k'' = None"
    using p_step [OF p_init m_spawn [of "SpawnClients MakeKVServer" 0 1]]
    by (intro exI conjI) (auto simp: SpawnClients_def MakeKVServer_def)
  then obtain s1 where s1: "?P s1" "sMain s1 = Spawning 1" "sPhase s1 0 = Polling" "sRes s1 0 = \<lparr>Nok = 0, Nmaybe = 0\<rparr>" "sVer s1 0 = 0"
    "data (sStore s1) ''k'' = None" by (elim exE conjE) (rule that)
  let ?s2 = "s1\<lparr>sPhase := (sPhase s1)(0 := Putting)\<rparr>"
  have s2: "?P ?s2" using p_step [OF s1(1) c_round [of 0 1 s1]] s1(2,3) by (simp add: offering_def)
  obtain kv r where put: "Put \<lparr>paKey = ''k'', paValue = b, paVersion = 0\<rparr> (sStore s1) = (kv, r)" by fastforce
  then have kv: "prErr r = OK" "data kv ''k'' = Some \<lparr>Value = b, Version = 1\<rparr>" using s1(6) by (auto simp: Put_def)
  let ?s3 = "?s2\<lparr>sStore := kv, sPhase := (sPhase ?s2)(0 := Getting OK)\<rparr>"
  have s3: "?P ?s3"
    using p_step [OF s2 c_put [of 0 1 ?s2 evEnc b "''k''" kv r OK True]] put kv(1) b(1) s1(2,5) by simp
  have get: "afterGet evDec (int 0) (sVer ?s3 0) OK (Get \<lparr>gaKey = ''k''\<rparr> (sStore ?s3)) = Ret (1, Some True)"
    using kv(2) b(2) s1(5) by (simp add: afterGet_def Get_def)
  let ?s4 = "?s3\<lparr>sVer := (sVer ?s3)(0 := 1), sRes := (sRes ?s3)(0 := counted True (sRes ?s3 0)), sPhase := (sPhase ?s3)(0 := Polling)\<rparr>"
  have s4: "?P ?s4" using p_step [OF s3 c_get [OF _ _ _ get, of 1]] s1(2) by simp
  have s5: "?P (?s4\<lparr>sMain := Sleeping\<rparr>)" using p_step [OF s4 m_sleep] s1(2) by simp
  have "?P ((?s4\<lparr>sMain := Sleeping\<rparr>)\<lparr>sMain := Signalling 0\<rparr>)" using p_step [OF s5 m_wake] by simp
  then show ?thesis using s1(4) by (intro exI conjI) (auto simp: counted_def)
qed



end
