(* ===== verification/KvHarness.thy ===== *)
theory KvHarness
  imports KvTest TesterGroup Annotation
begin

text \<open>
  The rest of the key/value tests' library: spreading puts over keys, the partitioner and the verdict of the porcupine checker
  (\<open>kvtest1/kvtest.go\<close>, \<open>kvtest1/porcupine.go\<close>), and the set-up of the tests in \<open>kvraft1/test.go\<close>. Random numbers and
  strings are arguments, porcupine's answer is an argument, time is an argument.
\<close>

subsection \<open>Keys, values and a clerk that counts\<close>

definition letterBytes :: string where
  "letterBytes = ''abcdefghijklmnopqrstuvwxyzABCDEFGHIJKLMNOPQRSTUVWXYZ''"

definition RandValue :: "(nat \<Rightarrow> nat) \<Rightarrow> nat \<Rightarrow> string" where
  "RandValue rnd n = map (\<lambda>i. letterBytes ! (rnd i mod length letterBytes)) [0..<n]"

definition MakeKeys :: "nat \<Rightarrow> string list" where
  "MakeKeys n = map (\<lambda>i. ''k'' @ Itoa (int i)) [0..<n]"

lemma MakeKeys_distinct: "distinct (MakeKeys n)"
  by (auto simp: MakeKeys_def distinct_map inj_on_def Itoa_inject)

definition TestClerkPut :: "'s ckPut \<Rightarrow> string \<Rightarrow> string \<Rightarrow> Tversion \<Rightarrow> 's world \<Rightarrow> 's world \<times> Err" where
  "TestClerkPut ckPut key val n w =
     (let w1 = OpInc w in case ckPut key val n (store w1) of (s, err) \<Rightarrow> (w1\<lparr>store := s\<rparr>, err))"

definition TestClerkGet :: "'s ckGet \<Rightarrow> string \<Rightarrow> 's world \<Rightarrow> 's world \<times> string \<times> Tversion \<times> Err" where
  "TestClerkGet ckGet key w =
     (let w1 = OpInc w in case ckGet key (store w1) of (s, val, n, err) \<Rightarrow> (w1\<lparr>store := s\<rparr>, val, n, err))"

text \<open>The two loops of \<open>SpreadPutsSize\<close> over the keys and their values.\<close>

fun spreadPuts :: "'s ckPut \<Rightarrow> (string \<times> string) list \<Rightarrow> 's world \<Rightarrow> 's world" where
  "spreadPuts ckPut [] w = w"
| "spreadPuts ckPut ((k, v) # kvs) w = spreadPuts ckPut kvs (fst (TestClerkPut ckPut k v 0 w))"

fun spreadChecks :: "('s \<Rightarrow> int) \<Rightarrow> 's ckGet \<Rightarrow> (string \<times> string) list \<Rightarrow> 's world \<Rightarrow> 's world test" where
  "spreadChecks clock ckGet [] w = Ret w"
| "spreadChecks clock ckGet ((k, v) # kvs) w =
     (case CheckGet clock ckGet k v 1 w of Fatal \<Rightarrow> Fatal | Ret w1 \<Rightarrow> spreadChecks clock ckGet kvs w1)"

definition SpreadPutsSize :: "('s \<Rightarrow> int) \<Rightarrow> 's ckGet \<Rightarrow> 's ckPut \<Rightarrow> (nat \<Rightarrow> string) \<Rightarrow> nat \<Rightarrow> 's world \<Rightarrow> ('s world \<times> string list \<times> string list) test" where
  "SpreadPutsSize clock ckGet ckPut randstring n w =
     (let ka = MakeKeys n; va = map randstring [0..<n]
      in case spreadChecks clock ckGet (zip ka va) (spreadPuts ckPut (zip ka va) w) of
           Fatal \<Rightarrow> Fatal
         | Ret w1 \<Rightarrow> Ret (w1, ka, va))"

context ikv_clerk
begin

lemma spreadPuts_look:
  assumes "distinct (map fst kvs)" "\<forall>k \<in> set (map fst kvs). look (store w) k = None"
  shows "look (store (spreadPuts ckPut kvs w)) = look (store w) ++ map_of (map (\<lambda>(k, v). (k, (v, 1))) kvs)"
  using assms
proof (induction kvs arbitrary: w)
  case (Cons kv kvs)
  obtain k v where kv: "kv = (k, v)" by (cases kv)
  let ?w1 = "fst (TestClerkPut ckPut k v 0 w)"
  obtain s e where p: "ckPut k v 0 (store w) = (s, e)" by fastforce
  then have w1: "store ?w1 = s" by (simp add: TestClerkPut_def OpInc_def)
  have look1: "look (store ?w1) = (look (store w))(k \<mapsto> (v, 1))"
    using put_create [OF _ p] Cons.prems(2) kv w1 by simp
  have "look (store (spreadPuts ckPut kvs ?w1)) = look (store ?w1) ++ map_of (map (\<lambda>(k, v). (k, (v, 1))) kvs)"
    using Cons.prems kv look1 by (intro Cons.IH) auto
  moreover have "map_of (map (\<lambda>(k, v). (k, (v, 1 :: Tversion))) kvs) k = None"
    using Cons.prems(1) kv by (auto simp: map_of_eq_None_iff image_iff)
  ultimately show ?case using kv look1 by (auto simp: map_add_def fun_eq_iff split: option.splits)
qed simp

lemma spreadChecks_pass:
  assumes "\<forall>(k, v) \<in> set kvs. look (store w) k = Some (v, 1)"
  shows "\<exists>w'. spreadChecks clock ckGet kvs w = Ret w' \<and> look (store w') = look (store w)"
  using assms
proof (induction kvs arbitrary: w)
  case (Cons kv kvs)
  obtain k v where kv: "kv = (k, v)" by (cases kv)
  obtain w1 v1 n1 e where g: "logGet clock ckGet k 0 w = (w1, v1, n1, e)" by (metis surj_pair)
  have "v1 = v" "n1 = 1" "e = OK" "look (store w1) = look (store w)"
    using logGet_spec [OF g, of v 1] Cons.prems kv by auto
  then show ?case using Cons.IH [of w1] Cons.prems kv g by (auto simp: CheckGet_def tsGet_def)
qed simp

lemma SpreadPutsSize_spec:
  assumes "\<forall>k \<in> set (MakeKeys n). look (store w) k = None"
  shows "\<exists>w'. SpreadPutsSize clock ckGet ckPut randstring n w = Ret (w', MakeKeys n, map randstring [0..<n]) \<and>
    (\<forall>i < n. look (store w') (MakeKeys n ! i) = Some (randstring i, 1)) \<and>
    (\<forall>k. k \<notin> set (MakeKeys n) \<longrightarrow> look (store w') k = look (store w) k)"
proof -
  let ?kvs = "zip (MakeKeys n) (map randstring [0..<n])"
  have len: "length (MakeKeys n) = n" by (simp add: MakeKeys_def)
  have keys: "map fst ?kvs = MakeKeys n" using len by (simp add: map_fst_zip)
  let ?m = "map_of (map (\<lambda>(k, v). (k, (v, 1 :: Tversion))) ?kvs)"
  have look: "look (store (spreadPuts ckPut ?kvs w)) = look (store w) ++ ?m"
    using spreadPuts_look [of ?kvs w] keys MakeKeys_distinct [of n] assms by simp
  have d: "distinct (map fst (map (\<lambda>(k, v). (k, (v, 1 :: Tversion))) ?kvs))"
    using keys MakeKeys_distinct [of n] by (simp add: comp_def case_prod_beta)
  have at: "?m k = Some (v, 1)" if "(k, v) \<in> set ?kvs" for k v
    using that by (intro map_of_is_SomeI [OF d]) force
  have outside: "?m k = None" if "k \<notin> set (MakeKeys n)" for k
    using that keys by (force simp: map_of_eq_None_iff image_iff dest: set_zip_leftD)
  have "\<forall>(k, v) \<in> set ?kvs. look (store (spreadPuts ckPut ?kvs w)) k = Some (v, 1)"
    using at unfolding look by (auto simp: map_add_def)
  then obtain w' where w': "spreadChecks clock ckGet ?kvs (spreadPuts ckPut ?kvs w) = Ret w'"
    "look (store w') = look (store w) ++ ?m" using spreadChecks_pass look by metis
  have "look (store w') (MakeKeys n ! i) = Some (randstring i, 1)" if "i < n" for i
  proof -
    have "(MakeKeys n ! i, randstring i) \<in> set ?kvs" using that len by (force simp: set_zip)
    then show ?thesis using at unfolding w'(2) by (simp add: map_add_def)
  qed
  moreover have "look (store w') k = look (store w) k" if "k \<notin> set (MakeKeys n)" for k
    using outside [OF that] unfolding w'(2) by (simp add: map_add_def)
  ultimately show ?thesis using w'(1) by (simp add: SpreadPutsSize_def)
qed

end

text \<open>
  On a server that has none of the keys, \<open>SpreadPutsSize\<close> on a reliable network ends with no check failed; every key then
  holds the value it reports, at version 1, and no other key was touched.
\<close>

lemma SpreadPuts_stores:
  assumes "\<forall>k \<in> set (MakeKeys n). lookup (store w) k = None"
  shows "\<exists>w'. SpreadPutsSize clock relGet relPut randstring n w = Ret (w', MakeKeys n, map randstring [0..<n]) \<and>
    (\<forall>i < n. lookup (store w') (MakeKeys n ! i) = Some (randstring i, 1)) \<and>
    (\<forall>k. k \<notin> set (MakeKeys n) \<longrightarrow> lookup (store w') k = lookup (store w) k)"
  using assms by (rule rel.SpreadPutsSize_spec)

subsection \<open>The partitioner\<close>

text \<open>The servers whose random bit is \<open>i\<close>, and one turn of the loop: \<open>rnd j\<close> is the random number of server \<open>j\<close>.\<close>

definition bitSide :: "(nat \<Rightarrow> nat) \<Rightarrow> nat \<Rightarrow> nat \<Rightarrow> nat list" where
  "bitSide rnd n i = foldl (\<lambda>p j. if rnd j mod 2 = i then p @ [j] else p) [] [0..<n]"

definition PartitionerTurn ::
  "int \<Rightarrow> (nat \<Rightarrow> nat) \<Rightarrow> ('b ServerGrp \<times> 'st Network) \<times> annWorld \<Rightarrow> (('b ServerGrp \<times> 'st Network) \<times> annWorld) option" where
  "PartitionerTurn t rnd = (\<lambda>(st, w).
     let p0 = bitSide rnd (N (fst st)) 0; p1 = bitSide rnd (N (fst st)) 1
     in do { st' \<leftarrow> Partition p0 p1 st; Some (st', AnnotateTwoPartitions t (map int p0) (map int p1) w) })"

lemma bitSide_filter: "bitSide rnd n i = filter (\<lambda>j. rnd j mod 2 = i) [0..<n]"
proof -
  have "foldl (\<lambda>p j. if rnd j mod 2 = i then p @ [j] else p) ps js = ps @ filter (\<lambda>j. rnd j mod 2 = i) js" for ps js
    by (induction js arbitrary: ps) auto
  then show ?thesis by (simp add: bitSide_def)
qed

text \<open>A turn never panics and leaves exactly the links between servers with the same bit.\<close>

lemma PartitionerTurn_links:
  assumes "grp_ok sg"
  shows "\<exists>sg' nw' w'. PartitionerTurn t rnd ((sg, nw), w) = Some ((sg', nw'), w') \<and> grp_ok sg' \<and>
    (\<forall>a < N sg. \<forall>b < N sg. link sg' nw' a b \<longleftrightarrow> rnd a mod 2 = rnd b mod 2)"
proof -
  have s: "set (bitSide rnd (N sg) i) = {j. j < N sg \<and> rnd j mod 2 = i}" for i by (auto simp: bitSide_filter)
  have "set (bitSide rnd (N sg) 0) \<subseteq> {..<N sg}" "set (bitSide rnd (N sg) 1) \<subseteq> {..<N sg}"
    "set (bitSide rnd (N sg) 0) \<inter> set (bitSide rnd (N sg) 1) = {}" by (auto simp: s)
  from Partition_links [OF assms this, of nw] obtain sg' nw' where P: "Partition (bitSide rnd (N sg) 0) (bitSide rnd (N sg) 1) (sg, nw) = Some (sg', nw')"
    "grp_ok sg'" "\<And>a b. a \<in> set (bitSide rnd (N sg) 0) \<union> set (bitSide rnd (N sg) 1) \<Longrightarrow> b \<in> set (bitSide rnd (N sg) 0) \<union> set (bitSide rnd (N sg) 1) \<Longrightarrow>
      link sg' nw' a b \<longleftrightarrow> (a \<in> set (bitSide rnd (N sg) 0) \<longleftrightarrow> b \<in> set (bitSide rnd (N sg) 0))" by metis
  have "link sg' nw' a b \<longleftrightarrow> rnd a mod 2 = rnd b mod 2" if "a < N sg" "b < N sg" for a b
    using P(3) [of a b] that unfolding s by (auto simp: mod2_eq_if)
  then show ?thesis using P(1,2) by (simp add: PartitionerTurn_def Let_def)
qed

subsection \<open>The verdict on a history\<close>

datatype CheckResult = CrOk | CrIllegal | CrUnknown

text \<open>
  \<open>checkPorcupine\<close> for porcupine's answer \<open>res\<close>: \<open>visEnable\<close> is \<open>VIS_ENABLE\<close>, \<open>opened\<close> says whether the file could be opened.
  The result is the annotations drawn with the operations, if any, and whether the test ends with \<open>Fatal\<close>.
\<close>

definition checkPorcupine ::
  "string \<Rightarrow> bool \<Rightarrow> int \<Rightarrow> int \<Rightarrow> string list \<Rightarrow> CheckResult \<Rightarrow> annState \<Rightarrow> annState \<times> pAnnotation list option \<times> bool" where
  "checkPorcupine visEnable opened t t' tags res an =
     (if res = CrIllegal then
        (if \<not> opened then (an, None, True)
         else if visEnable \<noteq> ''never'' then
           (case FinalizeAnnotations t t' tags ''test failed'' an of (as, an') \<Rightarrow> (an', Some as, True))
         else (an, None, True))
      else if visEnable = ''always'' \<and> isFinalized an then
        (if \<not> opened then (an, None, False)
         else case FinalizeAnnotations t t' tags ''test passed'' an of (as, an') \<Rightarrow> (an', Some as, False))
      else (an, None, False))"

text \<open>
  An illegal history always ends the test. It is drawn with its operations unless \<open>VIS_ENABLE\<close> is \<open>never\<close> or the file cannot be
  opened, and what the clean-up after it draws never replaces that drawing.
\<close>

lemma illegal_history_drawn_once:
  assumes "checkPorcupine visEnable True t t' tags CrIllegal an = (an1, vis, fatal)"
  shows "fatal \<and> (vis \<noteq> None \<longleftrightarrow> visEnable \<noteq> ''never'') \<and> snd (cleanup visEnable t1 t1' tags1 True e an1) = None"
proof (cases "visEnable = ''never''")
  case True
  then have "an1 = an \<and> vis = None \<and> fatal" using assms by (simp add: checkPorcupine_def)
  then show ?thesis using True by (simp add: cleanup_def)
next
  case False
  then have "isFinalized an1 \<and> vis \<noteq> None \<and> fatal"
    using assms by (auto simp: checkPorcupine_def FinalizeAnnotations_def finalize_def isFinalized_def)
  then show ?thesis using False by (simp add: cleanup_def)
qed

text \<open>
  With \<open>VIS_ENABLE\<close> set to \<open>always\<close>, the operations of a test that passes are not drawn: the condition asks for annotations that
  were finalized before, which is the case only when they have been drawn already.
\<close>

lemma passing_history_not_drawn:
  assumes "res \<noteq> CrIllegal" "\<not> isFinalized an"
  shows "checkPorcupine visEnable opened t t' tags res an = (an, None, False)"
  using assms by (simp add: checkPorcupine_def)

subsection \<open>A test of the replicated service\<close>

record kvraftTest =
  part :: string
  nclients :: int
  crash :: bool
  partitions :: bool
  maxraftstate :: int
  randomkeys :: bool

definition makeTitle :: "kvraftTest \<Rightarrow> string" where
  "makeTitle ts =
     ''Test: '' @ (if crash ts then ''restarts, '' else []) @ (if partitions ts then ''partitions, '' else []) @
     (if maxraftstate ts \<noteq> -1 then ''snapshots, '' else []) @ (if randomkeys ts then ''random keys, '' else []) @
     (if 1 < nclients ts then ''many clients'' else ''one client'') @ '' ('' @ part ts @ '')''"

definition killall :: "int \<Rightarrow> ('b ServerGrp \<times> 'st Network) \<times> annWorld \<Rightarrow> (('b ServerGrp \<times> 'st Network) \<times> annWorld) option" where
  "killall t = (\<lambda>(st, w). do { st' \<leftarrow> Shutdown st; w' \<leftarrow> AnnotateShutdownAll t w; Some (st', w') })"

definition restartall ::
  "int \<Rightarrow> (nat \<Rightarrow> 'st launch) \<Rightarrow> ('b ServerGrp \<times> 'st Network) \<times> annWorld \<Rightarrow> (('b ServerGrp \<times> 'st Network) \<times> annWorld) option" where
  "restartall t ls = (\<lambda>(st, w). do { st' \<leftarrow> StartServers ls st; w' \<leftarrow> AnnotateRestartAll t w; Some (st', w') })"

end
