(* ===== verification/Spec2Isabelle.thy ===== *)
theory Spec2Isabelle
  imports RaftOne RaftSetup MrApps ShardCfg ShardTest KvTest MapReduce LabRpc TesterGroup Demux Annotation Daemon Config Rsm Labgob KvSpawn KvHarness
begin

text \<open>
  A verification of the laboratory programs of MIT 6.5840: MapReduce, a versioned key/value
  server, the Raft consensus library, shard configurations, and the simulated network and tester
  they run on. File names are relative to \<open>src/src/\<close>.

  The parts and the theories that model them.

  \<^item> \<open>Prelude\<close>: slices whose index is checked (\<open>goindex\<close>, \<open>gostore\<close>; \<open>None\<close> is a Go panic),
    loops over a slice whose body may panic (\<open>for_each\<close>), majorities as a quorum system, decimal
    numerals.
  \<^item> \<open>Persister\<close>: \<open>tester1/persister.go\<close> and the encoded byte strings. The gob encoding itself is
    not under this tree: a byte string is the list of the values encoded into it, and decoding
    returns them in order, or fails on a value of another type.
  \<^item> \<open>RaftNode\<close>: one server of \<open>raft1/raft.go\<close>. A record of the fields of \<open>Raft\<close>, and one function for
    every handler, for every reply a goroutine waits for, for the ticker, the commit loop and the
    applier. A goroutine is cut where it gives up the lock.
  \<^item> \<open>RaftLocal\<close>: well-formedness and absence of panics of one server, and what a crash at any
    point leaves. \<open>RaftHandlers\<close>: what each handler does to the log, on every branch.
  \<^item> \<open>RaftCluster\<close>: servers exchanging calls as a step relation; the network delays, reorders and
    loses any request or reply, servers crash and restart at any moment. Election safety,
    stability of terms and votes, crash recovery.
  \<^item> \<open>RaftSchedule\<close>: executable schedules of the step relation, for concrete runs.
  \<^item> \<open>RaftLog\<close>, \<open>RaftVotes\<close>, \<open>RaftCommit\<close>: log matching, leader completeness and state machine safety of
    the runs without snapshots. They rest on the history of a run: the log of the leader of each term,
    the log a candidate had when its election began, the log a voter had when it voted, and
    what each server acknowledged to the leader of each term.
  \<^item> \<open>RaftHarness\<close>: the service of \<open>raft1/server.go\<close> and the checks of \<open>raft1/test.go\<close>. \<open>RaftWatch\<close>:
    the group of servers, their appliers and the tester together; the tester never sees an error.
    \<open>RaftOne\<close>: \<open>one\<close> and \<open>wait\<close> of \<open>raft1/test.go\<close> beside that group. \<open>RaftSetup\<close>: the proxies between them, \<open>raft1/proxy.go\<close>,
    whose calls may fail, and killing and restarting servers.
  \<^item> \<open>LabRpc\<close>: the simulated network of \<open>labrpc/labrpc.go\<close>. \<open>TesterGroup\<close>: groups, servers and clients
    of \<open>tester1/group.go\<close>, \<open>srv.go\<close>, \<open>clnts.go\<close> on that network. \<open>Config\<close>: \<open>tester1/config.go\<close>.
  \<^item> \<open>Demux\<close>: the calls between the processes, \<open>tester1/demux/\<close> and \<open>tester1/sockrpc/\<close>: frames on a byte
    stream, the map of outstanding calls, reader and handlers as a step relation. \<open>Daemon\<close>: a server
    process, its start and its persister, \<open>tester1/daemonsrv.go\<close> and \<open>daemonclnt.go\<close>, and the calls it forwards to
    the tester, \<open>tester1/testsrv.go\<close>.
  \<^item> \<open>Annotation\<close>: the events of a test on record for its visualisation, \<open>tester1/annotation.go\<close> and
    \<open>annotator.go\<close>.
  \<^item> \<open>KvSrv\<close>: \<open>kvsrv1/server.go\<close>, \<open>kvsrv1/client.go\<close>, \<open>kvsrv1/rpc/rpc.go\<close> and the sequential model
    \<open>models1/kv.go\<close>. \<open>KvTest\<close>: the clients and checkers of \<open>kvtest1/\<close>, one client at a time, over any clerk that keeps
    the contract \<open>ikv_clerk\<close>. \<open>KvSpawn\<close>: many clients at once, \<open>SpawnClientsAndWait\<close> with \<open>OneClientPut\<close>, interleaved at
    the calls of the clerk and at the channels. \<open>KvHarness\<close>: spreading puts, the partitioner, the verdict
    of \<open>checkPorcupine\<close>, and stopping and restarting the servers of \<open>kvraft1/test.go\<close>.
  \<^item> \<open>Rsm\<close>: \<open>kvraft1/rsm/\<close>, the contract \<open>StateMachine\<close>, the counter service that implements it and the checks of its tester.
  \<^item> \<open>Labgob\<close>: \<open>labgob/labgob.go\<close>, the walk over the types registered and over the variables decoded into.
  \<^item> \<open>ShardCfg\<close>: \<open>shardkv1/shardcfg/shardcfg.go\<close>. \<open>Fnv\<close>: the hash it and MapReduce use. \<open>ShardTest\<close>: the tester of the sharded
    service, \<open>shardkv1/test.go\<close>, over the methods of the controller, which is a stub.
  \<^item> \<open>Coordinator\<close>, \<open>MapReduce\<close>: \<open>mr/coordinator.go\<close>, \<open>mr/worker.go\<close>, \<open>main/mrsequential.go\<close> and the
    applications of \<open>mrapps/\<close>. \<open>MrTest\<close>: the tests' side, \<open>mr/util.go\<close>, and what a job leaves for it. \<open>MrApps\<close>: the applications
    that crash or leave marker files.

  What the lemmas show. A Raft server never panics on a slice index and recovers its hard state from
  its persister after a crash at any point; at most one server leads a term; logs that have the
  same term at an index agree up to there; a committed entry is in the log of every later
  leader; no two servers ever apply different commands at an index, and so the tester
  records no apply error and its counts never fail. A clerk's put is one atomic
  step of the sequential model, with \<open>ErrMaybe\<close> only where it cannot know. The files a
  MapReduce job leaves hold what the sequential program writes, whatever workers are timed out, and so the
  tests that compare the two with \<open>sort\<close> and \<open>cmp\<close> pass.
  Rebalancing ends in a balanced assignment that does not depend on map iteration order.
  A handler of the simulated network runs at most once per call, partitions cut exactly the links they
  say, and a restarted server has the state it had persisted. An index that \<open>one\<close> returns stays agreed on
  whatever happens afterwards. On a socket every reply finds its request and no call hangs; a server process gets the
  persister it was given, and its calls are calls on the tester's network. The annotations of a test
  tell which servers were cut off or down at every moment. Servers that run the same committed commands
  agree, whichever snapshots they started from. Registering types ends, recursive types included, and warns exactly if a
  field is not exported. However many clients put to a key at once, \<open>SpawnClientsAndWait\<close> returns, and the
  puts its clients counted are the version of the key.

  Loops. Structural recursion and \<open>function\<close> with a measure where a bound is visible
  (\<open>applyLoop\<close>, \<open>commitLoop\<close>); \<open>partial_function (option)\<close> where it is not (\<open>rebalanceLoop\<close>), with the
  theorem that it returns. \<open>wait\<close> has the 30 rounds of the code. A clerk's retry loop runs over the list of what the network does to
  its attempts, and \<open>None\<close> is a loop that has not ended yet. No fuel is used.

  Assumed of code outside the tree: gob decodes what it encoded; the network runs a handler at
  most once per call (proved of \<open>LabRpc\<close>, and the shape of the calls of \<open>RaftCluster\<close>); a JSON encoder
  that is injective is a parameter of \<open>KvTest\<close>; the map and reduce functions are
  parameters of \<open>MapReduce\<close>; \<open>find\<close>, \<open>sort\<close> and \<open>cmp\<close> are parameters of \<open>MrTest\<close> with their documented
  behaviour (\<open>tools_ok\<close>). Encoding and decoding of a frame and of the arguments of a socket call are parameters of
  \<open>Demux\<close>, \<open>encoding/gob\<close> is a parameter of \<open>Labgob\<close>, and a frame's length fits in 32 bits; a connection carries fewer than \<open>2 ^ 32\<close> calls, after which its tags
  repeat. \<open>Config\<close> takes its random end names from its arguments and assumes them distinct.

  Not modelled. Safety across snapshots: \<open>InstallSnapshot\<close> keeps a suffix of the log it has not
  compared (\<open>RaftHandlers.InstallSnapshot_keeps_conflicting_suffix\<close>), so \<open>RaftLog\<close> to \<open>RaftWatch\<close>
  are about groups whose service takes none, the setting \<open>snapshot = false\<close> of \<open>newRfsrv\<close>; the handlers
  of snapshots are modelled and election safety, crash recovery and absence of panics cover them.
  Time (timeouts are nondeterministic, their comparisons are modelled), the operating system's part in
  processes, sockets and files, printing, porcupine's own checker (its answer is an argument of \<open>checkPorcupine\<close>), and the stubs
  the laboratories leave to be written (\<open>Submit\<close> of \<open>kvraft1/rsm\<close>, the servers and clerks of \<open>kvraft1\<close> and \<open>shardkv1\<close>, the
  shard controller, the lock). \<open>ShardTest\<close> has lemmas for a controller that does what the comments of the stub ask for (\<open>ctl_ok\<close>), and
  what happens with the stub itself.
\<close>

end
